(* ===== verification/Rf_Prelude.thy ===== *)
theory Rf_Prelude
  imports
    Main
    "HOL-Library.Word"
    "HOL-Library.List_Lexorder"
    "HOL-Library.Product_Lexorder"
    "HOL-Library.Char_ord"
    "HOL-Library.AList"
    "HOL-Library.Multiset"
    "HOL-Library.Monad_Syntax"
begin

text \<open>
  The prelude of the RandallFlare development: names for Rust's machine
  integers, the saturating arithmetic the sources use, the collections of simp
  rules the component theories fill, and the two interfaces that several
  components share:

  \<^item> \<open>lww_register\<close>: a register that keeps the entry of greatest rank.  KV
    entries, worker manifests and platform-resource heads are all merged this
    way, each with its own rank.
  \<^item> \<open>keyed_store\<close>: a map of such registers, updated one key at a time.

  The convergence argument (any delivery order of the same set of entries gives
  the same state) is proved once, inside these locales.
\<close>

section \<open>Machine integers\<close>

type_synonym u8 = "8 word"
type_synonym u16 = "16 word"
type_synonym u32 = "32 word"
type_synonym u64 = "64 word"
type_synonym u128 = "128 word"
type_synonym i32 = "32 word"
type_synonym bytes = "u8 list"

named_theorems rust_simps \<open>equations that evaluate the Rust library model\<close>

text \<open>\<open>saturating_add\<close>, \<open>saturating_sub\<close> and \<open>abs_diff\<close> of Rust's unsigned integers.\<close>

definition sat_add :: "'a::len word \<Rightarrow> 'a word \<Rightarrow> 'a word" where
  "sat_add a b = (if unat a + unat b < 2 ^ LENGTH('a) then a + b else - 1)"

definition sat_sub :: "'a::len word \<Rightarrow> 'a word \<Rightarrow> 'a word" where
  "sat_sub a b = (if b \<le> a then a - b else 0)"

definition abs_diff :: "'a::len word \<Rightarrow> 'a word \<Rightarrow> 'a word" where
  "abs_diff a b = (if b \<le> a then a - b else b - a)"

lemma unat_minus_one_word: "unat (- 1 :: 'a::len word) = 2 ^ LENGTH('a) - 1"
  by (simp add: unsigned_minus_1_eq_mask mask_eq_exp_minus_1)

lemma unat_sat_add:
  "unat (sat_add a b) = min (unat a + unat b) (2 ^ LENGTH('a) - 1)"
  for a b :: "'a::len word"
  by (auto simp: sat_add_def unat_minus_one_word unat_word_ariths min_def)

lemma unat_sat_sub: "unat (sat_sub a b) = unat a - unat b"
  by (simp add: sat_sub_def unat_sub_if' word_le_nat_alt)

lemma unat_abs_diff:
  "unat (abs_diff a b) = (if unat b \<le> unat a then unat a - unat b else unat b - unat a)"
  by (auto simp: abs_diff_def unat_sub_if' word_le_nat_alt)

lemma sat_add_le: "a \<le> sat_add a b"
  for a :: "'a::len word"
proof -
  have "unat a < 2 ^ LENGTH('a)" by (rule unsigned_less)
  then show ?thesis by (simp add: word_le_nat_alt unat_sat_add less_eq_Suc_le)
qed

lemma sat_add_mono: "a \<le> a' \<Longrightarrow> sat_add a b \<le> sat_add a' b"
  by (auto simp: word_le_nat_alt unat_sat_add)

section \<open>Reversed order\<close>

text \<open>
  \<open>std::cmp::Reverse\<close>: where the sources prefer the lower digest or the earlier
  timestamp, the rank is the reversed key.
\<close>

datatype 'a reverse = Reverse (unreverse: 'a)

instantiation reverse :: (linorder) linorder
begin

definition less_reverse :: "'a reverse \<Rightarrow> 'a reverse \<Rightarrow> bool" where
  "less_reverse a b = (unreverse b < unreverse a)"

definition less_eq_reverse :: "'a reverse \<Rightarrow> 'a reverse \<Rightarrow> bool" where
  "less_eq_reverse a b = (unreverse b \<le> unreverse a)"

instance
  by standard (auto simp: less_reverse_def less_eq_reverse_def reverse.expand)

end

lemma reverse_order_simps [simp]:
  "Reverse a < Reverse b \<longleftrightarrow> b < a"
  "Reverse a \<le> Reverse b \<longleftrightarrow> b \<le> a"
  by (simp_all add: less_reverse_def less_eq_reverse_def)

section \<open>Registers that keep the entry of greatest rank\<close>

text \<open>
  \<open>join cur e\<close> is the value a replica holds after it has seen \<open>e\<close>, where
  \<open>cur\<close> is what it held before (\<open>None\<close>: nothing).  A replica may refuse an
  entry although it ranks higher (\<open>refuses x e\<close>): a claim it takes for a
  duplicate, a manifest that does not link to the one it holds.  A set of
  entries is consistent when no replica has a reason to do so.
\<close>

locale lww_register =
  fixes rank :: "'e \<Rightarrow> 'r::linorder"
    and refuses :: "'e \<Rightarrow> 'e \<Rightarrow> bool"
    and join :: "'e option \<Rightarrow> 'e \<Rightarrow> 'e"
  assumes join_None: "join None e = e"
    and join_Some: "join (Some x) e = (if rank x < rank e \<and> \<not> refuses x e then e else x)"
begin

definition consistent :: "'e set \<Rightarrow> bool" where
  "consistent S \<longleftrightarrow> (\<forall>x \<in> S. \<forall>y \<in> S. rank x < rank y \<longrightarrow> \<not> refuses x y)"

lemma consistent_subset: "consistent S \<Longrightarrow> T \<subseteq> S \<Longrightarrow> consistent T"
  by (auto simp: consistent_def)

lemma join_in: "join cur e \<in> insert e (set_option cur)"
  by (cases cur) (auto simp: join_None join_Some)

lemma rank_join_mono: "cur = Some x \<Longrightarrow> rank x \<le> rank (join cur e)"
  by (auto simp: join_Some)

lemma rank_join:
  assumes "consistent (insert e (set_option cur))"
  shows "rank (join cur e) = (case cur of None \<Rightarrow> rank e | Some x \<Rightarrow> max (rank x) (rank e))"
  using assms by (cases cur) (auto simp: join_None join_Some max_def consistent_def)

lemma join_idem: "join (Some (join cur e)) e = join cur e"
  by (cases cur) (auto simp: join_None join_Some)

lemma join_absorbs_older: "rank e \<le> rank x \<Longrightarrow> join (Some x) e = x"
  by (simp add: join_Some leD)

text \<open>A whole sequence of entries: the result is one of them, of greatest rank.\<close>

lemma fold_join_None_iff:
  "foldl (\<lambda>c e. Some (join c e)) cur es = None \<longleftrightarrow> cur = None \<and> es = []"
proof (induction es arbitrary: cur)
  case (Cons e es)
  show ?case using Cons.IH [of "Some (join cur e)"] by simp
qed simp

lemma fold_join_mem:
  "foldl (\<lambda>c e. Some (join c e)) cur es = Some r \<Longrightarrow> r \<in> set es \<union> set_option cur"
proof (induction es arbitrary: cur)
  case (Cons e es)
  from Cons.IH [of "Some (join cur e)"] Cons.prems join_in [of cur e] show ?case by auto
qed simp

lemma fold_join_Some:
  assumes "foldl (\<lambda>c e. Some (join c e)) cur es = Some r"
    and "consistent (set es \<union> set_option cur)"
  shows "r \<in> set es \<union> set_option cur \<and> (\<forall>e \<in> set es \<union> set_option cur. rank e \<le> rank r)"
  using assms
proof (induction es arbitrary: cur)
  case Nil
  then show ?case by simp
next
  case (Cons e es)
  let ?j = "join cur e"
  from Cons.prems(1) have f: "foldl (\<lambda>c e. Some (join c e)) (Some ?j) es = Some r" by simp
  have "consistent (set es \<union> set_option (Some ?j))"
    using join_in [of cur e] by (intro consistent_subset [OF Cons.prems(2)]) auto
  from Cons.IH [OF f this] have r: "r \<in> set es \<union> {?j}"
    and le: "\<And>x. x \<in> set es \<Longrightarrow> rank x \<le> rank r" "rank ?j \<le> rank r" by auto
  have c: "consistent (insert e (set_option cur))"
    by (rule consistent_subset [OF Cons.prems(2)]) auto
  have "rank x \<le> rank r" if "x \<in> insert e (set_option cur)" for x
  proof -
    from that have "rank x \<le> rank ?j" using rank_join [OF c] by (cases cur) auto
    with le(2) show ?thesis by (rule order_trans [rotated])
  qed
  with le(1) have "\<forall>x \<in> set (e # es) \<union> set_option cur. rank x \<le> rank r" by auto
  moreover have "r \<in> set (e # es) \<union> set_option cur"
    using r join_in [of cur e] by auto
  ultimately show ?case by blast
qed

theorem fold_join_convergence:
  assumes "set es \<union> set_option c = set fs \<union> set_option d"
    and "inj_on rank (set es \<union> set_option c)"
    and "consistent (set es \<union> set_option c)"
  shows "foldl (\<lambda>c e. Some (join c e)) c es = foldl (\<lambda>c e. Some (join c e)) d fs"
    (is "?L = ?R")
proof (cases "?L")
  case None
  with assms(1) have "d = None \<and> fs = []" by (auto simp: fold_join_None_iff)
  with None show ?thesis by simp
next
  case (Some r)
  then have "set es \<union> set_option c \<noteq> {}"
    using fold_join_None_iff [of c es] by (cases c) simp_all
  with assms(1) have "?R \<noteq> None"
    using fold_join_None_iff [of d fs] by (cases d) simp_all
  then obtain q where q: "?R = Some q" by blast
  note R = fold_join_Some [OF Some assms(3)]
  note Q = fold_join_Some [OF q assms(3) [unfolded assms(1)]]
  from R Q have "rank r = rank q" unfolding assms(1) by (auto intro: antisym)
  with R Q assms(2) have "r = q" unfolding assms(1) by (auto dest: inj_onD)
  with Some q show ?thesis by simp
qed

end

section \<open>Keyed stores of registers\<close>

locale keyed_store = lww_register rank refuses join
  for rank :: "'e \<Rightarrow> 'r::linorder" and refuses :: "'e \<Rightarrow> 'e \<Rightarrow> bool"
    and join :: "'e option \<Rightarrow> 'e \<Rightarrow> 'e" +
  fixes look :: "'s \<Rightarrow> 'k \<Rightarrow> 'e option"
    and absorb :: "'k \<times> 'e \<Rightarrow> 's \<Rightarrow> 's"
    and ok :: "'s \<Rightarrow> bool"
  assumes ok_absorb: "ok s \<Longrightarrow> ok (absorb i s)"
    and look_absorb: "ok s \<Longrightarrow>
      look (absorb (k, e) s) k' = (if k' = k then Some (join (look s k) e) else look s k')"
begin

lemma ok_fold: "ok s \<Longrightarrow> ok (fold absorb items s)"
  by (induction items arbitrary: s) (auto intro: ok_absorb)

text \<open>No entry of a key is ever replaced by one of lower rank.\<close>

lemma look_absorb_mono:
  assumes "ok s" and "look s k = Some x"
  shows "\<exists>y. look (absorb i s) k = Some y \<and> rank x \<le> rank y"
  using assms rank_join_mono [of "look s k" x "snd i"]
  by (cases i) (auto simp: look_absorb)

text \<open>Each key sees exactly its own entries, in the order they arrive.\<close>

lemma look_fold:
  assumes "ok s"
  shows "look (fold absorb items s) k =
    foldl (\<lambda>c e. Some (join c e)) (look s k) (map snd (filter (\<lambda>i. fst i = k) items))"
  using assms
proof (induction items arbitrary: s)
  case Nil
  then show ?case by simp
next
  case (Cons i items)
  obtain k' e where i: "i = (k', e)" by (cases i)
  from Cons.prems have "ok (absorb i s)" by (rule ok_absorb)
  from Cons.IH [OF this] show ?case
    using Cons.prems by (simp add: i look_absorb)
qed

theorem store_convergence:
  assumes "ok s" and "ok t"
    and "set items \<union> {(k, e). look s k = Some e} = set items' \<union> {(k, e). look t k = Some e}"
    and "\<And>k. inj_on rank {e. (k, e) \<in> set items \<or> look s k = Some e}"
    and "\<And>k. consistent {e. (k, e) \<in> set items \<or> look s k = Some e}"
  shows "look (fold absorb items s) k = look (fold absorb items' t) k"
proof -
  let ?es = "map snd (filter (\<lambda>i. fst i = k) items)"
  let ?fs = "map snd (filter (\<lambda>i. fst i = k) items')"
  have es: "set ?es \<union> set_option (look s k) = {e. (k, e) \<in> set items \<or> look s k = Some e}"
    and fs: "set ?fs \<union> set_option (look t k) = {e. (k, e) \<in> set items' \<or> look t k = Some e}"
    by force+
  from assms(3) have same: "set ?es \<union> set_option (look s k) = set ?fs \<union> set_option (look t k)"
    unfolding es fs by (auto simp: set_eq_iff)
  from assms(4) [of k] have "inj_on rank (set ?es \<union> set_option (look s k))" unfolding es .
  moreover from assms(5) [of k] have "consistent (set ?es \<union> set_option (look s k))" unfolding es .
  ultimately show ?thesis
    using fold_join_convergence [OF same]
    by (simp only: look_fold [OF assms(1)] look_fold [OF assms(2)])
qed

end

end
