(* ===== verification/Hlc.thy ===== *)
theory Hlc
  imports Rf_Prelude
begin

text \<open>
  The hybrid logical clock of \<^verbatim>\<open>crates/rf-core/src/hlc.rs\<close>: timestamps ordered
  by wall time and then by a logical counter, and the clock that issues them.
  The counter is a \<open>u32\<close> and is incremented without a check, so it wraps in a
  release build; the lemmas say exactly where that matters.
\<close>

datatype hlc = Hlc (wall_ms: u64) (logical: u32)

text \<open>The derived \<open>Ord\<close>: lexicographic in the order of the fields.\<close>

instantiation hlc :: linorder
begin

definition less_hlc :: "hlc \<Rightarrow> hlc \<Rightarrow> bool" where
  "less_hlc a b = (wall_ms a < wall_ms b \<or> wall_ms a = wall_ms b \<and> logical a < logical b)"

definition less_eq_hlc :: "hlc \<Rightarrow> hlc \<Rightarrow> bool" where
  "less_eq_hlc a b = (wall_ms a < wall_ms b \<or> wall_ms a = wall_ms b \<and> logical a \<le> logical b)"

instance
  by standard (auto simp: less_hlc_def less_eq_hlc_def hlc.expand)

end

lemmas hlc_order_defs = less_hlc_def less_eq_hlc_def

record clock =
  last_hlc :: hlc

definition clock_new :: clock where
  "clock_new = \<lparr>last_hlc = Hlc 0 0\<rparr>"

definition clock_now :: "clock \<Rightarrow> u64 \<Rightarrow> clock \<times> hlc" where
  "clock_now c w =
     (let l = last_hlc c;
          l' = (if wall_ms l < w then Hlc w 0 else Hlc (wall_ms l) (logical l + 1))
      in (c\<lparr>last_hlc := l'\<rparr>, l'))"

definition clock_observe :: "clock \<Rightarrow> hlc \<Rightarrow> u64 \<Rightarrow> clock" where
  "clock_observe c remote w =
     (let base = max (last_hlc c) remote
      in c\<lparr>last_hlc := if wall_ms base < w then base else Hlc (wall_ms base) (logical base + 1)\<rparr>)"

section \<open>One step\<close>

lemma u32_Suc: "l \<noteq> - 1 \<Longrightarrow> unat (l + 1) = Suc (unat l)" for l :: u32
  by (metis add.commute eq_neg_iff_add_eq_0 unatSuc)

lemma u32_less_Suc: "l \<noteq> - 1 \<Longrightarrow> l < l + 1" for l :: u32
  by (simp add: word_less_nat_alt u32_Suc)

lemma clock_now_last: "last_hlc (fst (clock_now c w)) = snd (clock_now c w)"
  by (simp add: clock_now_def Let_def)

lemma clock_now_greater:
  "logical (last_hlc c) \<noteq> - 1 \<Longrightarrow> last_hlc c < snd (clock_now c w)"
  by (auto simp: clock_now_def Let_def less_hlc_def u32_less_Suc)

lemma clock_observe_greater:
  assumes "logical (max (last_hlc c) r) \<noteq> - 1"
  shows "max (last_hlc c) r \<le> last_hlc (clock_observe c r w)"
  using assms by (auto simp: clock_observe_def Let_def less_eq_hlc_def u32_less_Suc less_imp_le)

section \<open>Any interleaving of local events and observations\<close>

datatype clock_op = Now u64 | Observe hlc u64

text \<open>Running a sequence of operations: the final clock and the timestamps issued.\<close>

fun clock_run :: "clock \<Rightarrow> clock_op list \<Rightarrow> clock \<times> hlc list" where
  "clock_run c [] = (c, [])"
| "clock_run c (Now w # ops) =
     (let (c', t) = clock_now c w; (c'', ts) = clock_run c' ops in (c'', t # ts))"
| "clock_run c (Observe r w # ops) = clock_run (clock_observe c r w) ops"

text \<open>The remote timestamps of a sequence of operations.\<close>

definition observed :: "clock_op list \<Rightarrow> hlc set" where
  "observed ops = {r. \<exists>w. Observe r w \<in> set ops}"

lemma observed_simps [simp]:
  "observed [] = {}"
  "observed (Now w # ops) = observed ops"
  "observed (Observe r w # ops) = insert r (observed ops)"
  by (auto simp: observed_def)

text \<open>
  Enough room in the counter: nothing seen so far is above \<open>b\<close>, and the
  remaining operations cannot carry it past \<open>u32::MAX\<close>.
\<close>

lemma no_room_lost:
  "unat (logical l) \<le> b \<Longrightarrow> b < 2 ^ 32 - 1 \<Longrightarrow> logical l \<noteq> - 1"
  using unat_minus_one_word [where 'a = 32] by auto

lemma clock_now_room:
  assumes "unat (logical (last_hlc c)) \<le> b" and "b < 2 ^ 32 - 1"
  shows "unat (logical (last_hlc (fst (clock_now c w)))) \<le> Suc b"
  using assms no_room_lost [OF assms] by (auto simp: clock_now_def Let_def u32_Suc)

lemma clock_observe_room:
  assumes "unat (logical (last_hlc c)) \<le> b" and "unat (logical r) \<le> b" and "b < 2 ^ 32 - 1"
  shows "unat (logical (last_hlc (clock_observe c r w))) \<le> Suc b"
    and "max (last_hlc c) r \<le> last_hlc (clock_observe c r w)"
proof -
  have m: "unat (logical (max (last_hlc c) r)) \<le> b" using assms by (simp add: max_def)
  note ne = no_room_lost [OF m assms(3)]
  with m show "unat (logical (last_hlc (clock_observe c r w))) \<le> Suc b"
    by (auto simp: clock_observe_def Let_def u32_Suc)
  from ne show "max (last_hlc c) r \<le> last_hlc (clock_observe c r w)"
    by (rule clock_observe_greater)
qed

lemma clock_run_increasing:
  assumes "unat (logical (last_hlc c)) \<le> b"
    and "\<And>r. r \<in> observed ops \<Longrightarrow> unat (logical r) \<le> b"
    and "b + length ops < 2 ^ 32"
  shows "sorted_wrt (<) (last_hlc c # snd (clock_run c ops))
    \<and> last_hlc c \<le> last_hlc (fst (clock_run c ops))
    \<and> (\<forall>r \<in> observed ops. r \<le> last_hlc (fst (clock_run c ops)))
    \<and> (\<forall>t \<in> set (snd (clock_run c ops)). t \<le> last_hlc (fst (clock_run c ops)))"
  using assms
proof (induction ops arbitrary: c b)
  case Nil
  then show ?case by simp
next
  case (Cons op ops)
  from Cons.prems(3) have b: "b < 2 ^ 32 - 1" and b': "Suc b + length ops < 2 ^ 32" by simp_all
  show ?case
  proof (cases op)
    case (Now w)
    let ?c = "fst (clock_now c w)"
    from Cons.prems(1) b have "unat (logical (last_hlc ?c)) \<le> Suc b" by (rule clock_now_room)
    moreover from Cons.prems(2) have "\<And>r. r \<in> observed ops \<Longrightarrow> unat (logical r) \<le> Suc b"
      by (simp add: Now le_SucI)
    ultimately have IH: "sorted_wrt (<) (last_hlc ?c # snd (clock_run ?c ops))
        \<and> last_hlc ?c \<le> last_hlc (fst (clock_run ?c ops))
        \<and> (\<forall>r \<in> observed ops. r \<le> last_hlc (fst (clock_run ?c ops)))
        \<and> (\<forall>t \<in> set (snd (clock_run ?c ops)). t \<le> last_hlc (fst (clock_run ?c ops)))"
      using b' by (rule Cons.IH)
    have lt: "last_hlc c < last_hlc ?c"
      using clock_now_greater [OF no_room_lost [OF Cons.prems(1) b], of w]
      by (simp add: clock_now_last)
    have run: "clock_run c (op # ops) =
        (fst (clock_run ?c ops), last_hlc ?c # snd (clock_run ?c ops))"
      by (simp add: Now clock_now_last split: prod.splits)
    from IH lt show ?thesis unfolding run
      by (auto simp: Now intro: less_trans)
  next
    case (Observe r w)
    let ?c = "clock_observe c r w"
    from Cons.prems(2) have r: "unat (logical r) \<le> b" by (simp add: Observe)
    note room = clock_observe_room [OF Cons.prems(1) r b, of w]
    from Cons.prems(2) have "\<And>r. r \<in> observed ops \<Longrightarrow> unat (logical r) \<le> Suc b"
      by (simp add: Observe le_SucI)
    from Cons.IH [OF room(1) this b'] room(2) show ?thesis
      by (auto simp: Observe intro: le_less_trans order_trans)
  qed
qed

text \<open>
  C39: a clock issues strictly increasing timestamps.  Over any interleaving of
  local events and observations that cannot exhaust the 32-bit counter, every
  timestamp issued is above everything issued before, and at the end above or
  equal to everything observed.  The room in the counter is needed: the addition
  wraps in a release build, so at \<open>u32::MAX\<close> under a standing wall clock the
  next timestamp is below the last one.
\<close>

theorem clock_timestamps_increase:
  assumes "unat (logical (last_hlc c)) \<le> b"
    and "\<And>r. r \<in> observed ops \<Longrightarrow> unat (logical r) \<le> b"
    and "b + length ops < 2 ^ 32"
  shows "sorted_wrt (<) (last_hlc c # snd (clock_run c ops))
    \<and> (\<forall>r \<in> observed ops. r \<le> last_hlc (fst (clock_run c ops)))
    \<and> (\<forall>w. w \<le> p \<longrightarrow> snd (clock_now \<lparr>last_hlc = Hlc p (- 1)\<rparr> w) < Hlc p (- 1))"
proof (intro conjI)
  show "sorted_wrt (<) (last_hlc c # snd (clock_run c ops))"
    and "\<forall>r \<in> observed ops. r \<le> last_hlc (fst (clock_run c ops))"
    using clock_run_increasing [OF assms] by blast+
  show "\<forall>w. w \<le> p \<longrightarrow> snd (clock_now \<lparr>last_hlc = Hlc p (- 1)\<rparr> w) < Hlc p (- 1)"
    by (auto simp: clock_now_def Let_def less_hlc_def word_less_nat_alt word_le_nat_alt unat_minus_one_word)
qed

theorem clock_timestamps_increase_witness:
  "snd (clock_run clock_new [Now 5, Observe (Hlc 9 3) 6, Now 7]) = [Hlc 5 0, Hlc 9 5]
   \<and> sorted_wrt (<) (Hlc 0 0 # snd (clock_run clock_new [Now 5, Observe (Hlc 9 3) 6, Now 7]))"
proof -
  have "sorted_wrt (<) (last_hlc clock_new # snd (clock_run clock_new [Now 5, Observe (Hlc 9 3) 6, Now 7]))"
    using clock_timestamps_increase [of clock_new 3 "[Now 5, Observe (Hlc 9 3) 6, Now 7]" 0]
    by (auto simp: clock_new_def)
  then show ?thesis by (simp add: clock_new_def clock_now_def clock_observe_def Let_def less_hlc_def)
qed

end
