(* ===== verification/Rf_Str.thy ===== *)
theory Rf_Str
  imports Rf_Prelude "HOL-Library.Sublist"
begin

text \<open>
  Rust's \<open>str\<close> as the sources use it.  A \<open>str\<close> is its UTF-8 bytes, so it is an
  Isabelle \<open>string\<close> with one \<open>char\<close> per byte: \<open>length\<close> is \<open>str::len\<close>, and the
  byte-wise orders agree.  The functions below are the methods of \<open>str\<close> and
  \<open>u8\<close> the sources call, with their documented behaviour; whitespace is
  Unicode \<open>White_Space\<close>, recognised on its UTF-8 encoding.
\<close>

section \<open>Bytes\<close>

abbreviation code :: "char \<Rightarrow> nat" where
  "code c \<equiv> of_char c"

definition is_ascii_digit :: "char \<Rightarrow> bool" where
  "is_ascii_digit c = (48 \<le> code c \<and> code c \<le> 57)"

definition is_ascii_lowercase :: "char \<Rightarrow> bool" where
  "is_ascii_lowercase c = (97 \<le> code c \<and> code c \<le> 122)"

definition is_ascii_uppercase :: "char \<Rightarrow> bool" where
  "is_ascii_uppercase c = (65 \<le> code c \<and> code c \<le> 90)"

definition is_ascii_alphabetic :: "char \<Rightarrow> bool" where
  "is_ascii_alphabetic c = (is_ascii_lowercase c \<or> is_ascii_uppercase c)"

definition is_ascii_alphanumeric :: "char \<Rightarrow> bool" where
  "is_ascii_alphanumeric c = (is_ascii_alphabetic c \<or> is_ascii_digit c)"

definition is_ascii_hexdigit :: "char \<Rightarrow> bool" where
  "is_ascii_hexdigit c =
     (is_ascii_digit c \<or> 97 \<le> code c \<and> code c \<le> 102 \<or> 65 \<le> code c \<and> code c \<le> 70)"

definition is_ascii_control :: "char \<Rightarrow> bool" where
  "is_ascii_control c = (code c < 32 \<or> code c = 127)"

definition ascii_lower :: "char \<Rightarrow> char" where
  "ascii_lower c = (if is_ascii_uppercase c then char_of (code c + 32) else c)"

definition ascii_upper :: "char \<Rightarrow> char" where
  "ascii_upper c = (if is_ascii_lowercase c then char_of (code c - 32) else c)"

abbreviation to_ascii_lowercase :: "string \<Rightarrow> string" where
  "to_ascii_lowercase \<equiv> map ascii_lower"

abbreviation to_ascii_uppercase :: "string \<Rightarrow> string" where
  "to_ascii_uppercase \<equiv> map ascii_upper"

definition eq_ignore_ascii_case :: "string \<Rightarrow> string \<Rightarrow> bool" where
  "eq_ignore_ascii_case a b = (to_ascii_lowercase a = to_ascii_lowercase b)"

lemmas ascii_class_defs =
  is_ascii_digit_def is_ascii_lowercase_def is_ascii_uppercase_def is_ascii_alphabetic_def
  is_ascii_alphanumeric_def is_ascii_hexdigit_def is_ascii_control_def

lemma ascii_lower_code:
  "code (ascii_lower c) = (if is_ascii_uppercase c then code c + 32 else code c)"
  by (auto simp: ascii_lower_def is_ascii_uppercase_def)

lemma ascii_lower_not_upper: "\<not> is_ascii_uppercase (ascii_lower c)"
  by (simp add: is_ascii_uppercase_def ascii_lower_code)

lemma ascii_lower_id: "\<not> is_ascii_uppercase c \<Longrightarrow> ascii_lower c = c"
  by (simp add: ascii_lower_def)

lemma ascii_lower_idem [simp]: "ascii_lower (ascii_lower c) = ascii_lower c"
  by (simp add: ascii_lower_id ascii_lower_not_upper)

section \<open>Searching and cutting\<close>

definition starts_with :: "string \<Rightarrow> string \<Rightarrow> bool" where
  "starts_with s p = prefix p s"

definition ends_with :: "string \<Rightarrow> string \<Rightarrow> bool" where
  "ends_with s p = suffix p s"

definition contains_str :: "string \<Rightarrow> string \<Rightarrow> bool" where
  "contains_str s p = sublist p s"

lemma starts_with_simps [rust_simps]:
  "starts_with s [] = True"
  "starts_with [] (c # p) = False"
  "starts_with (d # s) (c # p) = (d = c \<and> starts_with s p)"
  by (auto simp: starts_with_def)

lemma starts_with_code [code]:
  "starts_with s p = (take (length p) s = p)"
  by (metis append_eq_conv_conj prefix_def starts_with_def take_is_prefix)

lemma ends_with_code [code]:
  "ends_with s p = starts_with (rev s) (rev p)"
  by (simp add: ends_with_def starts_with_def suffix_to_prefix)

fun contains_from :: "string \<Rightarrow> string \<Rightarrow> bool" where
  "contains_from [] p = (p = [])"
| "contains_from (c # s) p = (starts_with (c # s) p \<or> contains_from s p)"

lemma contains_str_code [code]: "contains_str s p = contains_from s p"
  by (induction s)
     (auto simp: contains_str_def starts_with_def sublist_Cons_right)

definition strip_prefix :: "string \<Rightarrow> string \<Rightarrow> string option" where
  "strip_prefix s p = (if starts_with s p then Some (drop (length p) s) else None)"

text \<open>\<open>str::split\<close> on a character: always at least one part.\<close>

fun split :: "char \<Rightarrow> string \<Rightarrow> string list" where
  "split d [] = [[]]"
| "split d (c # s) =
     (if c = d then [] # split d s
      else case split d s of [] \<Rightarrow> [[c]] | p # ps \<Rightarrow> (c # p) # ps)"

text \<open>\<open>str::split_once\<close>: at the first occurrence.\<close>

fun split_once :: "char \<Rightarrow> string \<Rightarrow> (string \<times> string) option" where
  "split_once d [] = None"
| "split_once d (c # s) =
     (if c = d then Some ([], s)
      else case split_once d s of None \<Rightarrow> None | Some (a, b) \<Rightarrow> Some (c # a, b))"

lemma split_nonempty [simp]: "split d s \<noteq> []"
  by (induction s) (auto split: list.splits)

lemma split_no_sep: "p \<in> set (split d s) \<Longrightarrow> d \<notin> set p"
  by (induction s arbitrary: p) (fastforce split: list.splits if_splits)+

lemma set_split_subset: "p \<in> set (split d s) \<Longrightarrow> set p \<subseteq> set s"
  by (induction s arbitrary: p) (fastforce split: list.splits if_splits)+

fun join_with :: "char \<Rightarrow> string list \<Rightarrow> string" where
  "join_with d [] = []"
| "join_with d [p] = p"
| "join_with d (p # q # ps) = p @ d # join_with d (q # ps)"

lemma join_split [simp]: "join_with d (split d s) = s"
proof (induction s)
  case (Cons c s)
  show ?case
  proof (cases "split d s")
    case (Cons p ps)
    with Cons.IH show ?thesis by (cases ps) auto
  qed simp
qed simp

lemma split_once_None: "split_once d s = None \<longleftrightarrow> d \<notin> set s"
  by (induction s) (auto split: option.splits)

lemma split_once_Some:
  "split_once d s = Some (a, b) \<longleftrightarrow> s = a @ d # b \<and> d \<notin> set a"
proof (induction s arbitrary: a b)
  case (Cons c s)
  show ?case
  proof (cases "c = d")
    case True
    then show ?thesis by (cases a) auto
  next
    case False
    then have "split_once d (c # s) = Some (a, b) \<longleftrightarrow>
        (\<exists>a'. a = c # a' \<and> split_once d s = Some (a', b))"
      by (auto split: option.splits)
    with False show ?thesis by (cases a) (auto simp: Cons.IH)
  qed
qed simp

lemma split_once_length:
  "split_once d s = Some (a, b) \<Longrightarrow> length b < length s"
  by (simp add: split_once_Some)

text \<open>\<open>str::replace\<close> of one character by another.\<close>

definition replace_char :: "char \<Rightarrow> char \<Rightarrow> string \<Rightarrow> string" where
  "replace_char a b = map (\<lambda>c. if c = a then b else c)"

text \<open>\<open>str::lines\<close>: a line ends at a newline, with a carriage return before it dropped.\<close>

definition chomp_cr :: "string \<Rightarrow> string" where
  "chomp_cr l = (if l \<noteq> [] \<and> last l = CHR 0x0D then butlast l else l)"

definition lines :: "string \<Rightarrow> string list" where
  "lines s = (let ps = split (CHR 0x0A) s
     in map chomp_cr (butlast ps) @ (if last ps = [] then [] else [last ps]))"

section \<open>Whitespace\<close>

definition ws3 :: "nat \<Rightarrow> nat \<Rightarrow> nat \<Rightarrow> bool" where
  "ws3 x y z =
     (x = 225 \<and> y = 154 \<and> z = 128 \<or>
      x = 226 \<and> y = 128 \<and> (128 \<le> z \<and> z \<le> 138 \<or> z = 168 \<or> z = 169 \<or> z = 175) \<or>
      x = 226 \<and> y = 129 \<and> z = 159 \<or>
      x = 227 \<and> y = 128 \<and> z = 128)"

definition ws2 :: "nat \<Rightarrow> nat \<Rightarrow> bool" where
  "ws2 x y = (x = 194 \<and> (y = 133 \<or> y = 160))"

definition ws1 :: "nat \<Rightarrow> bool" where
  "ws1 x = (9 \<le> x \<and> x \<le> 13 \<or> x = 32)"

text \<open>The number of bytes of the whitespace character at the front (at the back); 0 if none.\<close>

definition ws_front :: "string \<Rightarrow> nat" where
  "ws_front s = (case map code (take 3 s) of
     [] \<Rightarrow> 0
   | [x] \<Rightarrow> if ws1 x then 1 else 0
   | [x, y] \<Rightarrow> if ws1 x then 1 else if ws2 x y then 2 else 0
   | x # y # z # _ \<Rightarrow> if ws1 x then 1 else if ws2 x y then 2 else if ws3 x y z then 3 else 0)"

definition ws_back :: "string \<Rightarrow> nat" where
  "ws_back s = (case map code (take 3 (rev s)) of
     [] \<Rightarrow> 0
   | [x] \<Rightarrow> if ws1 x then 1 else 0
   | [x, y] \<Rightarrow> if ws1 x then 1 else if ws2 y x then 2 else 0
   | x # y # z # _ \<Rightarrow> if ws1 x then 1 else if ws2 y x then 2 else if ws3 z y x then 3 else 0)"

lemma ws_front_Nil [simp]: "ws_front [] = 0"
  by (simp add: ws_front_def)

lemma ws_back_Nil [simp]: "ws_back [] = 0"
  by (simp add: ws_back_def)

function trim_start :: "string \<Rightarrow> string" where
  "trim_start s = (if ws_front s = 0 then s else trim_start (drop (ws_front s) s))"
  by pat_completeness auto
termination
proof (relation "measure length")
  fix s :: string
  assume "ws_front s \<noteq> 0"
  moreover from this have "s \<noteq> []" by auto
  ultimately show "(drop (ws_front s) s, s) \<in> measure length" by simp
qed simp

function trim_end :: "string \<Rightarrow> string" where
  "trim_end s = (if ws_back s = 0 then s else trim_end (take (length s - ws_back s) s))"
  by pat_completeness auto
termination
proof (relation "measure length")
  fix s :: string
  assume "ws_back s \<noteq> 0"
  moreover from this have "s \<noteq> []" by auto
  ultimately show "(take (length s - ws_back s) s, s) \<in> measure length" by simp
qed simp

declare trim_start.simps [simp del] trim_end.simps [simp del]

definition trim :: "string \<Rightarrow> string" where
  "trim s = trim_end (trim_start s)"

text \<open>\<open>trim_matches\<close>, \<open>trim_start_matches\<close> and \<open>trim_end_matches\<close> with a set of characters.\<close>

definition trim_end_matches :: "char list \<Rightarrow> string \<Rightarrow> string" where
  "trim_end_matches cs s = rev (dropWhile (\<lambda>c. c \<in> set cs) (rev s))"

definition trim_matches :: "char list \<Rightarrow> string \<Rightarrow> string" where
  "trim_matches cs s = trim_end_matches cs (dropWhile (\<lambda>c. c \<in> set cs) s)"

text \<open>\<open>str::split_whitespace\<close>; the first argument is the token being read, reversed.\<close>

function split_ws :: "string \<Rightarrow> string \<Rightarrow> string list" where
  "split_ws cur [] = (if cur = [] then [] else [rev cur])"
| "split_ws cur (c # s) =
     (if ws_front (c # s) = 0 then split_ws (c # cur) s
      else (if cur = [] then [] else [rev cur]) @ split_ws [] (drop (ws_front (c # s)) (c # s)))"
  by pat_completeness auto
termination
  by (relation "measure (\<lambda>(cur, s). length s)") auto

abbreviation split_whitespace :: "string \<Rightarrow> string list" where
  "split_whitespace \<equiv> split_ws []"

lemma trim_start_front: "ws_front (trim_start s) = 0"
  by (induction s rule: trim_start.induct) (subst trim_start.simps, simp)

lemma trim_end_back: "ws_back (trim_end s) = 0"
  by (induction s rule: trim_end.induct) (subst trim_end.simps, simp)

lemma suffix_trim_start: "suffix (trim_start s) s"
proof (induction s rule: trim_start.induct)
  case (1 s)
  then show ?case
    by (subst trim_start.simps) (auto intro: suffix_order.trans suffix_drop)
qed

lemma prefix_trim_end: "prefix (trim_end s) s"
proof (induction s rule: trim_end.induct)
  case (1 s)
  then show ?case
    by (subst trim_end.simps) (auto intro: prefix_order.trans take_is_prefix)
qed

lemma sublist_trim: "sublist (trim s) s"
  unfolding trim_def
  using prefix_trim_end [of "trim_start s"] suffix_trim_start [of s]
  by (metis prefix_imp_sublist suffix_imp_sublist sublist_order.order_trans)

lemma set_trim_subset: "set (trim s) \<subseteq> set s"
  by (rule set_mono_sublist [OF sublist_trim])

lemma length_trim_le: "length (trim s) \<le> length s"
  by (rule sublist_length_le [OF sublist_trim])

section \<open>Numbers\<close>

definition digit_val :: "char \<Rightarrow> nat" where
  "digit_val c = code c - 48"

definition digits_val :: "string \<Rightarrow> nat" where
  "digits_val s = foldl (\<lambda>n c. 10 * n + digit_val c) 0 s"

text \<open>
  \<open>str::parse\<close> for an unsigned integer below \<open>lim\<close>: an optional leading plus,
  at least one digit, nothing else, and no overflow.
\<close>

definition parse_uint :: "nat \<Rightarrow> string \<Rightarrow> nat option" where
  "parse_uint lim s =
     (let d = (case s of c # r \<Rightarrow> if c = CHR ''+'' then r else s | [] \<Rightarrow> s)
      in if d \<noteq> [] \<and> list_all is_ascii_digit d \<and> digits_val d < lim
         then Some (digits_val d) else None)"

lemma parse_uint_less: "parse_uint lim s = Some n \<Longrightarrow> n < lim"
  by (auto simp: parse_uint_def Let_def split: if_splits list.splits)

text \<open>Decimal printing, as by \<open>to_string\<close>.\<close>

fun show_nat :: "nat \<Rightarrow> string" where
  "show_nat n = (if n < 10 then [char_of (48 + n)] else show_nat (n div 10) @ [char_of (48 + n mod 10)])"

declare show_nat.simps [simp del]

lemma digits_val_append: "digits_val (a @ [c]) = 10 * digits_val a + digit_val c"
  by (simp add: digits_val_def)

lemma digit_char [simp]:
  "n < 10 \<Longrightarrow> is_ascii_digit (char_of (48 + n))"
  "n < 10 \<Longrightarrow> digit_val (char_of (48 + n)) = n"
  by (simp_all add: is_ascii_digit_def digit_val_def)

lemma digits_show_nat: "list_all is_ascii_digit (show_nat n) \<and> show_nat n \<noteq> [] \<and> digits_val (show_nat n) = n"
proof (induction n rule: show_nat.induct)
  case (1 n)
  show ?case
  proof (cases "n < 10")
    case True
    then show ?thesis by (subst (1 2 3) show_nat.simps) (simp add: digits_val_def)
  next
    case False
    with "1.IH" show ?thesis
      by (subst (1 2 3) show_nat.simps) (simp add: digits_val_append)
  qed
qed

lemma parse_show_nat: "n < lim \<Longrightarrow> parse_uint lim (show_nat n) = Some n"
proof -
  assume n: "n < lim"
  from digits_show_nat [of n] obtain c r where s: "show_nat n = c # r" and c: "is_ascii_digit c"
    by (cases "show_nat n") auto
  from c have "c \<noteq> CHR ''+''" by (auto simp: is_ascii_digit_def)
  with n s digits_show_nat [of n] show ?thesis
    by (simp add: parse_uint_def)
qed

section \<open>Hexadecimal\<close>

definition hex_digit :: "nat \<Rightarrow> char" where
  "hex_digit n = (if n < 10 then char_of (48 + n) else char_of (87 + n))"

definition hex_val :: "char \<Rightarrow> nat option" where
  "hex_val c =
     (if is_ascii_digit c then Some (code c - 48)
      else if 97 \<le> code c \<and> code c \<le> 102 then Some (code c - 87)
      else if 65 \<le> code c \<and> code c \<le> 70 then Some (code c - 55)
      else None)"

definition hex_encode :: "bytes \<Rightarrow> string" where
  "hex_encode bs = concat (map (\<lambda>b. [hex_digit (unat b div 16), hex_digit (unat b mod 16)]) bs)"

fun hex_decode :: "string \<Rightarrow> bytes option" where
  "hex_decode [] = Some []"
| "hex_decode [c] = None"
| "hex_decode (h # l # s) = (case (hex_val h, hex_val l, hex_decode s) of
     (Some a, Some b, Some bs) \<Rightarrow> Some (of_nat (16 * a + b) # bs)
   | _ \<Rightarrow> None)"

lemma hex_val_digit: "n < 16 \<Longrightarrow> hex_val (hex_digit n) = Some n"
  by (auto simp: hex_val_def hex_digit_def is_ascii_digit_def)

lemma hex_roundtrip [simp]: "hex_decode (hex_encode bs) = Some bs"
proof (induction bs)
  case (Cons b bs)
  have b: "unat b < 256" using unsigned_less [of b] by simp
  then have "unat b div 16 < 16" "unat b mod 16 < 16" by auto
  moreover have "(of_nat (16 * (unat b div 16) + unat b mod 16) :: u8) = b"
    by (simp only: mult_div_mod_eq of_nat_unat ucast_id)
  ultimately show ?case
    using Cons by (simp add: hex_encode_def hex_val_digit)
qed (simp add: hex_encode_def)

lemma length_hex_encode [simp]: "length (hex_encode bs) = 2 * length bs"
  by (induction bs) (simp_all add: hex_encode_def)

lemma hex_encode_inj: "hex_encode a = hex_encode b \<Longrightarrow> a = b"
  by (metis hex_roundtrip option.inject)

text \<open>The bytes of a string, as \<open>as_bytes\<close> gives them.\<close>

definition as_bytes :: "string \<Rightarrow> bytes" where
  "as_bytes = map (\<lambda>c. of_nat (code c))"

lemma as_bytes_inj: "as_bytes a = as_bytes b \<Longrightarrow> a = b"
proof -
  have "inj (\<lambda>c. of_nat (code c) :: u8)"
  proof (rule injI)
    fix c d
    assume "(of_nat (code c) :: u8) = of_nat (code d)"
    then have "unat (of_nat (code c) :: u8) = unat (of_nat (code d) :: u8)" by simp
    then show "c = d" by (simp add: unat_of_nat of_char_mod_256)
  qed
  then show "as_bytes a = as_bytes b \<Longrightarrow> a = b"
    by (simp add: as_bytes_def inj_map_eq_map)
qed

lemma length_as_bytes [simp]: "length (as_bytes s) = length s"
  by (simp add: as_bytes_def)

end
