(* ===== verification/Identity.thy ===== *)
theory Identity
  imports Rf_Str
begin

text \<open>
  Node and operator identities (\<^verbatim>\<open>crates/rf-core/src/identity.rs\<close>).

  The primitives of the cryptographic crates are parameters, collected in the
  record \<open>crypto\<close>: SHA-256, Keccak-256, ed25519 key derivation, signing and
  verification, and secp256k1 key derivation, signing and public-key recovery.
  Nothing is assumed of them here; a theorem that relies on one of their
  documented properties has it as a hypothesis.
\<close>

type_synonym public_id = bytes

datatype signer_id = Ed public_id | Eth bytes

record crypto =
  sha256 :: "bytes \<Rightarrow> bytes"
  keccak256 :: "bytes \<Rightarrow> bytes"
  ed_public :: "bytes \<Rightarrow> public_id"                      \<comment> \<open>seed to verifying key\<close>
  ed_sign :: "bytes \<Rightarrow> bytes \<Rightarrow> bytes"                   \<comment> \<open>seed, message\<close>
  ed_verify :: "public_id \<Rightarrow> bytes \<Rightarrow> bytes \<Rightarrow> bool"     \<comment> \<open>key bytes, message, 64-byte signature\<close>
  secp_point :: "bytes \<Rightarrow> bytes"                          \<comment> \<open>seed to the uncompressed SEC1 point\<close>
  secp_sign :: "bytes \<Rightarrow> bytes \<Rightarrow> bytes \<times> u8"            \<comment> \<open>seed, digest: r||s and recovery id\<close>
  secp_recover :: "bytes \<Rightarrow> bytes \<Rightarrow> u8 \<Rightarrow> bytes option" \<comment> \<open>digest, r||s, recovery id: point\<close>

section \<open>Ethereum signatures\<close>

text \<open>\<open>eth_address_of\<close>: the last 20 bytes of the hash of the point without its tag byte.\<close>

definition eth_address_of :: "crypto \<Rightarrow> bytes \<Rightarrow> bytes" where
  "eth_address_of cr point = drop 12 (keccak256 cr (drop 1 point))"

definition eip191_hash :: "crypto \<Rightarrow> bytes \<Rightarrow> bytes" where
  "eip191_hash cr p =
     keccak256 cr (0x19 # as_bytes ''Ethereum Signed Message:'' @ [0x0A]
                   @ as_bytes (show_nat (length p)) @ p)"

definition eth_sign :: "crypto \<Rightarrow> bytes \<Rightarrow> bytes \<Rightarrow> bytes" where
  "eth_sign cr seed p = (let (rs, recid) = secp_sign cr seed (eip191_hash cr p) in rs @ [recid + 27])"

definition eth_recover :: "crypto \<Rightarrow> bytes \<Rightarrow> bytes \<Rightarrow> bytes option" where
  "eth_recover cr p sig =
     (if length sig \<noteq> 65 then None
      else let v = sig ! 64 in
        if v < 27 then None
        else case secp_recover cr (eip191_hash cr p) (take 64 sig) (v - 27) of
               None \<Rightarrow> None
             | Some point \<Rightarrow> Some (eth_address_of cr point))"

section \<open>Verification by signer\<close>

definition signer_verify :: "crypto \<Rightarrow> signer_id \<Rightarrow> bytes \<Rightarrow> bytes \<Rightarrow> bool" where
  "signer_verify cr s p sig =
     (case s of
        Ed pk \<Rightarrow> length sig = 64 \<and> ed_verify cr pk p sig
      | Eth addr \<Rightarrow> eth_recover cr p sig = Some addr)"

text \<open>\<open>AnyKeypair\<close>: either kind of signing key, by its seed.\<close>

datatype any_keypair = EdKey bytes | EthKey bytes

definition key_sign :: "crypto \<Rightarrow> any_keypair \<Rightarrow> bytes \<Rightarrow> bytes" where
  "key_sign cr k p = (case k of EdKey seed \<Rightarrow> ed_sign cr seed p | EthKey seed \<Rightarrow> eth_sign cr seed p)"

definition key_signer_id :: "crypto \<Rightarrow> any_keypair \<Rightarrow> signer_id" where
  "key_signer_id cr k = (case k of
     EdKey seed \<Rightarrow> Ed (ed_public cr seed)
   | EthKey seed \<Rightarrow> Eth (eth_address_of cr (secp_point cr seed)))"

text \<open>
  What the signature crates document: a signature made with a key verifies under
  its public half, ed25519 signatures have 64 bytes, and the point recovered from
  an ECDSA signature (64 bytes, recovery id 0 or 1) is the signer's.
\<close>

definition signatures_sound :: "crypto \<Rightarrow> bool" where
  "signatures_sound cr \<longleftrightarrow>
     (\<forall>seed m. length (ed_sign cr seed m) = 64 \<and> ed_verify cr (ed_public cr seed) m (ed_sign cr seed m)) \<and>
     (\<forall>seed d. case secp_sign cr seed d of (rs, v) \<Rightarrow>
        length rs = 64 \<and> v < 4 \<and> secp_recover cr d rs v = Some (secp_point cr seed))"

lemma eth_recover_sign:
  assumes "signatures_sound cr"
  shows "eth_recover cr p (eth_sign cr seed p) = Some (eth_address_of cr (secp_point cr seed))"
proof -
  obtain rs v where rs: "secp_sign cr seed (eip191_hash cr p) = (rs, v)" by fastforce
  moreover from assms have "case secp_sign cr seed (eip191_hash cr p) of (rs, v) \<Rightarrow>
      length rs = 64 \<and> v < 4 \<and> secp_recover cr (eip191_hash cr p) rs v = Some (secp_point cr seed)"
    unfolding signatures_sound_def by simp
  ultimately have s: "length rs = 64" "v < 4"
    "secp_recover cr (eip191_hash cr p) rs v = Some (secp_point cr seed)" by simp_all
  have "unat (v + 27) = unat v + 27" using s(2) by (simp add: word_less_nat_alt unat_word_ariths)
  then have "\<not> v + 27 < 27" by (simp add: word_less_nat_alt)
  with s rs show ?thesis by (simp add: eth_recover_def eth_sign_def nth_append)
qed

lemma verify_sign:
  "signatures_sound cr \<Longrightarrow> signer_verify cr (key_signer_id cr k) p (key_sign cr k p)"
  by (cases k)
     (auto simp: signer_verify_def key_signer_id_def key_sign_def eth_recover_sign signatures_sound_def)

section \<open>Printing and parsing identities\<close>

definition public_id_show :: "public_id \<Rightarrow> string" where
  "public_id_show p = hex_encode p"

definition public_id_parse :: "string \<Rightarrow> public_id option" where
  "public_id_parse s = (case hex_decode (trim s) of
     None \<Rightarrow> None
   | Some b \<Rightarrow> if length b = 32 then Some b else None)"

definition signer_show :: "signer_id \<Rightarrow> string" where
  "signer_show s = (case s of Ed pk \<Rightarrow> public_id_show pk | Eth addr \<Rightarrow> ''0x'' @ hex_encode addr)"

definition signer_parse :: "string \<Rightarrow> signer_id option" where
  "signer_parse s0 = (let s = trim s0 in
     case (case strip_prefix s ''0x'' of Some h \<Rightarrow> Some h | None \<Rightarrow> strip_prefix s ''0X'') of
       Some h \<Rightarrow> (case hex_decode h of
          None \<Rightarrow> None
        | Some b \<Rightarrow> if length b = 20 then Some (Eth b) else None)
     | None \<Rightarrow> map_option Ed (public_id_parse s))"

definition signer_wf :: "signer_id \<Rightarrow> bool" where
  "signer_wf s = (case s of Ed pk \<Rightarrow> length pk = 32 | Eth addr \<Rightarrow> length addr = 20)"

lemma hex_digit_code:
  "n < 16 \<Longrightarrow> code (hex_digit n) = (if n < 10 then 48 + n else 87 + n)"
  by (simp add: hex_digit_def)

lemma hex_encode_codes:
  "c \<in> set (hex_encode bs) \<Longrightarrow> 48 \<le> code c \<and> code c \<le> 57 \<or> 97 \<le> code c \<and> code c \<le> 102"
proof (induction bs)
  case (Cons b bs)
  have "unat b < 256" using unsigned_less [of b] by simp
  then have "unat b div 16 < 16" "unat b mod 16 < 16" by simp_all
  with Cons show ?case
    by (auto simp: hex_encode_def hex_digit_code split: if_splits)
qed (simp add: hex_encode_def)

lemma ws_front_hd: "ws_front s \<noteq> 0 \<Longrightarrow> s \<noteq> [] \<and> (code (hd s) \<le> 32 \<or> 128 \<le> code (hd s))"
  by (cases s) (auto simp: ws_front_def ws1_def ws2_def ws3_def split: list.splits if_splits)

lemma ws_back_last: "ws_back s \<noteq> 0 \<Longrightarrow> s \<noteq> [] \<and> (code (last s) \<le> 32 \<or> 128 \<le> code (last s))"
  by (cases s rule: rev_cases)
     (auto simp: ws_back_def ws1_def ws2_def ws3_def split: list.splits if_splits)

lemma trim_plain:
  assumes "\<And>c. c \<in> set s \<Longrightarrow> 48 \<le> code c \<and> code c < 128"
  shows "trim s = s"
proof -
  have "ws_front s = 0"
    using ws_front_hd [of s] assms [of "hd s"] by fastforce
  moreover have "ws_back s = 0"
    using ws_back_last [of s] assms [of "last s"] by fastforce
  ultimately show ?thesis
    by (simp add: trim_def trim_start.simps trim_end.simps)
qed

lemma public_id_roundtrip: "length p = 32 \<Longrightarrow> public_id_parse (public_id_show p) = Some p"
proof -
  assume p: "length p = 32"
  have "trim (hex_encode p) = hex_encode p"
    by (rule trim_plain) (use hex_encode_codes in fastforce)
  with p show ?thesis by (simp add: public_id_parse_def public_id_show_def)
qed

lemma signer_roundtrip: "signer_wf s \<Longrightarrow> signer_parse (signer_show s) = Some s"
proof (cases s)
  case (Ed pk)
  assume "signer_wf s"
  with Ed have pk: "length pk = 32" by (simp add: signer_wf_def)
  have t: "trim (hex_encode pk) = hex_encode pk"
    by (rule trim_plain) (use hex_encode_codes in fastforce)
  have "\<not> starts_with (hex_encode pk) (CHR ''0'' # x # [])" if "code x = 120 \<or> code x = 88" for x
  proof
    assume "starts_with (hex_encode pk) (CHR ''0'' # x # [])"
    then have "x \<in> set (hex_encode pk)"
      by (auto simp: starts_with_def prefix_def)
    with hex_encode_codes [of x pk] that show False by auto
  qed
  then have "strip_prefix (hex_encode pk) ''0x'' = None" "strip_prefix (hex_encode pk) ''0X'' = None"
    by (simp_all add: strip_prefix_def)
  with Ed pk t public_id_roundtrip [OF pk] show ?thesis
    by (simp add: signer_parse_def signer_show_def public_id_show_def)
next
  case (Eth a)
  assume "signer_wf s"
  with Eth have a: "length a = 20" by (simp add: signer_wf_def)
  have "trim (''0x'' @ hex_encode a) = ''0x'' @ hex_encode a"
    by (rule trim_plain) (use hex_encode_codes in fastforce)
  with Eth a show ?thesis
    by (simp add: signer_parse_def signer_show_def strip_prefix_def starts_with_simps)
qed

section \<open>A concrete instance of the parameters\<close>

text \<open>
  Degenerate primitives that satisfy \<open>signatures_sound\<close>, for evaluating the
  definitions on concrete inputs.
\<close>

definition demo_crypto :: crypto where
  "demo_crypto = \<lparr>sha256 = (\<lambda>m. m), keccak256 = (\<lambda>m. m), ed_public = (\<lambda>s. s),
     ed_sign = (\<lambda>s m. replicate 64 0), ed_verify = (\<lambda>p m s. True),
     secp_point = (\<lambda>s. [4]), secp_sign = (\<lambda>s d. (replicate 64 0, 0)),
     secp_recover = (\<lambda>d rs v. Some [4])\<rparr>"

lemma demo_signatures_sound: "signatures_sound demo_crypto"
  by (simp add: signatures_sound_def demo_crypto_def)

text \<open>
  Identities survive printing.  The textual form of a well-formed signer
  (64 hex digits, or \<open>0x\<close> and 40) parses back to it.
\<close>

theorem signer_print_parse: "signer_wf s \<Longrightarrow> signer_parse (signer_show s) = Some s"
  by (rule signer_roundtrip)

theorem signer_print_parse_witness:
  "signer_wf (Eth (replicate 20 171)) \<and>
   signer_parse (signer_show (Eth (replicate 20 171))) = Some (Eth (replicate 20 171))"
  using signer_print_parse [of "Eth (replicate 20 171)"] by (simp add: signer_wf_def)

end
