(* ===== verification/Envelope.thy ===== *)
theory Envelope
  imports Identity
begin

text \<open>
  Signed envelopes (\<^verbatim>\<open>crates/rf-core/src/envelope.rs\<close>).  The postcard codec
  is a parameter: an encoder \<open>enc\<close> and a decoder \<open>dec\<close> for the payload type.
\<close>

record envelope =
  payload :: bytes
  signer :: signer_id
  sig :: bytes

datatype envelope_error = BadSignature | Decode

definition seal_any :: "crypto \<Rightarrow> ('a \<Rightarrow> bytes) \<Rightarrow> 'a \<Rightarrow> any_keypair \<Rightarrow> envelope" where
  "seal_any cr enc x k =
     \<lparr>payload = enc x, signer = key_signer_id cr k, sig = key_sign cr k (enc x)\<rparr>"

definition seal :: "crypto \<Rightarrow> ('a \<Rightarrow> bytes) \<Rightarrow> 'a \<Rightarrow> bytes \<Rightarrow> envelope" where
  "seal cr enc x seed = seal_any cr enc x (EdKey seed)"

definition envelope_open ::
  "crypto \<Rightarrow> (bytes \<Rightarrow> 'a option) \<Rightarrow> signer_id option \<Rightarrow> envelope \<Rightarrow> envelope_error + 'a" where
  "envelope_open cr dec expected env =
     (if (case expected of None \<Rightarrow> False | Some want \<Rightarrow> want \<noteq> signer env) then Inl BadSignature
      else if \<not> signer_verify cr (signer env) (payload env) (sig env) then Inl BadSignature
      else case dec (payload env) of None \<Rightarrow> Inl Decode | Some x \<Rightarrow> Inr x)"

text \<open>The signed bytes that identify an envelope, and their hash.\<close>

definition digest_input :: "envelope \<Rightarrow> bytes" where
  "digest_input env = payload env @ as_bytes (signer_show (signer env)) @ sig env"

definition envelope_digest :: "crypto \<Rightarrow> envelope \<Rightarrow> bytes" where
  "envelope_digest cr env = sha256 cr (digest_input env)"

section \<open>Opening what was sealed\<close>

lemma open_seal_any:
  assumes "signatures_sound cr" and "dec (enc x) = Some x"
    and "expected \<in> {None, Some (key_signer_id cr k)}"
  shows "envelope_open cr dec expected (seal_any cr enc x k) = Inr x"
  using assms verify_sign [OF assms(1), of k "enc x"]
  by (auto simp: envelope_open_def seal_any_def)

lemma open_Inr:
  "envelope_open cr dec expected env = Inr x \<longleftrightarrow>
     (expected = None \<or> expected = Some (signer env)) \<and>
     signer_verify cr (signer env) (payload env) (sig env) \<and> dec (payload env) = Some x"
  by (auto simp: envelope_open_def split: option.splits)

lemma open_error_kind:
  "envelope_open cr dec expected env = Inl Decode \<Longrightarrow>
     signer_verify cr (signer env) (payload env) (sig env) \<and> dec (payload env) = None"
  by (auto simp: envelope_open_def split: option.splits if_splits)

text \<open>
  The hashed bytes determine an ed25519 envelope: signer and signature have fixed
  lengths, so the concatenation can be cut apart again.
\<close>

lemma digest_input_inj_ed:
  assumes "digest_input e = digest_input f"
    and "signer e = Ed p" "signer f = Ed q" "length p = 32" "length q = 32"
    and "length (sig e) = length (sig f)"
  shows "e = f"
proof -
  have l: "length (as_bytes (hex_encode p)) = length (as_bytes (hex_encode q))"
    using assms(4,5) by simp
  from assms(1-3) have
    "payload e @ (as_bytes (hex_encode p) @ sig e) = payload f @ (as_bytes (hex_encode q) @ sig f)"
    by (simp add: digest_input_def signer_show_def public_id_show_def)
  moreover from l assms(6) have
    "length (as_bytes (hex_encode p) @ sig e) = length (as_bytes (hex_encode q) @ sig f)" by simp
  ultimately have "payload e = payload f"
    and "as_bytes (hex_encode p) @ sig e = as_bytes (hex_encode q) @ sig f" by auto
  moreover from this(2) l have "as_bytes (hex_encode p) = as_bytes (hex_encode q)" "sig e = sig f"
    by (metis append_eq_append_conv)+
  moreover from this(1) have "p = q" by (auto dest!: as_bytes_inj hex_encode_inj)
  ultimately show ?thesis using assms(2,3) by (intro envelope.equality) auto
qed

text \<open>
  C40: an envelope opens to what was sealed, and to nothing else.  With sound
  signatures and a codec that decodes what it encodes, opening a sealed value
  returns it, both unpinned and pinned to the signer; pinned to anyone else it
  is a signature error; and whatever opens carries a signature that verifies
  for the pinned signer over the very bytes that were decoded.
\<close>

theorem envelope_seal_open:
  assumes "signatures_sound cr" and "dec (enc x) = Some x"
  shows "envelope_open cr dec None (seal_any cr enc x k) = Inr x
    \<and> envelope_open cr dec (Some (key_signer_id cr k)) (seal_any cr enc x k) = Inr x
    \<and> (\<forall>s. s \<noteq> key_signer_id cr k \<longrightarrow>
          envelope_open cr dec (Some s) (seal_any cr enc x k) = Inl BadSignature)
    \<and> (\<forall>s env y. envelope_open cr dec (Some s) env = Inr y \<longrightarrow>
          signer env = s \<and> signer_verify cr s (payload env) (sig env) \<and> dec (payload env) = Some y)"
proof (intro conjI allI impI)
  note ok = open_seal_any [of cr dec enc x, OF assms]
  show "envelope_open cr dec None (seal_any cr enc x k) = Inr x"
    and "envelope_open cr dec (Some (key_signer_id cr k)) (seal_any cr enc x k) = Inr x"
    by (simp_all add: ok)
  show "envelope_open cr dec (Some s) (seal_any cr enc x k) = Inl BadSignature"
    if "s \<noteq> key_signer_id cr k" for s
    using that by (simp add: envelope_open_def seal_any_def)
  show "signer env = s" "signer_verify cr s (payload env) (sig env)" "dec (payload env) = Some y"
    if "envelope_open cr dec (Some s) env = Inr y" for s env y
    using that by (auto simp: open_Inr)
qed

theorem envelope_seal_open_witness:
  "signatures_sound demo_crypto \<and>
   envelope_open demo_crypto Some (Some (Ed [7])) (seal_any demo_crypto (\<lambda>b. b) [1, 2] (EdKey [7])) = Inr [1, 2]
   \<and> envelope_open demo_crypto Some (Some (Ed [8])) (seal_any demo_crypto (\<lambda>b. b) [1, 2] (EdKey [7])) = Inl BadSignature"
proof -
  have id: "key_signer_id demo_crypto (EdKey [7]) = Ed [7]" by (simp add: key_signer_id_def demo_crypto_def)
  from envelope_seal_open [OF demo_signatures_sound, of Some "\<lambda>b. b" "[1, 2]" "EdKey [7]"]
  show ?thesis by (simp add: demo_signatures_sound id)
qed

end
