(* ===== verification/Rf_Map.thy ===== *)
theory Rf_Map
  imports Rf_Prelude
begin

text \<open>
  The two maps of the Rust standard library that the sources use.

  A \<open>BTreeMap\<close> iterates in key order, and digests and listings depend on that
  order, so it is modelled by its entries in that order.  A \<open>HashMap\<close> iterates
  in an unspecified order: it is modelled by its entries in some order, and the
  component theories prove that nothing observable depends on that order.

  \<open>map_impl\<close> is the interface both provide; \<open>register_map\<close> adds a register to
  it and is a \<open>keyed_store\<close>.
\<close>

section \<open>BTreeMap\<close>

type_synonym ('k, 'v) btree_map = "('k \<times> 'v) list"

definition bt_ok :: "('k::linorder, 'v) btree_map \<Rightarrow> bool" where
  "bt_ok m = sorted_wrt (<) (map fst m)"

definition bt_insert :: "'k::linorder \<Rightarrow> 'v \<Rightarrow> ('k, 'v) btree_map \<Rightarrow> ('k, 'v) btree_map" where
  "bt_insert k v m = takeWhile (\<lambda>p. fst p < k) m @ (k, v) # dropWhile (\<lambda>p. fst p \<le> k) m"

lemma bt_ok_Nil [simp]: "bt_ok []"
  by (simp add: bt_ok_def)

lemma bt_ok_Cons [simp]: "bt_ok ((k, v) # m) \<longleftrightarrow> (\<forall>p \<in> set m. k < fst p) \<and> bt_ok m"
  by (auto simp: bt_ok_def)

lemma bt_ok_filter: "bt_ok m \<Longrightarrow> bt_ok (filter P m)"
  by (induction m) (auto simp: bt_ok_def)

lemma bt_insert_simps [simp]:
  "bt_insert k v [] = [(k, v)]"
  "bt_insert k v ((k', v') # m) =
     (if k' < k then (k', v') # bt_insert k v m
      else (k, v) # dropWhile (\<lambda>p. fst p \<le> k) ((k', v') # m))"
  by (auto simp: bt_insert_def)

lemma bt_dropWhile_above: "bt_ok m \<Longrightarrow> \<forall>p \<in> set m. k < fst p \<Longrightarrow> dropWhile (\<lambda>p. fst p \<le> k) m = m"
  by (cases m) auto

lemma bt_insert_cons:
  assumes "bt_ok ((k', v') # m)"
  shows "bt_insert k v ((k', v') # m) =
    (if k' < k then (k', v') # bt_insert k v m
     else if k' = k then (k, v) # m else (k, v) # (k', v') # m)"
  using assms bt_dropWhile_above [of m k] by auto

lemma set_bt_insert:
  "bt_ok m \<Longrightarrow> set (bt_insert k v m) = insert (k, v) {p \<in> set m. fst p \<noteq> k}"
proof (induction m)
  case (Cons p m)
  obtain k' v' where p: "p = (k', v')" by (cases p)
  from Cons show ?case
    by (auto simp: p bt_insert_cons simp del: bt_insert_simps)
qed simp

lemma bt_ok_insert: "bt_ok m \<Longrightarrow> bt_ok (bt_insert k v m)"
proof (induction m)
  case (Cons p m)
  obtain k' v' where p: "p = (k', v')" by (cases p)
  from Cons show ?case
    by (auto simp: p bt_insert_cons set_bt_insert simp del: bt_insert_simps(2))
qed simp

lemma bt_ok_distinct: "bt_ok m \<Longrightarrow> distinct (map fst m)"
  by (simp add: bt_ok_def strict_sorted_iff)

lemma map_of_bt_insert:
  assumes "bt_ok m"
  shows "map_of (bt_insert k v m) k' = (if k' = k then Some v else map_of m k')"
proof -
  have "map_of (bt_insert k v m) k' = Some w \<longleftrightarrow>
      (if k' = k then w = v else map_of m k' = Some w)" for w
    using assms bt_ok_distinct [OF assms] bt_ok_distinct [OF bt_ok_insert [OF assms]]
    by (auto simp: map_of_eq_Some_iff set_bt_insert)
  then show ?thesis by (metis not_Some_eq)
qed

lemma bt_set_determines:
  "bt_ok m \<Longrightarrow> bt_ok n \<Longrightarrow> set m = set n \<Longrightarrow> m = n"
proof -
  assume a: "bt_ok m" "bt_ok n" "set m = set n"
  then have "map fst m = map fst n"
    by (intro strict_sorted_equal) (auto simp: bt_ok_def)
  moreover from bt_ok_distinct [OF a(1)] have "inj_on fst (set m)"
    by (simp add: distinct_map)
  ultimately show "m = n" using a(3) by (auto intro: map_inj_on)
qed

lemma bt_ext:
  assumes "bt_ok m" and "bt_ok n" and "\<And>k. map_of m k = map_of n k"
  shows "m = n"
proof (rule bt_set_determines [OF assms(1,2)])
  have "p \<in> set m \<longleftrightarrow> p \<in> set n" for p
    using assms bt_ok_distinct by (metis eq_key_imp_eq_value map_of_SomeD map_of_is_SomeI prod.collapse)
  then show "set m = set n" by blast
qed

section \<open>HashMap\<close>

type_synonym ('k, 'v) hash_map = "('k \<times> 'v) list"

definition hm_ok :: "('k, 'v) hash_map \<Rightarrow> bool" where
  "hm_ok m = distinct (map fst m)"

abbreviation hm_insert :: "'k \<Rightarrow> 'v \<Rightarrow> ('k, 'v) hash_map \<Rightarrow> ('k, 'v) hash_map" where
  "hm_insert \<equiv> AList.update"

lemma hm_ok_Nil [simp]: "hm_ok []"
  by (simp add: hm_ok_def)

lemma hm_ok_insert: "hm_ok m \<Longrightarrow> hm_ok (hm_insert k v m)"
  by (simp add: hm_ok_def distinct_update)

lemma hm_ok_filter: "hm_ok m \<Longrightarrow> hm_ok (filter P m)"
  by (simp add: hm_ok_def distinct_map_filter)

lemma map_of_filter_distinct:
  assumes "distinct (map fst m)"
  shows "map_of (filter P m) k =
    (case map_of m k of None \<Rightarrow> None | Some v \<Rightarrow> if P (k, v) then Some v else None)"
  using assms by (induction m) (auto split: option.splits simp: map_of_eq_None_iff image_iff)

text \<open>Two listings of the same entries are permutations of each other.\<close>

lemma hm_same_entries:
  assumes "hm_ok m" and "hm_ok n" and "\<And>k. map_of m k = map_of n k"
  shows "mset m = mset n"
proof -
  from assms have "set m = set n"
    by (metis hm_ok_def map_of_SomeD map_of_is_SomeI prod.collapse subsetI subset_antisym)
  moreover from assms have "distinct m" "distinct n"
    by (auto simp: hm_ok_def distinct_map)
  ultimately show ?thesis by (simp add: set_eq_iff_mset_eq_distinct)
qed

section \<open>The map interface and maps of registers\<close>

locale map_impl =
  fixes get :: "'m \<Rightarrow> 'k \<Rightarrow> 'v option"
    and put :: "'k \<Rightarrow> 'v \<Rightarrow> 'm \<Rightarrow> 'm"
    and ok :: "'m \<Rightarrow> bool"
  assumes get_put: "ok m \<Longrightarrow> get (put k v m) k' = (if k' = k then Some v else get m k')"
    and ok_put: "ok m \<Longrightarrow> ok (put k v m)"
begin

lemma get_put_same: "ok m \<Longrightarrow> get (put k v m) k = Some v"
  by (simp add: get_put)

lemma get_put_other: "ok m \<Longrightarrow> k' \<noteq> k \<Longrightarrow> get (put k v m) k' = get m k'"
  by (simp add: get_put)

lemma put_put: "ok m \<Longrightarrow> get (put k v (put k w m)) k' = get (put k v m) k'"
  by (simp add: get_put ok_put)

lemma put_commute:
  "ok m \<Longrightarrow> k \<noteq> l \<Longrightarrow> get (put k v (put l w m)) k' = get (put l w (put k v m)) k'"
  by (simp add: get_put ok_put)

end

interpretation btree: map_impl "\<lambda>m. map_of m" bt_insert bt_ok
  by unfold_locales (auto simp: map_of_bt_insert bt_ok_insert)

interpretation hash: map_impl "\<lambda>m. map_of m" hm_insert hm_ok
  by unfold_locales (auto simp: update_conv' hm_ok_insert)

text \<open>
  A component that stores one register per key, by a read-modify-write of the map
  (skipping the write when the register would not change is the same).
\<close>

locale register_map = lww_register rank refuses join + map_impl get put ok
  for rank :: "'e \<Rightarrow> 'r::linorder" and refuses :: "'e \<Rightarrow> 'e \<Rightarrow> bool"
    and join :: "'e option \<Rightarrow> 'e \<Rightarrow> 'e"
    and get :: "'m \<Rightarrow> 'k \<Rightarrow> 'e option" and put :: "'k \<Rightarrow> 'e \<Rightarrow> 'm \<Rightarrow> 'm" and ok :: "'m \<Rightarrow> bool" +
  fixes absorb :: "'k \<times> 'e \<Rightarrow> 'm \<Rightarrow> 'm"
  assumes absorb_put:
    "absorb (k, e) m = (if get m k = Some (join (get m k) e) then m else put k (join (get m k) e) m)"

sublocale register_map \<subseteq> keyed_store rank refuses join get absorb ok
proof unfold_locales
  fix s i
  assume "ok s"
  then show "ok (absorb i s)" by (cases i) (simp add: absorb_put ok_put)
next
  fix s k e k'
  assume "ok s"
  then show "get (absorb (k, e) s) k' = (if k' = k then Some (join (get s k) e) else get s k')"
    by (simp add: absorb_put get_put)
qed

end
