(* ===== verification/Kv.thy ===== *)
theory Kv
  imports Hlc Identity Rf_Map
begin

text \<open>
  The replicated key-value store of \<^verbatim>\<open>crates/rf-core/src/kv.rs\<close>: a
  last-write-wins register per key, ordered by HLC, then writer, then the hash
  of the value.  \<open>sha\<close> is SHA-256, a parameter.
\<close>

section \<open>Entries\<close>

record kv_entry =
  e_hlc :: hlc
  e_writer :: public_id
  e_value :: "bytes option"
  e_expires_at_ms :: "u64 option"

definition le_bytes_u64 :: "u64 \<Rightarrow> bytes" where
  "le_bytes_u64 w = map (\<lambda>i. ucast (drop_bit (8 * i) w)) [0..<8]"

definition le_bytes_u32 :: "u32 \<Rightarrow> bytes" where
  "le_bytes_u32 w = map (\<lambda>i. ucast (drop_bit (8 * i) w)) [0..<4]"

definition value_hash_input :: "kv_entry \<Rightarrow> bytes" where
  "value_hash_input e =
     (case e_value e of Some v \<Rightarrow> 1 # v | None \<Rightarrow> [0])
     @ (case e_expires_at_ms e of Some x \<Rightarrow> le_bytes_u64 x | None \<Rightarrow> [])"

definition value_hash :: "(bytes \<Rightarrow> bytes) \<Rightarrow> kv_entry \<Rightarrow> bytes" where
  "value_hash sha e = sha (value_hash_input e)"

text \<open>The key of the order \<open>beats\<close> compares by.\<close>

definition kv_rank :: "(bytes \<Rightarrow> bytes) \<Rightarrow> kv_entry \<Rightarrow> hlc \<times> bytes \<times> bytes" where
  "kv_rank sha e = (e_hlc e, e_writer e, value_hash sha e)"

definition beats :: "(bytes \<Rightarrow> bytes) \<Rightarrow> kv_entry \<Rightarrow> kv_entry \<Rightarrow> bool" where
  "beats sha a b = (kv_rank sha b < kv_rank sha a)"

definition visible :: "kv_entry \<Rightarrow> u64 \<Rightarrow> bytes option" where
  "visible e now =
     (case e_value e of
        None \<Rightarrow> None
      | Some v \<Rightarrow> (case e_expires_at_ms e of
           Some x \<Rightarrow> if x \<le> now then None else Some v
         | None \<Rightarrow> Some v))"

section \<open>Namespaces\<close>

datatype merge_result = Applied | Stale

record kv_ns =
  kv_entries :: "(string, kv_entry) btree_map"

definition kv_new :: kv_ns where
  "kv_new = \<lparr>kv_entries = []\<rparr>"

definition kv_put ::
  "kv_ns \<Rightarrow> string \<Rightarrow> bytes option \<Rightarrow> hlc \<Rightarrow> public_id \<Rightarrow> u64 option \<Rightarrow> kv_ns \<times> kv_entry" where
  "kv_put ns k v t w x =
     (let e = \<lparr>e_hlc = t, e_writer = w, e_value = v, e_expires_at_ms = x\<rparr>
      in (ns\<lparr>kv_entries := bt_insert k e (kv_entries ns)\<rparr>, e))"

definition kv_merge ::
  "(bytes \<Rightarrow> bytes) \<Rightarrow> kv_ns \<Rightarrow> string \<Rightarrow> kv_entry \<Rightarrow> kv_ns \<times> merge_result" where
  "kv_merge sha ns k inc =
     (case map_of (kv_entries ns) k of
        Some cur \<Rightarrow> if \<not> beats sha inc cur then (ns, Stale)
                    else (ns\<lparr>kv_entries := bt_insert k inc (kv_entries ns)\<rparr>, Applied)
      | None \<Rightarrow> (ns\<lparr>kv_entries := bt_insert k inc (kv_entries ns)\<rparr>, Applied))"

definition kv_get :: "kv_ns \<Rightarrow> string \<Rightarrow> u64 \<Rightarrow> bytes option" where
  "kv_get ns k now = (case map_of (kv_entries ns) k of None \<Rightarrow> None | Some e \<Rightarrow> visible e now)"

definition kv_entry_at :: "kv_ns \<Rightarrow> string \<Rightarrow> kv_entry option" where
  "kv_entry_at ns k = map_of (kv_entries ns) k"

definition kv_list :: "kv_ns \<Rightarrow> string \<Rightarrow> u64 \<Rightarrow> nat \<Rightarrow> string list" where
  "kv_list ns p now limit =
     take limit (map fst (filter (\<lambda>(k, e). visible e now \<noteq> None)
       (takeWhile (\<lambda>(k, e). starts_with k p) (dropWhile (\<lambda>(k, e). k < p) (kv_entries ns)))))"

definition kv_digest :: "(bytes \<Rightarrow> bytes) \<Rightarrow> kv_ns \<Rightarrow> bytes" where
  "kv_digest sha ns =
     sha (concat (map (\<lambda>(k, e).
       le_bytes_u64 (of_nat (length k)) @ as_bytes k
       @ le_bytes_u64 (wall_ms (e_hlc e)) @ le_bytes_u32 (logical (e_hlc e))
       @ e_writer e @ value_hash sha e) (kv_entries ns)))"

definition kv_dump :: "kv_ns \<Rightarrow> (string \<times> kv_entry) list" where
  "kv_dump ns = kv_entries ns"

fun kv_apply_dump ::
  "(bytes \<Rightarrow> bytes) \<Rightarrow> kv_ns \<Rightarrow> (string \<times> kv_entry) list \<Rightarrow> kv_ns \<times> nat" where
  "kv_apply_dump sha ns [] = (ns, 0)"
| "kv_apply_dump sha ns ((k, e) # items) =
     (case kv_merge sha ns k e of (ns', r) \<Rightarrow>
        case kv_apply_dump sha ns' items of (ns'', n) \<Rightarrow> (ns'', if r = Applied then Suc n else n))"

definition dead_since :: "u64 \<Rightarrow> kv_entry \<Rightarrow> u64 option" where
  "dead_since now e =
     (case (e_value e, e_expires_at_ms e) of
        (None, _) \<Rightarrow> Some (wall_ms (e_hlc e))
      | (Some _, Some x) \<Rightarrow> if x \<le> now then Some x else None
      | _ \<Rightarrow> None)"

definition kv_gc :: "kv_ns \<Rightarrow> u64 \<Rightarrow> u64 \<Rightarrow> kv_ns \<times> nat" where
  "kv_gc ns now horizon =
     (let kept = filter (\<lambda>(k, e). case dead_since now e of
                   Some t \<Rightarrow> sat_sub now t < horizon | None \<Rightarrow> True) (kv_entries ns)
      in (ns\<lparr>kv_entries := kept\<rparr>, length (kv_entries ns) - length kept))"

definition kv_len :: "kv_ns \<Rightarrow> nat" where
  "kv_len ns = length (kv_entries ns)"

definition kv_is_empty :: "kv_ns \<Rightarrow> bool" where
  "kv_is_empty ns = (kv_entries ns = [])"

section \<open>The well-formedness invariant\<close>

definition kv_ok :: "kv_ns \<Rightarrow> bool" where
  "kv_ok ns = bt_ok (kv_entries ns)"

lemma kv_ok_new: "kv_ok kv_new"
  by (simp add: kv_ok_def kv_new_def)

lemma kv_ok_put: "kv_ok ns \<Longrightarrow> kv_ok (fst (kv_put ns k v t w x))"
  by (simp add: kv_ok_def kv_put_def Let_def bt_ok_insert)

lemma kv_ok_merge: "kv_ok ns \<Longrightarrow> kv_ok (fst (kv_merge sha ns k e))"
  by (auto simp: kv_ok_def kv_merge_def bt_ok_insert split: option.splits)

lemma kv_ok_gc: "kv_ok ns \<Longrightarrow> kv_ok (fst (kv_gc ns now h))"
  by (simp add: kv_ok_def kv_gc_def Let_def bt_ok_filter)

lemma kv_ok_apply_dump: "kv_ok ns \<Longrightarrow> kv_ok (fst (kv_apply_dump sha ns items))"
proof (induction items arbitrary: ns)
  case (Cons i items)
  obtain k e where i: "i = (k, e)" by (cases i)
  from Cons.IH [OF kv_ok_merge [OF Cons.prems]] show ?case
    by (simp add: i split: prod.splits) (metis fst_conv)
qed simp

section \<open>Merging as a keyed store of registers\<close>

definition kv_join :: "(bytes \<Rightarrow> bytes) \<Rightarrow> kv_entry option \<Rightarrow> kv_entry \<Rightarrow> kv_entry" where
  "kv_join sha cur e = (case cur of None \<Rightarrow> e | Some x \<Rightarrow> if beats sha e x then e else x)"

definition kv_absorb :: "(bytes \<Rightarrow> bytes) \<Rightarrow> string \<times> kv_entry \<Rightarrow> kv_ns \<Rightarrow> kv_ns" where
  "kv_absorb sha i ns = fst (kv_merge sha ns (fst i) (snd i))"

definition kv_set :: "string \<Rightarrow> kv_entry \<Rightarrow> kv_ns \<Rightarrow> kv_ns" where
  "kv_set k e ns = ns\<lparr>kv_entries := bt_insert k e (kv_entries ns)\<rparr>"

interpretation kv: register_map "kv_rank sha" "\<lambda>_ _. False" "kv_join sha"
  kv_entry_at kv_set kv_ok "kv_absorb sha" for sha
proof unfold_locales
  show "kv_absorb sha (k, e) m = (if kv_entry_at m k = Some (kv_join sha (kv_entry_at m k) e) then m
      else kv_set k (kv_join sha (kv_entry_at m k) e) m)" for k e m
    by (auto simp: kv_absorb_def kv_merge_def kv_set_def kv_join_def kv_entry_at_def beats_def
          split: option.splits)
qed (auto simp: kv_join_def beats_def kv_set_def kv_entry_at_def kv_ok_def btree.get_put btree.ok_put)

lemma kv_apply_dump_fold: "fst (kv_apply_dump sha ns items) = fold (kv_absorb sha) items ns"
  by (induction sha ns items rule: kv_apply_dump.induct)
     (auto simp: kv_absorb_def split: prod.splits)

lemma kv_ext:
  assumes "kv_ok a" and "kv_ok b" and "\<And>k. kv_entry_at a k = kv_entry_at b k"
  shows "a = b"
  using bt_ext [of "kv_entries a" "kv_entries b"] assms
  by (auto simp: kv_ok_def kv_entry_at_def)

text \<open>
  A writer never reuses a timestamp for a key, which its clock guarantees: then
  timestamp and writer determine the entry, and the hash is never consulted.
\<close>

definition stamps_unique :: "(string \<times> kv_entry) set \<Rightarrow> bool" where
  "stamps_unique S \<longleftrightarrow>
     (\<forall>k e f. (k, e) \<in> S \<and> (k, f) \<in> S \<and> e_hlc e = e_hlc f \<and> e_writer e = e_writer f \<longrightarrow> e = f)"

lemma stamps_unique_inj: "stamps_unique S \<Longrightarrow> inj_on (kv_rank sha) {e. (k, e) \<in> S}"
  by (auto simp: inj_on_def stamps_unique_def kv_rank_def)

lemma kv_entry_at_dump:
  "kv_ok ns \<Longrightarrow> kv_entry_at ns k = Some e \<longleftrightarrow> (k, e) \<in> set (kv_dump ns)"
  using bt_ok_distinct [of "kv_entries ns"]
  by (simp add: kv_ok_def kv_entry_at_def kv_dump_def map_of_eq_Some_iff)

section \<open>Convergence\<close>

lemma kv_deliveries_agree:
  assumes "kv_ok s" and "kv_ok t" and "stamps_unique (set items \<union> set (kv_dump s))"
    and "set items \<union> set (kv_dump s) = set items' \<union> set (kv_dump t)"
  shows "fst (kv_apply_dump sha s items) = fst (kv_apply_dump sha t items')"
proof (rule kv_ext)
  show "kv_ok (fst (kv_apply_dump sha s items))" "kv_ok (fst (kv_apply_dump sha t items'))"
    using assms(1,2) by (simp_all add: kv_ok_apply_dump)
  fix k
  have s: "{(k, e). kv_entry_at s k = Some e} = set (kv_dump s)"
    and t: "{(k, e). kv_entry_at t k = Some e} = set (kv_dump t)"
    using assms(1,2) by (auto simp: kv_entry_at_dump)
  have "inj_on (kv_rank sha) {e. (k, e) \<in> set items \<or> kv_entry_at s k = Some e}" for k
    using stamps_unique_inj [OF assms(3), of sha k] assms(1)
    by (simp add: kv_entry_at_dump)
  from kv.store_convergence [OF assms(1,2) _ this, of items' k] assms(4)
  show "kv_entry_at (fst (kv_apply_dump sha s items)) k
      = kv_entry_at (fst (kv_apply_dump sha t items')) k"
    by (simp add: kv_apply_dump_fold s t kv.consistent_def)
qed

text \<open>
  C3: anti-entropy converges.  When two replicas apply each other's full dump,
  they hold the same entries and report the same digest, whatever they held
  before, provided no writer has used one timestamp twice for a key.
\<close>

theorem kv_anti_entropy_converges:
  assumes "kv_ok a" and "kv_ok b"
    and "stamps_unique (set (kv_dump a) \<union> set (kv_dump b))"
  shows "fst (kv_apply_dump sha a (kv_dump b)) = fst (kv_apply_dump sha b (kv_dump a))
    \<and> kv_digest sha (fst (kv_apply_dump sha a (kv_dump b)))
      = kv_digest sha (fst (kv_apply_dump sha b (kv_dump a)))"
proof -
  have "fst (kv_apply_dump sha a (kv_dump b)) = fst (kv_apply_dump sha b (kv_dump a))"
    using assms by (intro kv_deliveries_agree) (auto simp: Un_commute)
  then show ?thesis by simp
qed

theorem kv_anti_entropy_converges_witness:
  "let a = fst (kv_put (fst (kv_put kv_new ''k'' (Some [1]) (Hlc 5 0) [1] None)) ''x'' None (Hlc 6 0) [1] None);
       b = fst (kv_put kv_new ''k'' (Some [2]) (Hlc 5 1) [2] (Some 9))
   in kv_ok a \<and> kv_ok b \<and> stamps_unique (set (kv_dump a) \<union> set (kv_dump b)) \<and>
      kv_get (fst (kv_apply_dump (\<lambda>m. m) a (kv_dump b))) ''k'' 8 = Some [2] \<and>
      fst (kv_apply_dump (\<lambda>m. m) a (kv_dump b)) = fst (kv_apply_dump (\<lambda>m. m) b (kv_dump a))"
proof -
  let ?a = "fst (kv_put (fst (kv_put kv_new ''k'' (Some [1]) (Hlc 5 0) [1] None)) ''x'' None (Hlc 6 0) [1] None)"
  let ?b = "fst (kv_put kv_new ''k'' (Some [2]) (Hlc 5 1) [2] (Some 9))"
  have ok: "kv_ok ?a" "kv_ok ?b" by (intro kv_ok_put kv_ok_new)+
  have st: "stamps_unique (set (kv_dump ?a) \<union> set (kv_dump ?b))"
    by (auto simp: stamps_unique_def kv_put_def kv_new_def kv_dump_def Let_def)
  have "kv_get (fst (kv_apply_dump (\<lambda>m. m) ?a (kv_dump ?b))) ''k'' 8 = Some [2]"
    by (simp add: kv_put_def kv_new_def kv_dump_def kv_merge_def beats_def kv_rank_def less_hlc_def
          kv_get_def visible_def Let_def)
  with ok st kv_anti_entropy_converges [OF ok st, of "\<lambda>m. m"] show ?thesis by (simp only: Let_def)
qed

text \<open>
  Delivery order and duplication do not matter.  Two replicas that start
  empty and merge the same set of entries, in any order and any number of times,
  end in the same state.
\<close>

theorem kv_delivery_order_irrelevant:
  assumes "set items = set items'" and "stamps_unique (set items)"
  shows "fst (kv_apply_dump sha kv_new items) = fst (kv_apply_dump sha kv_new items')"
proof -
  have "kv_dump kv_new = []" by (simp add: kv_new_def kv_dump_def)
  with assms show ?thesis by (intro kv_deliveries_agree) (simp_all add: kv_ok_new)
qed

theorem kv_delivery_order_irrelevant_witness:
  "let e = \<lparr>e_hlc = Hlc 1 0, e_writer = [1], e_value = Some [1], e_expires_at_ms = None\<rparr>;
       f = \<lparr>e_hlc = Hlc 1 0, e_writer = [2], e_value = None, e_expires_at_ms = None\<rparr>
   in stamps_unique (set [(''k'', e), (''k'', f)]) \<and>
      fst (kv_apply_dump (\<lambda>m. m) kv_new [(''k'', e), (''k'', f)])
      = fst (kv_apply_dump (\<lambda>m. m) kv_new [(''k'', f), (''k'', e), (''k'', f)])"
proof -
  let ?e = "\<lparr>e_hlc = Hlc 1 0, e_writer = [1], e_value = Some [1], e_expires_at_ms = None\<rparr>"
  let ?f = "\<lparr>e_hlc = Hlc 1 0, e_writer = [2], e_value = None, e_expires_at_ms = None\<rparr>"
  have st: "stamps_unique (set [(''k'', ?e), (''k'', ?f)])" by (auto simp: stamps_unique_def)
  have "set [(''k'', ?e), (''k'', ?f)] = set [(''k'', ?f), (''k'', ?e), (''k'', ?f)]" by auto
  from kv_delivery_order_irrelevant [OF this st, of "\<lambda>m. m"] st show ?thesis by (simp only: Let_def)
qed

text \<open>
  A local write is a merge: with a timestamp above everything the node holds for
  the key, \<open>put\<close> and \<open>merge\<close> of the entry it returns agree.
\<close>

lemma kv_put_is_merge:
  assumes "\<And>cur. kv_entry_at ns k = Some cur \<Longrightarrow> e_hlc cur < t"
  shows "kv_merge sha ns k (snd (kv_put ns k v t w x)) = (fst (kv_put ns k v t w x), Applied)"
  using assms
  by (auto simp: kv_merge_def kv_put_def kv_entry_at_def Let_def beats_def kv_rank_def
        split: option.splits)

section \<open>Garbage collection\<close>

lemma dead_since_invisible:
  "dead_since now e = Some d \<Longrightarrow> now \<le> t \<Longrightarrow> visible e t = None"
  by (auto simp: dead_since_def visible_def split: option.splits if_splits)

lemma kv_entry_at_gc:
  assumes "kv_ok ns"
  shows "kv_entry_at (fst (kv_gc ns now h)) k =
    (case kv_entry_at ns k of
       None \<Rightarrow> None
     | Some e \<Rightarrow> if (case dead_since now e of Some d \<Rightarrow> sat_sub now d < h | None \<Rightarrow> True)
                 then Some e else None)"
  using map_of_filter_distinct [OF bt_ok_distinct [OF assms [unfolded kv_ok_def]]]
  by (simp add: kv_entry_at_def kv_gc_def Let_def cong: option.case_cong)

text \<open>
  C37: garbage collection is invisible to readers.  At any time from the
  collection on, every key reads the same after it as before it; the count it
  returns is the number of entries dropped, and only tombstones and expired
  values at least \<open>horizon\<close> old are dropped.
\<close>

theorem kv_gc_preserves_reads:
  assumes "kv_ok ns" and "now \<le> t"
  shows "kv_get (fst (kv_gc ns now h)) k t = kv_get ns k t
    \<and> kv_len (fst (kv_gc ns now h)) + snd (kv_gc ns now h) = kv_len ns
    \<and> (\<forall>e. kv_entry_at ns k = Some e \<longrightarrow> kv_entry_at (fst (kv_gc ns now h)) k = None \<longrightarrow>
         (\<exists>d. dead_since now e = Some d \<and> h \<le> sat_sub now d))"
proof (intro conjI)
  show "kv_get (fst (kv_gc ns now h)) k t = kv_get ns k t"
    using kv_entry_at_gc [OF assms(1), of now h k] dead_since_invisible [OF _ assms(2)]
    by (auto simp: kv_get_def kv_entry_at_def split: option.splits if_splits)
  show "kv_len (fst (kv_gc ns now h)) + snd (kv_gc ns now h) = kv_len ns"
    by (simp add: kv_len_def kv_gc_def Let_def)
  show "\<forall>e. kv_entry_at ns k = Some e \<longrightarrow> kv_entry_at (fst (kv_gc ns now h)) k = None \<longrightarrow>
         (\<exists>d. dead_since now e = Some d \<and> h \<le> sat_sub now d)"
    using kv_entry_at_gc [OF assms(1), of now h k]
    by (auto split: option.splits if_splits simp: not_less)
qed

theorem kv_gc_preserves_reads_witness:
  "let ns = fst (kv_put (fst (kv_put kv_new ''k'' None (Hlc 5 0) [1] None)) ''x'' (Some [3]) (Hlc 6 0) [1] (Some 40))
   in kv_ok ns \<and> (30::u64) \<le> 35 \<and> snd (kv_gc ns 30 20) = 1
      \<and> kv_get (fst (kv_gc ns 30 20)) ''x'' 35 = Some [3]"
proof -
  let ?ns = "fst (kv_put (fst (kv_put kv_new ''k'' None (Hlc 5 0) [1] None)) ''x'' (Some [3]) (Hlc 6 0) [1] (Some 40))"
  have ok: "kv_ok ?ns" by (intro kv_ok_put kv_ok_new)
  have le: "(30::u64) \<le> 35" by simp
  have "kv_get ?ns ''x'' 35 = Some [3]" "snd (kv_gc ?ns 30 20) = 1"
    by (simp_all add: kv_put_def kv_new_def kv_get_def visible_def kv_gc_def dead_since_def sat_sub_def Let_def)
  with ok le kv_gc_preserves_reads [OF ok le, of 20 "''x''"] show ?thesis by (simp add: Let_def)
qed

section \<open>Listing\<close>

lemma starts_with_ge: "starts_with k p \<Longrightarrow> p \<le> k"
proof (induction p arbitrary: k)
  case (Cons c p)
  then show ?case by (cases k) (auto simp: starts_with_simps)
qed simp

text \<open>Keys with a common prefix are an interval of the order.\<close>

lemma prefix_interval:
  fixes p :: string
  assumes "p \<le> k" and "k \<le> l" and "starts_with l p"
  shows "starts_with k p"
  using assms
proof (induction p arbitrary: k l)
  case (Cons c p)
  from Cons.prems(3) obtain l' where l: "l = c # l'" "starts_with l' p"
    by (cases l) (auto simp: starts_with_simps)
  from Cons.prems(1) obtain d k' where k: "k = d # k'" by (cases k) auto
  from Cons.prems(1,2) k l have "d = c" "p \<le> k'" "k' \<le> l'" by auto
  with Cons.IH [of k' l'] k l show ?case by (auto simp: starts_with_simps)
qed (simp add: starts_with_def)

lemma range_then_prefix:
  assumes "bt_ok m"
  shows "takeWhile (\<lambda>(k, e). starts_with k p) (dropWhile (\<lambda>(k, e). k < p) m)
    = filter (\<lambda>(k, e). starts_with k p) m"
  using assms
proof (induction m)
  case (Cons i m)
  obtain k e where i: "i = (k, e)" by (cases i)
  from Cons.prems have above: "\<And>q. q \<in> set m \<Longrightarrow> k < fst q" and ok: "bt_ok m"
    by (auto simp: i)
  show ?case
  proof (cases "k < p")
    case True
    then have "\<not> starts_with k p" using starts_with_ge leD by blast
    with True Cons.IH [OF ok] show ?thesis by (simp add: i)
  next
    case False
    then have drop: "dropWhile (\<lambda>(k, e). k < p) (i # m) = i # m" by (simp add: i)
    have dm: "dropWhile (\<lambda>(k, e). k < p) m = m"
      using False above by (cases m) force+
    show ?thesis
    proof (cases "starts_with k p")
      case True
      with drop dm Cons.IH [OF ok] show ?thesis by (simp add: i)
    next
      case no: False
      have "\<not> starts_with (fst q) p" if "q \<in> set m" for q
        using prefix_interval [of p k "fst q"] no False above [OF that]
        by (auto simp: not_less less_imp_le)
      then have "filter (\<lambda>(k, e). starts_with k p) m = []" by (auto simp: filter_empty_conv)
      with drop no show ?thesis by (simp add: i)
    qed
  qed
qed simp

text \<open>
  Listing by prefix is exact.  The bounded range scan returns, in key order,
  the first \<open>limit\<close> of all keys that start with the prefix and are readable now.
\<close>

theorem kv_list_exact:
  assumes "kv_ok ns"
  shows "kv_list ns p now limit =
      take limit (filter (\<lambda>k. starts_with k p \<and> kv_get ns k now \<noteq> None) (map fst (kv_dump ns)))
    \<and> sorted_wrt (<) (kv_list ns p now limit)"
proof -
  let ?m = "kv_entries ns"
  have ok: "bt_ok ?m" using assms by (simp add: kv_ok_def)
  have g: "kv_get ns k now = visible e now" if "(k, e) \<in> set ?m" for k e
    using that bt_ok_distinct [OF ok] by (simp add: kv_get_def)
  have eq: "map fst (filter (\<lambda>(k, e). visible e now \<noteq> None) (filter (\<lambda>(k, e). starts_with k p) ?m))
      = filter (\<lambda>k. starts_with k p \<and> kv_get ns k now \<noteq> None) (map fst ?m)"
    using g by (auto simp: filter_map comp_def intro!: arg_cong [where f = "map fst"] filter_cong)
  have "sorted_wrt (<) (map fst ?m)" using ok by (simp add: bt_ok_def)
  then have "sorted_wrt (<) (take limit (filter (\<lambda>k. starts_with k p \<and> kv_get ns k now \<noteq> None) (map fst ?m)))"
    by (intro sorted_wrt_take sorted_wrt_filter)
  with eq show ?thesis
    by (simp add: kv_list_def range_then_prefix [OF ok] kv_dump_def)
qed

theorem kv_list_exact_witness:
  "let ns = fst (kv_put (fst (kv_put (fst (kv_put kv_new ''b/1'' (Some [1]) (Hlc 1 0) [1] None))
              ''a/2'' (Some [1]) (Hlc 2 0) [1] None)) ''a/1'' (Some [1]) (Hlc 3 0) [1] None)
   in kv_ok ns \<and> kv_list ns ''a/'' 10 10 = [''a/1'', ''a/2'']
      \<and> sorted_wrt (<) (kv_list ns ''a/'' 10 10)"
proof -
  let ?ns = "fst (kv_put (fst (kv_put (fst (kv_put kv_new ''b/1'' (Some [1]) (Hlc 1 0) [1] None))
              ''a/2'' (Some [1]) (Hlc 2 0) [1] None)) ''a/1'' (Some [1]) (Hlc 3 0) [1] None)"
  have ok: "kv_ok ?ns" by (intro kv_ok_put kv_ok_new)
  have "kv_list ?ns ''a/'' 10 10 = [''a/1'', ''a/2'']"
    by (simp add: kv_list_def kv_put_def kv_new_def visible_def starts_with_simps Let_def)
  with ok conjunct2 [OF kv_list_exact [OF ok, of "''a/''" 10 10]] show ?thesis
    by (simp only: Let_def)
qed

end
