(* ===== verification/Claims.thy ===== *)
theory Claims
  imports Hlc Envelope Rf_Map
begin

text \<open>
  The claim engine of \<^verbatim>\<open>crates/rf-core/src/claim.rs\<close>: leaderless leases on
  named tasks.  \<open>cr\<close> is the cryptography, \<open>enc\<close> and \<open>dec\<close> the postcard codec
  for \<open>Claim\<close>; both are parameters.
\<close>

definition SKEW_SLACK_MS :: u64 where
  "SKEW_SLACK_MS = 15000"

record claim =
  c_task :: string
  c_holder :: public_id
  c_acquired :: hlc
  c_renewed :: hlc
  c_ttl_ms :: u64
  c_released :: bool

definition claim_expires_at_ms :: "claim \<Rightarrow> u64" where
  "claim_expires_at_ms c = sat_add (wall_ms (c_renewed c)) (c_ttl_ms c)"

definition claim_live :: "claim \<Rightarrow> u64 \<Rightarrow> bool" where
  "claim_live c now = (\<not> c_released c \<and> now < sat_add (claim_expires_at_ms c) SKEW_SLACK_MS)"

record claim_record =
  r_claim :: claim
  r_digest :: bytes
  r_envelope :: envelope

datatype ingest = Changed | Stale

datatype claim_error =
    ClaimEnvelope envelope_error
  | HolderMismatch
  | RenewedBeforeAcquired
  | AcquiredMoved
  | ZeroTtl

record claim_set =
  tasks :: "(string, (public_id, claim_record) hash_map) hash_map"

definition claims_new :: claim_set where
  "claims_new = \<lparr>tasks = []\<rparr>"

definition make_claim ::
  "crypto \<Rightarrow> (claim \<Rightarrow> bytes) \<Rightarrow> bytes \<Rightarrow> string \<Rightarrow> hlc \<Rightarrow> u64 \<Rightarrow> envelope" where
  "make_claim cr enc seed task now ttl =
     seal cr enc \<lparr>c_task = task, c_holder = ed_public cr seed, c_acquired = now,
                  c_renewed = now, c_ttl_ms = ttl, c_released = False\<rparr> seed"

definition renew_claim ::
  "crypto \<Rightarrow> (claim \<Rightarrow> bytes) \<Rightarrow> bytes \<Rightarrow> claim \<Rightarrow> hlc \<Rightarrow> bool \<Rightarrow> envelope" where
  "renew_claim cr enc seed prior renewed released =
     seal cr enc \<lparr>c_task = c_task prior, c_holder = ed_public cr seed, c_acquired = c_acquired prior,
                  c_renewed = renewed, c_ttl_ms = c_ttl_ms prior, c_released = released\<rparr> seed"

section \<open>Ingest\<close>

text \<open>The holders known for a task: the map \<open>entry(task).or_default()\<close> gives.\<close>

definition per_task :: "claim_set \<Rightarrow> string \<Rightarrow> (public_id, claim_record) hash_map" where
  "per_task cs task = (case map_of (tasks cs) task of None \<Rightarrow> [] | Some m \<Rightarrow> m)"

definition claim_insert :: "claim_set \<Rightarrow> string \<Rightarrow> public_id \<Rightarrow> claim_record \<Rightarrow> claim_set" where
  "claim_insert cs task holder r =
     cs\<lparr>tasks := hm_insert task (hm_insert holder r (per_task cs task)) (tasks cs)\<rparr>"

text \<open>The second half of \<open>ingest\<close>: fold a verified claim in under its task and holder.\<close>

definition claim_fold ::
  "claim_set \<Rightarrow> string \<Rightarrow> public_id \<Rightarrow> claim_record \<Rightarrow> claim_set \<times> (claim_error + ingest)" where
  "claim_fold cs task holder r =
     (case map_of (per_task cs task) holder of
        Some existing \<Rightarrow>
          (if r_digest existing = r_digest r then (cs, Inr Stale)
           else if c_acquired (r_claim r) = c_acquired (r_claim existing) then
             (if c_renewed (r_claim r) \<le> c_renewed (r_claim existing) then (cs, Inr Stale)
              else (claim_insert cs task holder r, Inr Changed))
           else if c_acquired (r_claim r) > c_acquired (r_claim existing) then
             (claim_insert cs task holder r, Inr Changed)
           else (cs, Inl AcquiredMoved))
      | None \<Rightarrow> (claim_insert cs task holder r, Inr Changed))"

text \<open>The checks at the start of \<open>ingest\<close>.\<close>

definition claim_check ::
  "crypto \<Rightarrow> (bytes \<Rightarrow> claim option) \<Rightarrow> envelope \<Rightarrow> claim_error + claim" where
  "claim_check cr dec env =
     (case envelope_open cr dec None env of
        Inl e \<Rightarrow> Inl (ClaimEnvelope e)
      | Inr c \<Rightarrow>
          if Ed (c_holder c) \<noteq> signer env then Inl HolderMismatch
          else if c_renewed c < c_acquired c then Inl RenewedBeforeAcquired
          else if c_ttl_ms c = 0 then Inl ZeroTtl
          else Inr c)"

definition record_of :: "crypto \<Rightarrow> envelope \<Rightarrow> claim \<Rightarrow> claim_record" where
  "record_of cr env c = \<lparr>r_claim = c, r_digest = envelope_digest cr env, r_envelope = env\<rparr>"

definition claim_ingest ::
  "crypto \<Rightarrow> (bytes \<Rightarrow> claim option) \<Rightarrow> claim_set \<Rightarrow> envelope \<Rightarrow> claim_set \<times> (claim_error + ingest)" where
  "claim_ingest cr dec cs env =
     (case claim_check cr dec env of
        Inl e \<Rightarrow> (cs, Inl e)
      | Inr c \<Rightarrow> claim_fold cs (c_task c) (c_holder c) (record_of cr env c))"

section \<open>Decisions\<close>

text \<open>\<open>min_by\<close>: the first of the records that no other precedes.\<close>

definition claim_rank :: "claim_record \<Rightarrow> (hlc \<times> bytes) reverse" where
  "claim_rank r = Reverse (c_acquired (r_claim r), r_digest r)"

definition claim_min :: "claim_record option \<Rightarrow> claim_record \<Rightarrow> claim_record" where
  "claim_min cur r = (case cur of None \<Rightarrow> r | Some x \<Rightarrow> if claim_rank x < claim_rank r then r else x)"

definition winner :: "claim_set \<Rightarrow> string \<Rightarrow> u64 \<Rightarrow> claim_record option" where
  "winner cs task now =
     (case map_of (tasks cs) task of
        None \<Rightarrow> None
      | Some m \<Rightarrow> foldl (\<lambda>cur r. Some (claim_min cur r)) None
          (filter (\<lambda>r. claim_live (r_claim r) now) (map snd m)))"

definition holds :: "claim_set \<Rightarrow> string \<Rightarrow> public_id \<Rightarrow> u64 \<Rightarrow> bool" where
  "holds cs task me now =
     (case winner cs task now of None \<Rightarrow> False | Some r \<Rightarrow> c_holder (r_claim r) = me)"

definition open_for_claim :: "claim_set \<Rightarrow> string \<Rightarrow> u64 \<Rightarrow> bool" where
  "open_for_claim cs task now = (winner cs task now = None)"

definition mine :: "claim_set \<Rightarrow> string \<Rightarrow> public_id \<Rightarrow> claim_record option" where
  "mine cs task me = (case map_of (tasks cs) task of None \<Rightarrow> None | Some m \<Rightarrow> map_of m me)"

section \<open>Housekeeping\<close>

definition gc_keep :: "u64 \<Rightarrow> u64 \<Rightarrow> claim_record \<Rightarrow> bool" where
  "gc_keep now horizon r =
     (\<not> c_released (r_claim r) \<and>
      now < sat_add (sat_add (claim_expires_at_ms (r_claim r)) SKEW_SLACK_MS) horizon)"

definition claims_gc :: "claim_set \<Rightarrow> u64 \<Rightarrow> u64 \<Rightarrow> claim_set \<times> nat" where
  "claims_gc cs now horizon =
     (let kept = map (\<lambda>(t, m). (t, filter (\<lambda>(h, r). gc_keep now horizon r) m)) (tasks cs)
      in (cs\<lparr>tasks := filter (\<lambda>(t, m). m \<noteq> []) kept\<rparr>,
          sum_list (map (\<lambda>(t, m). length (filter (\<lambda>(h, r). \<not> gc_keep now horizon r) m)) (tasks cs))))"

definition live_envelopes :: "claim_set \<Rightarrow> u64 \<Rightarrow> envelope list" where
  "live_envelopes cs now =
     map r_envelope (filter (\<lambda>r. claim_live (r_claim r) now) (concat (map (\<lambda>(t, m). map snd m) (tasks cs))))"

definition task_count :: "claim_set \<Rightarrow> nat" where
  "task_count cs = length (tasks cs)"

section \<open>The invariant\<close>

text \<open>
  Every stored record sits under its own task and holder, was signed by that
  holder, and satisfies the checks of \<open>ingest\<close>; no task has an empty map.
\<close>

definition record_ok ::
  "crypto \<Rightarrow> (bytes \<Rightarrow> claim option) \<Rightarrow> string \<Rightarrow> public_id \<Rightarrow> claim_record \<Rightarrow> bool" where
  "record_ok cr dec t h r \<longleftrightarrow>
     c_task (r_claim r) = t \<and> c_holder (r_claim r) = h \<and>
     claim_check cr dec (r_envelope r) = Inr (r_claim r) \<and>
     r_digest r = envelope_digest cr (r_envelope r)"

definition claims_wf :: "claim_set \<Rightarrow> bool" where
  "claims_wf cs \<longleftrightarrow> hm_ok (tasks cs) \<and> (\<forall>(t, m) \<in> set (tasks cs). hm_ok m \<and> m \<noteq> [])"

definition claims_ok :: "crypto \<Rightarrow> (bytes \<Rightarrow> claim option) \<Rightarrow> claim_set \<Rightarrow> bool" where
  "claims_ok cr dec cs \<longleftrightarrow>
     claims_wf cs \<and> (\<forall>t h r. mine cs t h = Some r \<longrightarrow> record_ok cr dec t h r)"

lemma per_task_ok: "claims_wf cs \<Longrightarrow> hm_ok (per_task cs t)"
  by (auto simp: claims_wf_def per_task_def dest: map_of_SomeD split: option.splits)

lemma mine_per_task: "mine cs t h = map_of (per_task cs t) h"
  by (simp add: mine_def per_task_def split: option.splits)

lemma update_nonempty [simp]: "hm_insert k v m \<noteq> []"
  by (cases m) auto

lemma claims_wf_insert: "claims_wf cs \<Longrightarrow> claims_wf (claim_insert cs t h r)"
proof -
  assume wf: "claims_wf cs"
  have "hm_ok m \<and> m \<noteq> []" if "(t', m) \<in> set (tasks (claim_insert cs t h r))" for t' m
  proof -
    have "hm_ok (tasks (claim_insert cs t h r))"
      using wf by (simp add: claim_insert_def claims_wf_def hm_ok_insert)
    with that have "map_of (tasks (claim_insert cs t h r)) t' = Some m"
      by (simp add: hm_ok_def)
    then have "t' = t \<and> m = hm_insert h r (per_task cs t) \<or> map_of (tasks cs) t' = Some m"
      by (auto simp: claim_insert_def update_conv' split: if_splits)
    then show ?thesis
      using wf per_task_ok [OF wf, of t] by (auto simp: claims_wf_def hm_ok_insert dest: map_of_SomeD)
  qed
  with wf show ?thesis by (auto simp: claims_wf_def claim_insert_def hm_ok_insert)
qed

lemma mine_insert:
  "mine (claim_insert cs t h r) t' h' = (if (t', h') = (t, h) then Some r else mine cs t' h')"
  by (auto simp: mine_def claim_insert_def per_task_def update_conv' split: option.splits)

lemma claims_wf_fold: "claims_wf cs \<Longrightarrow> claims_wf (fst (claim_fold cs t h r))"
  by (auto simp: claim_fold_def claims_wf_insert split: option.splits)

section \<open>Claims as a keyed store\<close>

text \<open>
  For one task and holder, \<open>ingest\<close> keeps the record with the latest
  acquisition and, within one hold, the latest renewal; a record with the digest
  it already has is a duplicate.
\<close>

definition hold_rank :: "claim_record \<Rightarrow> hlc \<times> hlc" where
  "hold_rank r = (c_acquired (r_claim r), c_renewed (r_claim r))"

definition hold_dup :: "claim_record \<Rightarrow> claim_record \<Rightarrow> bool" where
  "hold_dup x e = (r_digest x = r_digest e)"

definition hold_join :: "claim_record option \<Rightarrow> claim_record \<Rightarrow> claim_record" where
  "hold_join cur e =
     (case cur of None \<Rightarrow> e | Some x \<Rightarrow> if hold_rank x < hold_rank e \<and> \<not> hold_dup x e then e else x)"

definition claim_absorb :: "(string \<times> public_id) \<times> claim_record \<Rightarrow> claim_set \<Rightarrow> claim_set" where
  "claim_absorb i cs = fst (claim_fold cs (fst (fst i)) (snd (fst i)) (snd i))"

definition claim_look :: "claim_set \<Rightarrow> string \<times> public_id \<Rightarrow> claim_record option" where
  "claim_look cs k = mine cs (fst k) (snd k)"

lemma claim_look_absorb:
  "claim_look (claim_absorb (k, e) s) k' =
     (if k' = k then Some (hold_join (claim_look s k) e) else claim_look s k')"
proof -
  obtain t h where k: "k = (t, h)" by (cases k)
  show ?thesis
  proof (cases "map_of (per_task s t) h")
    case None
    then have "fst (claim_fold s t h e) = claim_insert s t h e" by (simp add: claim_fold_def)
    with None [folded mine_per_task] show ?thesis
      by (auto simp: k claim_look_def claim_absorb_def mine_insert hold_join_def)
  next
    case (Some x)
    then have "fst (claim_fold s t h e) =
        (if hold_rank x < hold_rank e \<and> \<not> hold_dup x e then claim_insert s t h e else s)"
      by (auto simp: claim_fold_def hold_rank_def hold_dup_def)
    with Some [folded mine_per_task] show ?thesis
      by (auto simp: k claim_look_def claim_absorb_def mine_insert hold_join_def)
  qed
qed

interpretation hold: keyed_store hold_rank hold_dup hold_join claim_look claim_absorb claims_wf
proof unfold_locales
  show "hold_join None e = e" for e by (simp add: hold_join_def)
  show "hold_join (Some x) e = (if hold_rank x < hold_rank e \<and> \<not> hold_dup x e then e else x)" for x e
    by (simp add: hold_join_def)
  show "claims_wf (claim_absorb i s)" if "claims_wf s" for s i
    using that by (simp add: claim_absorb_def claims_wf_fold)
qed (rule claim_look_absorb)

lemma claim_ingest_absorb:
  "fst (claim_ingest cr dec cs env) =
     (case claim_check cr dec env of
        Inl e \<Rightarrow> cs
      | Inr c \<Rightarrow> claim_absorb ((c_task c, c_holder c), record_of cr env c) cs)"
  by (auto simp: claim_ingest_def claim_absorb_def split: sum.splits)

section \<open>Garbage collection\<close>

lemma filter_empty_map_of:
  "distinct (map fst xs) \<Longrightarrow>
   map_of (filter (\<lambda>(t, m). m \<noteq> []) (map (\<lambda>(t, m). (t, f m)) xs)) t =
     (case map_of xs t of None \<Rightarrow> None | Some m \<Rightarrow> if f m = [] then None else Some (f m))"
proof (induction xs)
  case (Cons p xs)
  obtain t' m where p: "p = (t', m)" by (cases p)
  show ?case
  proof (cases "t = t'")
    case True
    with Cons.prems have "map_of xs t = None" by (simp add: p map_of_eq_None_iff)
    with Cons True show ?thesis by (simp add: p)
  next
    case False
    with Cons show ?thesis by (simp add: p)
  qed
qed simp

lemma mine_gc:
  assumes "claims_wf cs"
  shows "mine (fst (claims_gc cs now hz)) t h =
    (case mine cs t h of None \<Rightarrow> None | Some r \<Rightarrow> if gc_keep now hz r then Some r else None)"
proof (cases "map_of (tasks cs) t")
  case None
  with assms show ?thesis
    by (simp add: mine_def claims_gc_def Let_def filter_empty_map_of claims_wf_def hm_ok_def)
next
  case (Some m)
  with assms have m: "hm_ok m" by (auto simp: claims_wf_def dest: map_of_SomeD)
  have "map_of (filter (\<lambda>(h, r). gc_keep now hz r) m) h =
      (case map_of m h of None \<Rightarrow> None | Some r \<Rightarrow> if gc_keep now hz r then Some r else None)"
    using m by (simp add: map_of_filter_distinct hm_ok_def split: option.splits)
  with Some assms show ?thesis
    by (auto simp: mine_def claims_gc_def Let_def filter_empty_map_of claims_wf_def hm_ok_def
          split: option.splits)
qed

lemma claims_wf_gc: "claims_wf cs \<Longrightarrow> claims_wf (fst (claims_gc cs now hz))"
proof -
  assume wf: "claims_wf cs"
  let ?kept = "map (\<lambda>(t, m). (t, filter (\<lambda>(h, r). gc_keep now hz r) m)) (tasks cs)"
  have "map fst ?kept = map fst (tasks cs)" by (auto simp: case_prod_beta)
  with wf have "hm_ok ?kept" by (simp only: claims_wf_def hm_ok_def)
  with wf show ?thesis
    by (auto simp: claims_wf_def claims_gc_def Let_def hm_ok_filter)
qed

section \<open>Concrete claims\<close>

text \<open>Claims of one-byte holders on one task, for evaluating the definitions.\<close>

definition demo_claim :: "u8 \<Rightarrow> u8 \<Rightarrow> u8 \<Rightarrow> u8 \<Rightarrow> claim" where
  "demo_claim h a r x = \<lparr>c_task = ''job'', c_holder = [h], c_acquired = Hlc (ucast a) 0,
     c_renewed = Hlc (ucast r) 0, c_ttl_ms = 100, c_released = (x \<noteq> 0)\<rparr>"

fun demo_claim_dec :: "bytes \<Rightarrow> claim option" where
  "demo_claim_dec [h, a, r, x] = Some (demo_claim h a r x)"
| "demo_claim_dec _ = None"

definition demo_env :: "u8 \<Rightarrow> u8 \<Rightarrow> u8 \<Rightarrow> u8 \<Rightarrow> envelope" where
  "demo_env h a r x = \<lparr>payload = [h, a, r, x], signer = Ed [h], sig = replicate 64 0\<rparr>"

lemma demo_claim_check:
  assumes "a \<le> r"
  shows "claim_check demo_crypto demo_claim_dec (demo_env h a r x) = Inr (demo_claim h a r x)"
proof -
  have "envelope_open demo_crypto demo_claim_dec None (demo_env h a r x) = Inr (demo_claim h a r x)"
    by (simp add: envelope_open_def demo_env_def signer_verify_def demo_crypto_def)
  moreover have "\<not> (ucast r :: u64) < ucast a"
    using assms by transfer (simp add: take_bit_eq_mod)
  ultimately show ?thesis by (simp add: claim_check_def demo_claim_def demo_env_def less_hlc_def)
qed

lemma demo_digest:
  assumes "\<And>e. e \<in> E \<Longrightarrow> \<exists>h a r x. e = demo_env h a r x"
  shows "inj_on (envelope_digest demo_crypto) E"
proof (rule inj_onI)
  fix e f
  assume "e \<in> E" "f \<in> E" and eq: "envelope_digest demo_crypto e = envelope_digest demo_crypto f"
  then obtain h a r x k b s y where "e = demo_env h a r x" "f = demo_env k b s y" using assms by meson
  with eq show "e = f"
    by (simp add: envelope_digest_def digest_input_def demo_crypto_def demo_env_def)
qed

text \<open>
  The claim set stays well-formed.  Whatever envelope arrives, every record
  stored under a task and holder was signed by that holder, names that task,
  has a positive TTL and a renewal not before its acquisition; garbage
  collection keeps this too.
\<close>

theorem claims_ok_preserved:
  assumes "claims_ok cr dec cs"
  shows "claims_ok cr dec (fst (claim_ingest cr dec cs env)) \<and>
         claims_ok cr dec (fst (claims_gc cs now horizon))"
proof
  from assms have wf: "claims_wf cs" and rec: "\<And>t h r. mine cs t h = Some r \<Longrightarrow> record_ok cr dec t h r"
    by (auto simp: claims_ok_def)
  show "claims_ok cr dec (fst (claims_gc cs now horizon))"
    using rec wf by (auto simp: claims_ok_def claims_wf_gc mine_gc split: option.splits if_splits)
  show "claims_ok cr dec (fst (claim_ingest cr dec cs env))"
  proof (cases "claim_check cr dec env")
    case (Inl e)
    with assms show ?thesis by (simp add: claim_ingest_absorb)
  next
    case (Inr c)
    let ?k = "(c_task c, c_holder c)" and ?r = "record_of cr env c"
    have r: "record_ok cr dec (c_task c) (c_holder c) ?r"
      using Inr by (simp add: record_ok_def record_of_def)
    have "record_ok cr dec t h x" if "mine (claim_absorb (?k, ?r) cs) t h = Some x" for t h x
      using claim_look_absorb [of ?k ?r cs "(t, h)"] that r rec
        hold.join_in [of "mine cs (c_task c) (c_holder c)" ?r]
      by (auto simp: claim_look_def split: if_splits)
    moreover have "claims_wf (claim_absorb (?k, ?r) cs)" by (rule hold.ok_absorb [OF wf])
    ultimately show ?thesis by (simp add: Inr claim_ingest_absorb claims_ok_def)
  qed
qed

theorem claims_ok_preserved_witness:
  "claims_ok demo_crypto demo_claim_dec claims_new \<and>
   mine (fst (claim_ingest demo_crypto demo_claim_dec claims_new (demo_env 1 5 7 0))) ''job'' [1] \<noteq> None \<and>
   claims_ok demo_crypto demo_claim_dec
     (fst (claim_ingest demo_crypto demo_claim_dec claims_new (demo_env 1 5 7 0)))"
proof -
  have new: "claims_ok demo_crypto demo_claim_dec claims_new"
    by (simp add: claims_ok_def claims_wf_def claims_new_def mine_def)
  have "mine (fst (claim_ingest demo_crypto demo_claim_dec claims_new (demo_env 1 5 7 0))) ''job'' [1] \<noteq> None"
    by (simp add: claim_ingest_def demo_claim_check claim_fold_def claims_new_def per_task_def mine_def
          claim_insert_def demo_claim_def)
  with new claims_ok_preserved [OF new] show ?thesis by blast
qed

section \<open>Adjudication\<close>

interpretation cmin: lww_register claim_rank "\<lambda>_ _. False" claim_min
  by unfold_locales (auto simp: claim_min_def)

lemma claim_rank_le: "claim_rank x \<le> claim_rank y \<longleftrightarrow>
    (c_acquired (r_claim y), r_digest y) \<le> (c_acquired (r_claim x), r_digest x)"
  by (simp add: claim_rank_def)

text \<open>The live records of a task.\<close>

definition live_records :: "claim_set \<Rightarrow> string \<Rightarrow> u64 \<Rightarrow> claim_record set" where
  "live_records cs task now = {r. \<exists>h. mine cs task h = Some r \<and> claim_live (r_claim r) now}"

definition live_list :: "claim_set \<Rightarrow> string \<Rightarrow> u64 \<Rightarrow> claim_record list" where
  "live_list cs task now = filter (\<lambda>r. claim_live (r_claim r) now) (map snd (per_task cs task))"

lemma winner_list:
  "winner cs task now = foldl (\<lambda>cur r. Some (claim_min cur r)) None (live_list cs task now)"
  by (simp add: winner_def per_task_def live_list_def split: option.splits)

lemma set_live_list:
  assumes "claims_wf cs"
  shows "set (live_list cs task now) = live_records cs task now"
proof -
  have "mine cs task h = Some r \<longleftrightarrow> (h, r) \<in> set (per_task cs task)" for h r
    using per_task_ok [OF assms, of task] by (simp add: mine_per_task hm_ok_def)
  then show ?thesis by (force simp: live_records_def live_list_def)
qed

text \<open>
  C11: adjudication is exact.  A task has a winner exactly when a live claim on it
  is known; the winner is a live claim whose acquisition, with ties broken by
  digest, no live claim precedes; and \<open>holds\<close> is true of at most one node.
\<close>

theorem winner_spec:
  assumes "claims_wf cs"
  shows "(winner cs task now = None \<longleftrightarrow> live_records cs task now = {})
    \<and> (\<forall>r. winner cs task now = Some r \<longrightarrow> r \<in> live_records cs task now \<and>
         (\<forall>q \<in> live_records cs task now.
            (c_acquired (r_claim r), r_digest r) \<le> (c_acquired (r_claim q), r_digest q)))
    \<and> (\<forall>a b. holds cs task a now \<longrightarrow> holds cs task b now \<longrightarrow> a = b)"
proof (intro conjI allI impI)
  let ?l = "live_list cs task now"
  note set = set_live_list [OF assms, of task now]
  show "winner cs task now = None \<longleftrightarrow> live_records cs task now = {}"
    by (simp add: winner_list cmin.fold_join_None_iff set [symmetric])
  {
    fix r
    assume "winner cs task now = Some r"
    from cmin.fold_join_Some [OF this [unfolded winner_list]]
    have "r \<in> set ?l \<and> (\<forall>e \<in> set ?l. claim_rank e \<le> claim_rank r)"
      by (simp add: cmin.consistent_def)
    then show "r \<in> live_records cs task now"
      and "\<forall>q \<in> live_records cs task now.
            (c_acquired (r_claim r), r_digest r) \<le> (c_acquired (r_claim q), r_digest q)"
      unfolding set by (auto simp only: claim_rank_le)
  }
  show "a = b" if "holds cs task a now" "holds cs task b now" for a b
    using that by (auto simp: holds_def split: option.splits)
qed

theorem winner_spec_witness:
  "let cs = fst (claim_ingest demo_crypto demo_claim_dec claims_new (demo_env 1 5 7 0))
   in claims_wf cs \<and> winner cs ''job'' 50 \<noteq> None \<and> live_records cs ''job'' 50 \<noteq> {}"
proof -
  let ?cs = "fst (claim_ingest demo_crypto demo_claim_dec claims_new (demo_env 1 5 7 0))"
  have cs: "?cs = \<lparr>tasks = [(''job'', [([1], record_of demo_crypto (demo_env 1 5 7 0) (demo_claim 1 5 7 0))])]\<rparr>"
    by (simp add: claim_ingest_def demo_claim_check claim_fold_def claims_new_def per_task_def
          claim_insert_def demo_claim_def)
  have wf: "claims_wf ?cs" by (simp add: cs claims_wf_def hm_ok_def)
  have "winner ?cs ''job'' 50 \<noteq> None"
    by (simp add: cs winner_def record_of_def demo_claim_def claim_live_def claim_expires_at_ms_def
          sat_add_def SKEW_SLACK_MS_def)
  with wf winner_spec [OF wf, of "''job''" 50] show ?thesis by (simp add: Let_def)
qed

text \<open>The outcome depends only on which records are held, not on how the maps list them.\<close>

lemma winner_cong:
  assumes "claims_wf cs" and "claims_wf ds" and "\<And>h. mine cs task h = mine ds task h"
    and "inj_on claim_rank (live_records cs task now)"
  shows "winner cs task now = winner ds task now"
proof -
  have "live_records cs task now = live_records ds task now"
    using assms(3) by (simp add: live_records_def)
  with assms show ?thesis unfolding winner_list
    by (intro cmin.fold_join_convergence) (simp_all add: set_live_list cmin.consistent_def)
qed

section \<open>What one envelope does\<close>

lemma claim_ingest_known:
  assumes "claim_check cr dec env = Inr c" and "mine cs (c_task c) (c_holder c) = Some x"
  shows "claim_ingest cr dec cs env =
    (if r_digest x = envelope_digest cr env then (cs, Inr Stale)
     else if hold_rank x < (c_acquired c, c_renewed c)
       then (claim_insert cs (c_task c) (c_holder c) (record_of cr env c), Inr Changed)
     else if c_acquired c < c_acquired (r_claim x) then (cs, Inl AcquiredMoved)
     else (cs, Inr Stale))"
proof -
  from assms(2) have x: "map_of (per_task cs (c_task c)) (c_holder c) = Some x"
    by (simp add: mine_per_task)
  have r: "r_claim (record_of cr env c) = c" "r_digest (record_of cr env c) = envelope_digest cr env"
    by (simp_all add: record_of_def)
  show ?thesis
    by (simp add: claim_ingest_def assms(1) claim_fold_def x r hold_rank_def)
       (auto simp: not_less)
qed

lemma claim_ingest_unknown:
  assumes "claim_check cr dec env = Inr c" and "mine cs (c_task c) (c_holder c) = None"
  shows "claim_ingest cr dec cs env =
    (claim_insert cs (c_task c) (c_holder c) (record_of cr env c), Inr Changed)"
  using assms by (simp add: claim_ingest_def claim_fold_def mine_per_task)

text \<open>
  Every outcome of \<open>ingest\<close>.  The set changes exactly when the result is
  \<open>Changed\<close>, which is exactly when the checks pass and the node knew no claim of
  this holder on the task, or an earlier one by acquisition and then renewal
  that is not the same envelope; a claim that moves the acquisition of a known
  hold back is refused; and the recorded hold never moves backwards.
\<close>

theorem claim_ingest_outcome:
  "(case claim_check cr dec env of
      Inl e \<Rightarrow> claim_ingest cr dec cs env = (cs, Inl e)
    | Inr c \<Rightarrow>
        (case mine cs (c_task c) (c_holder c) of
           None \<Rightarrow> claim_ingest cr dec cs env =
             (claim_insert cs (c_task c) (c_holder c) (record_of cr env c), Inr Changed)
         | Some x \<Rightarrow> claim_ingest cr dec cs env =
             (if r_digest x = envelope_digest cr env then (cs, Inr Stale)
              else if hold_rank x < (c_acquired c, c_renewed c)
                then (claim_insert cs (c_task c) (c_holder c) (record_of cr env c), Inr Changed)
              else if c_acquired c < c_acquired (r_claim x) then (cs, Inl AcquiredMoved)
              else (cs, Inr Stale))
            \<and> (\<exists>y. mine (fst (claim_ingest cr dec cs env)) (c_task c) (c_holder c) = Some y
                   \<and> hold_rank x \<le> hold_rank y)))"
proof (cases "claim_check cr dec env")
  case (Inl e)
  then show ?thesis by (simp add: claim_ingest_def)
next
  case (Inr c)
  show ?thesis
  proof (cases "mine cs (c_task c) (c_holder c)")
    case None
    with Inr show ?thesis by (simp add: claim_ingest_unknown)
  next
    case (Some x)
    have "\<exists>y. mine (fst (claim_ingest cr dec cs env)) (c_task c) (c_holder c) = Some y
        \<and> hold_rank x \<le> hold_rank y"
      unfolding claim_ingest_known [OF Inr Some]
      using Some by (auto simp: mine_insert record_of_def hold_rank_def)
    with Inr Some show ?thesis by (simp add: claim_ingest_known)
  qed
qed

section \<open>Convergence\<close>

fun claims_run :: "crypto \<Rightarrow> (bytes \<Rightarrow> claim option) \<Rightarrow> claim_set \<Rightarrow> envelope list \<Rightarrow> claim_set" where
  "claims_run cr dec cs [] = cs"
| "claims_run cr dec cs (e # es) = claims_run cr dec (fst (claim_ingest cr dec cs e)) es"

definition claim_items ::
  "crypto \<Rightarrow> (bytes \<Rightarrow> claim option) \<Rightarrow> envelope list \<Rightarrow> ((string \<times> public_id) \<times> claim_record) list" where
  "claim_items cr dec es = concat (map (\<lambda>env. case claim_check cr dec env of
      Inl _ \<Rightarrow> [] | Inr c \<Rightarrow> [((c_task c, c_holder c), record_of cr env c)]) es)"

lemma claims_run_fold: "claims_run cr dec cs es = fold claim_absorb (claim_items cr dec es) cs"
  by (induction es arbitrary: cs)
     (auto simp: claim_items_def claim_ingest_absorb split: sum.splits)

lemma set_claim_items:
  "((t, h), r) \<in> set (claim_items cr dec es) \<longleftrightarrow>
     (\<exists>env \<in> set es. \<exists>c. claim_check cr dec env = Inr c \<and> c_task c = t \<and> c_holder c = h
        \<and> r = record_of cr env c)"
  by (force simp: claim_items_def split: sum.splits)

lemma claim_itemE:
  assumes "(k, r) \<in> set (claim_items cr dec es)"
  obtains env c where "env \<in> set es" "claim_check cr dec env = Inr c"
    "k = (c_task c, c_holder c)" "r_claim r = c" "r_digest r = envelope_digest cr env"
    "r = record_of cr env c"
  using assms by (cases k) (auto simp: set_claim_items record_of_def)

text \<open>A holder signs at most one claim on a task with given acquisition and renewal.\<close>

definition holds_distinct :: "crypto \<Rightarrow> (bytes \<Rightarrow> claim option) \<Rightarrow> envelope set \<Rightarrow> bool" where
  "holds_distinct cr dec E \<longleftrightarrow>
     (\<forall>e \<in> E. \<forall>f \<in> E. \<forall>c d. claim_check cr dec e = Inr c \<and> claim_check cr dec f = Inr d
        \<and> c_task c = c_task d \<and> c_holder c = c_holder d
        \<and> c_acquired c = c_acquired d \<and> c_renewed c = c_renewed d \<longrightarrow> e = f)"

lemma claims_wf_new: "claims_wf claims_new"
  by (simp add: claims_wf_def claims_new_def)

lemma claims_wf_run: "claims_wf cs \<Longrightarrow> claims_wf (claims_run cr dec cs es)"
  by (simp add: claims_run_fold hold.ok_fold)

lemma claims_run_mine:
  assumes "set es = set fs" and "holds_distinct cr dec (set es)"
    and "inj_on (envelope_digest cr) (set es)"
  shows "mine (claims_run cr dec claims_new es) t h = mine (claims_run cr dec claims_new fs) t h"
proof -
  let ?it = "claim_items cr dec"
  have look: "claim_look claims_new k = None" for k
    by (simp add: claim_look_def claims_new_def mine_def)
  have items: "set (?it es) = set (?it fs)"
    using assms(1) by (auto simp: claim_items_def)
  have inj: "inj_on hold_rank {e. (k, e) \<in> set (?it es) \<or> claim_look claims_new k = Some e}" for k
  proof (rule inj_onI)
    fix x y
    assume xy: "x \<in> {e. (k, e) \<in> set (?it es) \<or> claim_look claims_new k = Some e}"
      "y \<in> {e. (k, e) \<in> set (?it es) \<or> claim_look claims_new k = Some e}" "hold_rank x = hold_rank y"
    from xy(1) have "(k, x) \<in> set (?it es)" by (simp add: look)
    then obtain e c where e: "e \<in> set es" "claim_check cr dec e = Inr c"
      "k = (c_task c, c_holder c)" "r_claim x = c" "x = record_of cr e c" by (rule claim_itemE)
    from xy(2) have "(k, y) \<in> set (?it es)" by (simp add: look)
    then obtain f d where f: "f \<in> set es" "claim_check cr dec f = Inr d"
      "k = (c_task d, c_holder d)" "r_claim y = d" "y = record_of cr f d" by (rule claim_itemE)
    from e f xy(3) have "e = f"
      using assms(2) unfolding holds_distinct_def hold_rank_def by blast
    with e f show "x = y" by simp
  qed
  have same: "hold_rank x = hold_rank y"
    if "(k, x) \<in> set (?it es)" "(k, y) \<in> set (?it es)" "hold_dup x y" for k x y
    using that(1)
  proof (rule claim_itemE)
    fix e c
    assume e: "e \<in> set es" "claim_check cr dec e = Inr c" "r_digest x = envelope_digest cr e"
      "x = record_of cr e c"
    from that(2) obtain f d where f: "f \<in> set es" "claim_check cr dec f = Inr d"
      "r_digest y = envelope_digest cr f" "y = record_of cr f d" by (rule claim_itemE)
    from e f that(3) assms(3) have "e = f" by (simp add: hold_dup_def inj_on_def)
    with e f show ?thesis by simp
  qed
  have cons: "hold.consistent {e. (k, e) \<in> set (?it es) \<or> claim_look claims_new k = Some e}" for k
    using same [of k] by (fastforce simp: hold.consistent_def look)
  from hold.store_convergence [OF claims_wf_new claims_wf_new _ inj cons, of "?it fs" "(t, h)"] items
  show ?thesis by (simp add: look claims_run_fold claim_look_def)
qed

lemma claims_run_records:
  assumes "mine (claims_run cr dec claims_new es) t h = Some r"
  shows "\<exists>env \<in> set es. \<exists>c. claim_check cr dec env = Inr c \<and> r = record_of cr env c"
proof -
  have "foldl (\<lambda>c e. Some (hold_join c e)) None
      (map snd (filter (\<lambda>i. fst i = (t, h)) (claim_items cr dec es))) = Some r"
    using assms hold.look_fold [OF claims_wf_new, of "claim_items cr dec es" "(t, h)"]
    by (simp add: claims_run_fold claim_look_def claims_new_def mine_def)
  from hold.fold_join_mem [OF this] have "r \<in> snd ` set (claim_items cr dec es)" by auto
  then obtain k where "(k, r) \<in> set (claim_items cr dec es)" by auto
  then show ?thesis by (cases k) (auto simp: set_claim_items)
qed



section \<open>Releases and garbage collection\<close>

text \<open>
  C38: a release is forgotten by the next collection.  However long the horizon,
  the record of a released hold is dropped; a copy of the superseded, unreleased
  claim that arrives afterwards is accepted again, and until it expires the task
  counts as held.
\<close>

theorem gc_forgets_release:
  assumes "claims_wf cs" and "mine cs (c_task c) (c_holder c) = Some r"
    and "c_released (r_claim r)"
    and "claim_check cr dec env = Inr c"
    and "c_acquired c = c_acquired (r_claim r)" and "c_renewed c < c_renewed (r_claim r)"
    and "claim_live c now"
  shows "snd (claim_ingest cr dec cs env) = Inr Stale
    \<and> snd (claim_ingest cr dec (fst (claims_gc cs now horizon)) env) = Inr Changed
    \<and> \<not> open_for_claim (fst (claim_ingest cr dec (fst (claims_gc cs now horizon)) env)) (c_task c) now"
proof -
  let ?g = "fst (claims_gc cs now horizon)" and ?r = "record_of cr env c"
  have none: "mine ?g (c_task c) (c_holder c) = None"
    using assms(1-3) by (simp add: mine_gc gc_keep_def)
  then have ing: "claim_ingest cr dec ?g env = (claim_insert ?g (c_task c) (c_holder c) ?r, Inr Changed)"
    using assms(4) by (rule claim_ingest_unknown [rotated])
  have "claims_wf (claim_insert ?g (c_task c) (c_holder c) ?r)"
    by (rule claims_wf_insert [OF claims_wf_gc [OF assms(1)]])
  moreover have "?r \<in> live_records (claim_insert ?g (c_task c) (c_holder c) ?r) (c_task c) now"
    using assms(7) by (auto simp: live_records_def mine_insert record_of_def)
  ultimately have "\<not> open_for_claim (claim_insert ?g (c_task c) (c_holder c) ?r) (c_task c) now"
    using cmin.fold_join_None_iff set_live_list
    by (metis empty_iff empty_set open_for_claim_def winner_list)
  moreover have "snd (claim_ingest cr dec cs env) = Inr Stale"
    using assms(5,6) by (auto simp: claim_ingest_known [OF assms(4,2)] hold_rank_def)
  ultimately show ?thesis using ing by simp
qed

theorem gc_forgets_release_witness:
  "let cs = fst (claim_ingest demo_crypto demo_claim_dec claims_new (demo_env 1 5 8 1))
   in claims_wf cs \<and> claim_live (demo_claim 1 5 7 0) 9 \<and>
      snd (claim_ingest demo_crypto demo_claim_dec (fst (claims_gc cs 9 1000000)) (demo_env 1 5 7 0)) = Inr Changed"
proof -
  let ?cs = "fst (claim_ingest demo_crypto demo_claim_dec claims_new (demo_env 1 5 8 1))"
  have cs: "?cs = \<lparr>tasks = [(''job'', [([1], record_of demo_crypto (demo_env 1 5 8 1) (demo_claim 1 5 8 1))])]\<rparr>"
    by (simp add: claim_ingest_def demo_claim_check claim_fold_def claims_new_def per_task_def
          claim_insert_def demo_claim_def)
  have wf: "claims_wf ?cs" by (simp add: cs claims_wf_def hm_ok_def)
  have live: "claim_live (demo_claim 1 5 7 0) 9"
    by (simp add: demo_claim_def claim_live_def claim_expires_at_ms_def sat_add_def SKEW_SLACK_MS_def)
  have "snd (claim_ingest demo_crypto demo_claim_dec (fst (claims_gc ?cs 9 1000000)) (demo_env 1 5 7 0)) = Inr Changed"
    using gc_forgets_release [OF wf _ _ demo_claim_check [of 5 7 1 0] _ _ live,
        of "record_of demo_crypto (demo_env 1 5 8 1) (demo_claim 1 5 8 1)" 1000000]
    by (simp add: cs mine_def record_of_def demo_claim_def less_hlc_def)
  with wf live show ?thesis by (simp only: Let_def simp_thms)
qed

end
