(* ===== verification/Cron_Expr.thy ===== *)
theory Cron_Expr
  imports Rf_Str "HOL-Library.Signed_Division"
begin

unbundle bit_operations_syntax

text \<open>
  The cron expressions of \<^verbatim>\<open>crates/rf-core/src/cron.rs\<close>: parsing five fields into
  bit masks, the civil calendar, and the test whether an expression fires at a
  Unix time.  The masks keep the widths of the code; the error messages are the
  values of \<open>cron_error\<close>.
\<close>

datatype cron_error =
    BadStep string
  | ZeroStep string
  | BadRange string
  | BadValue string
  | OutOfRange string nat nat
  | EmptyField string
  | FieldCount nat string

record cron_expr =
  c_minute :: u64
  c_hour :: u32
  c_dom :: u32
  c_month :: u16
  c_dow :: u8
  dom_star :: bool
  dow_star :: bool

section \<open>Fields\<close>

text \<open>
  The loop that sets every \<open>step\<close>-th bit, with the 32-bit addition that may
  wrap.  The bound \<open>hi < 64\<close> holds at every call, since \<open>hi\<close> has been compared
  with a field's maximum, and so does \<open>step \<noteq> 0\<close>.
\<close>

function step_mask :: "u32 \<Rightarrow> u32 \<Rightarrow> u32 \<Rightarrow> u64 \<Rightarrow> u64" where
  "step_mask v hi step acc =
     (if v \<le> hi \<and> hi < 64 \<and> step \<noteq> 0
      then step_mask (v + step) hi step (acc OR push_bit (unat v) 1)
      else acc)"
  by pat_completeness auto

text \<open>
  The loop ends for every step: a step that can wrap from below 64 to below 64
  counts down, any other counts up.
\<close>

definition step_gap :: "u32 \<Rightarrow> u32 \<Rightarrow> u32 \<Rightarrow> nat" where
  "step_gap v hi step =
     (if unat step < 2 ^ 32 - 64 then 64 - unat v
      else if v < 64 then unat v + 1 else 0)"

lemma unat_add_u32: "unat (v + step :: u32) = (unat v + unat step) mod 2 ^ 32"
  by (simp add: unat_word_ariths)

lemma step_gap_less:
  fixes v hi step :: u32
  assumes "v \<le> hi" "hi < 64" "step \<noteq> 0"
  shows "step_gap (v + step) hi step < step_gap v hi step"
proof -
  have v: "unat v < 64" using assms(1,2) by (simp add: word_le_nat_alt word_less_nat_alt)
  have s: "0 < unat step" "unat step < 2 ^ 32"
    using assms(3) unsigned_less [of step] by (auto simp: unat_gt_0)
  show ?thesis
  proof (cases "unat step < 2 ^ 32 - 64")
    case True
    then have "unat (v + step) = unat v + unat step" using v by (simp add: unat_add_u32)
    with True s v show ?thesis by (simp add: step_gap_def)
  next
    case False
    show ?thesis
    proof (cases "unat v + unat step < 2 ^ 32")
      case True
      then have "unat (v + step) = unat v + unat step" by (simp add: unat_add_u32)
      with False v show ?thesis by (simp add: step_gap_def word_less_nat_alt)
    next
      case wrap: False
      then have "unat (v + step) = unat v + unat step - 2 ^ 32"
        using v s by (simp add: unat_add_u32 mod_if)
      then have "unat (v + step) < unat v" using s wrap by linarith
      with False v show ?thesis by (simp add: step_gap_def word_less_nat_alt)
    qed
  qed
qed

termination step_mask
  by (relation "measure (\<lambda>(v, hi, step, _). step_gap v hi step)") (auto simp: step_gap_less)

declare step_mask.simps [simp del]

text \<open>One comma-separated part: its range and step.\<close>

definition part_step :: "string \<Rightarrow> cron_error + (string \<times> nat)" where
  "part_step part =
     (case split_once CHR ''/'' part of
        Some (r, s) \<Rightarrow>
          (case parse_uint (2 ^ 32) s of
             None \<Rightarrow> Inl (BadStep part)
           | Some n \<Rightarrow> if n = 0 then Inl (ZeroStep part) else Inr (r, n))
      | None \<Rightarrow> Inr (part, 1))"

definition part_range :: "string \<Rightarrow> string \<Rightarrow> nat \<Rightarrow> nat \<Rightarrow> cron_error + (nat \<times> nat)" where
  "part_range part rng mn mx =
     (if rng = ''*'' then Inr (mn, mx)
      else case split_once CHR ''-'' rng of
        Some (a, b) \<Rightarrow>
          (case (parse_uint (2 ^ 32) a, parse_uint (2 ^ 32) b) of
             (Some lo, Some hi) \<Rightarrow> Inr (lo, hi)
           | _ \<Rightarrow> Inl (BadRange part))
      | None \<Rightarrow>
          (case parse_uint (2 ^ 32) rng of
             None \<Rightarrow> Inl (BadValue rng)
           | Some v \<Rightarrow> Inr (v, v)))"

definition parse_part :: "string \<Rightarrow> nat \<Rightarrow> nat \<Rightarrow> cron_error + (nat \<times> nat \<times> nat)" where
  "parse_part part mn mx =
     (case part_step part of
        Inl e \<Rightarrow> Inl e
      | Inr (rng, step) \<Rightarrow>
          (case part_range part rng mn mx of
             Inl e \<Rightarrow> Inl e
           | Inr (lo, hi) \<Rightarrow>
               if lo < mn \<or> hi > mx \<or> lo > hi then Inl (OutOfRange part mn mx)
               else Inr (lo, hi, step)))"

fun parse_parts :: "string list \<Rightarrow> nat \<Rightarrow> nat \<Rightarrow> u64 \<Rightarrow> cron_error + u64" where
  "parse_parts [] mn mx acc = Inr acc"
| "parse_parts (part # ps) mn mx acc =
     (case parse_part part mn mx of
        Inl e \<Rightarrow> Inl e
      | Inr (lo, hi, step) \<Rightarrow>
          parse_parts ps mn mx (step_mask (of_nat lo) (of_nat hi) (of_nat step) acc))"

definition is_star :: "string \<Rightarrow> bool" where
  "is_star field = (field = ''*'' \<or> starts_with field ''*/'' \<and> CHR '','' \<notin> set field)"

definition parse_field :: "string \<Rightarrow> nat \<Rightarrow> nat \<Rightarrow> cron_error + (u64 \<times> bool)" where
  "parse_field field mn mx =
     (case parse_parts (split CHR '','' field) mn mx 0 of
        Inl e \<Rightarrow> Inl e
      | Inr acc \<Rightarrow> if acc = 0 then Inl (EmptyField field) else Inr (acc, is_star field))"

definition cron_parse :: "string \<Rightarrow> cron_error + cron_expr" where
  "cron_parse s =
     (case split_whitespace s of
        [f0, f1, f2, f3, f4] \<Rightarrow>
          (case parse_field f0 0 59 of Inl e \<Rightarrow> Inl e | Inr (minute, _) \<Rightarrow>
          (case parse_field f1 0 23 of Inl e \<Rightarrow> Inl e | Inr (hour, _) \<Rightarrow>
          (case parse_field f2 1 31 of Inl e \<Rightarrow> Inl e | Inr (doms, dom_st) \<Rightarrow>
          (case parse_field f3 1 12 of Inl e \<Rightarrow> Inl e | Inr (month, _) \<Rightarrow>
          (case parse_field (replace_char CHR ''7'' CHR ''0'' f4) 0 6 of Inl e \<Rightarrow> Inl e | Inr (dow, dow_st) \<Rightarrow>
             Inr \<lparr>c_minute = minute, c_hour = ucast hour, c_dom = ucast doms, c_month = ucast month,
                  c_dow = ucast dow, dom_star = dom_st, dow_star = dow_st\<rparr>)))))
      | fs \<Rightarrow> Inl (FieldCount (length fs) s))"

section \<open>The calendar\<close>

text \<open>
  \<open>civil\<close>: year, month, day and weekday (0 = Sunday) of a day number since
  1970-01-01.  Rust's \<open>/\<close> truncates, hence \<open>sdiv\<close>.
\<close>

definition civil :: "int \<Rightarrow> int \<times> int \<times> int \<times> int" where
  "civil days =
     (let dow = (days mod 7 + 4) mod 7;
          z = days + 719468;
          era = (if z \<ge> 0 then z else z - 146096) sdiv 146097;
          doe = z - era * 146097;
          yoe = (doe - doe sdiv 1460 + doe sdiv 36524 - doe sdiv 146096) sdiv 365;
          y = yoe + era * 400;
          doy = doe - (365 * yoe + yoe sdiv 4 - yoe sdiv 100);
          mp = (5 * doy + 2) sdiv 153;
          d = doy - (153 * mp + 2) sdiv 5 + 1;
          m = (if mp < 10 then mp + 3 else mp - 9);
          y' = (if m \<le> 2 then y + 1 else y)
      in (y', m, d, dow))"

section \<open>Firing\<close>

definition cron_matches :: "cron_expr \<Rightarrow> u64 \<Rightarrow> bool" where
  "cron_matches e epoch_secs =
     (let minutes = unat epoch_secs div 60;
          minute = minutes mod 60;
          hour = (minutes div 60) mod 24;
          days = int (minutes div 60 div 24);
          (_, month, day, dow) = civil days
      in if c_minute e AND push_bit minute 1 = 0 then False
         else if c_hour e AND push_bit hour 1 = 0 then False
         else if c_month e AND push_bit (nat month) 1 = 0 then False
         else
           (let dom_hit = (c_dom e AND push_bit (nat day) 1 \<noteq> 0);
                dow_hit = (c_dow e AND push_bit (nat dow) 1 \<noteq> 0)
            in case (dom_star e, dow_star e) of
                 (True, True) \<Rightarrow> True
               | (False, True) \<Rightarrow> dom_hit
               | (True, False) \<Rightarrow> dow_hit
               | (False, False) \<Rightarrow> dom_hit \<or> dow_hit))"

section \<open>Masks\<close>

text \<open>The values a part selects, and those a field selects.\<close>

definition part_values :: "nat \<times> nat \<times> nat \<Rightarrow> nat set" where
  "part_values = (\<lambda>(lo, hi, step). {v. lo \<le> v \<and> v \<le> hi \<and> step dvd v - lo})"

definition field_values :: "string \<Rightarrow> nat \<Rightarrow> nat \<Rightarrow> nat set" where
  "field_values field mn mx =
     {v. \<exists>part \<in> set (split CHR '','' field). \<exists>p. parse_part part mn mx = Inr p \<and> v \<in> part_values p}"

text \<open>No step of the field is large enough for the 32-bit counter to wrap.\<close>

definition steps_small :: "string \<Rightarrow> nat \<Rightarrow> nat \<Rightarrow> bool" where
  "steps_small field mn mx \<longleftrightarrow>
     (\<forall>part \<in> set (split CHR '','' field). \<forall>lo hi step.
        parse_part part mn mx = Inr (lo, hi, step) \<longrightarrow> step < 2 ^ 31)"

lemma bit_step_mask:
  assumes "hi < 64" "0 < step" "step < 2 ^ 31" "lo < 2 ^ 31 + 64"
  shows "bit (step_mask (of_nat lo) (of_nat hi) (of_nat step) acc) n \<longleftrightarrow>
    bit acc n \<or> (n < 64 \<and> n \<in> part_values (lo, hi, step))"
  using assms(4)
proof (induction "2 ^ 32 - lo" arbitrary: lo acc rule: less_induct)
  case less
  have nats: "unat (of_nat lo :: u32) = lo" "unat (of_nat hi :: u32) = hi" "unat (of_nat step :: u32) = step"
    using less.prems assms by (simp_all add: unat_of_nat)
  have ne: "(of_nat step :: u32) \<noteq> 0" using nats(3) assms(2) by (metis unat_0 less_irrefl)
  have add: "(of_nat lo :: u32) + of_nat step = of_nat (lo + step)" by simp
  show ?case
  proof (cases "lo \<le> hi")
    case False
    then have "step_mask (of_nat lo) (of_nat hi) (of_nat step) acc = acc"
      by (subst step_mask.simps) (simp add: word_le_nat_alt nats)
    with False show ?thesis by (auto simp: part_values_def)
  next
    case True
    then have run: "step_mask (of_nat lo) (of_nat hi) (of_nat step) acc
        = step_mask (of_nat (lo + step)) (of_nat hi) (of_nat step) (acc OR push_bit lo 1)"
      using assms(1) ne by (subst step_mask.simps) (simp add: word_le_nat_alt word_less_nat_alt nats)
    have b: "lo < 64" using True assms(1) by simp
    have IH: "bit (step_mask (of_nat (lo + step)) (of_nat hi) (of_nat step) (acc OR push_bit lo 1)) n \<longleftrightarrow>
        bit (acc OR push_bit lo 1 :: u64) n \<or> (n < 64 \<and> n \<in> part_values (lo + step, hi, step))"
      using b assms by (intro less.hyps) simp_all
    have p: "n \<in> part_values (lo, hi, step) \<longleftrightarrow> n = lo \<or> n \<in> part_values (lo + step, hi, step)"
    proof
      assume "n \<in> part_values (lo, hi, step)"
      then have n: "lo \<le> n" "n \<le> hi" "step dvd n - lo" by (auto simp: part_values_def)
      show "n = lo \<or> n \<in> part_values (lo + step, hi, step)"
      proof (cases "n = lo")
        case False
        with n have "step \<le> n - lo" by (intro dvd_imp_le) auto
        with n have "step dvd n - (lo + step)" by (metis dvd_diff_nat diff_diff_left dvd_refl)
        moreover have "lo + step \<le> n" using n(1) \<open>step \<le> n - lo\<close> by linarith
        ultimately show ?thesis using n(2) by (simp add: part_values_def)
      qed simp
    next
      assume "n = lo \<or> n \<in> part_values (lo + step, hi, step)"
      then show "n \<in> part_values (lo, hi, step)"
      proof
        assume "n \<in> part_values (lo + step, hi, step)"
        then have n: "lo + step \<le> n" "n \<le> hi" "step dvd n - (lo + step)" by (auto simp: part_values_def)
        have "step dvd (n - (lo + step)) + step" by (rule dvd_add [OF n(3) dvd_refl])
        also have "(n - (lo + step)) + step = n - lo" using n(1) by linarith
        finally show ?thesis using n by (simp add: part_values_def)
      qed (use True in \<open>simp add: part_values_def\<close>)
    qed
    show ?thesis
      unfolding run IH p using b by (auto simp: bit_or_iff bit_exp_iff)
  qed
qed

lemma parse_part_bounds:
  "parse_part part mn mx = Inr (lo, hi, step) \<Longrightarrow> mn \<le> lo \<and> lo \<le> hi \<and> hi \<le> mx \<and> 0 < step"
  by (auto simp: parse_part_def part_step_def split: sum.splits option.splits prod.splits if_splits)

lemma bit_parse_parts:
  assumes "parse_parts ps mn mx acc = Inr r" and "mx < 64"
    and "\<And>part lo hi step. part \<in> set ps \<Longrightarrow> parse_part part mn mx = Inr (lo, hi, step) \<Longrightarrow> step < 2 ^ 31"
  shows "bit r n \<longleftrightarrow> bit acc n \<or>
    (\<exists>part \<in> set ps. \<exists>p. parse_part part mn mx = Inr p \<and> n \<in> part_values p)"
  using assms
proof (induction ps arbitrary: acc)
  case (Cons part ps)
  from Cons.prems(1) obtain lo hi step where p: "parse_part part mn mx = Inr (lo, hi, step)"
    and r: "parse_parts ps mn mx (step_mask (of_nat lo) (of_nat hi) (of_nat step) acc) = Inr r"
    by (auto split: sum.splits)
  note b = parse_part_bounds [OF p]
  have s: "step < 2 ^ 31" using Cons.prems(3) [OF _ p] by simp
  have hi: "hi < 64" and lo: "lo < 2 ^ 31 + 64" using b Cons.prems(2) by simp_all
  have lt: "n < 64" if "n \<in> part_values (lo, hi, step)" using that hi by (simp add: part_values_def)
  have "\<And>part lo hi step. part \<in> set ps \<Longrightarrow> parse_part part mn mx = Inr (lo, hi, step) \<Longrightarrow> step < 2 ^ 31"
    by (rule Cons.prems(3)) auto
  from Cons.IH [OF r Cons.prems(2) this]
  have "bit r n \<longleftrightarrow> bit (step_mask (of_nat lo) (of_nat hi) (of_nat step) acc) n \<or>
    (\<exists>part \<in> set ps. \<exists>p. parse_part part mn mx = Inr p \<and> n \<in> part_values p)" .
  also have "\<dots> \<longleftrightarrow> bit acc n \<or>
    (\<exists>part \<in> set (part # ps). \<exists>p. parse_part part mn mx = Inr p \<and> n \<in> part_values p)"
    using bit_step_mask [OF hi _ s lo, of acc n] b lt p by auto
  finally show ?case .
qed simp

lemma parse_field_values:
  assumes "parse_field field mn mx = Inr (acc, st)" and "mx < 64" and "steps_small field mn mx"
  shows "bit acc n \<longleftrightarrow> n \<in> field_values field mn mx" and "st = is_star field"
proof -
  from assms(1) have "parse_parts (split CHR '','' field) mn mx 0 = Inr acc" and st: "st = is_star field"
    by (auto simp: parse_field_def split: sum.splits if_splits)
  from bit_parse_parts [OF this(1) assms(2), of n] assms(3)
  show "bit acc n \<longleftrightarrow> n \<in> field_values field mn mx"
    by (simp add: field_values_def steps_small_def)
  show "st = is_star field" by (fact st)
qed

lemma field_values_bounds: "n \<in> field_values field mn mx \<Longrightarrow> mn \<le> n \<and> n \<le> mx"
  by (auto simp: field_values_def part_values_def dest!: parse_part_bounds)

lemma and_push_bit_zero:
  "n < LENGTH('a) \<Longrightarrow> (w :: 'a::len word) AND push_bit n 1 = 0 \<longleftrightarrow> \<not> bit w n"
  by (simp add: and_exp_eq_0_iff_not_bit)

section \<open>Examples\<close>

lemmas cron_eval = parse_field_def parse_part_def part_step_def part_range_def parse_uint_def
  digits_val_def digit_val_def is_ascii_digit_def Let_def is_star_def starts_with_simps replace_char_def

lemma step_mask_examples:
  "step_mask 30 30 1 0 = 2 ^ 30" "step_mask 9 17 4 0 = 2 ^ 9 + 2 ^ 13 + 2 ^ 17"
  "step_mask 1 31 1 0 = 2 ^ 32 - 2" "step_mask 1 31 2 0 = 0xAAAAAAAA" "step_mask 1 12 1 0 = 2 ^ 13 - 2"
  "step_mask 1 1 1 0 = 2" "step_mask 0 0 1 0 = 1" "step_mask 0 6 1 0 = 127"
  by code_simp+

lemma alias_examples:
  "replace_char CHR ''7'' CHR ''0'' ''1'' = ''1''" "replace_char CHR ''7'' CHR ''0'' ''*'' = ''*''"
  "replace_char CHR ''7'' CHR ''0'' ''5-7'' = ''5-0''" "replace_char CHR ''7'' CHR ''0'' ''*/7'' = ''*/0''"
  by code_simp+

lemma ws_examples:
  "split_whitespace ''30 9-17/4 * * 1'' = [''30'', ''9-17/4'', ''*'', ''*'', ''1'']"
  "split_whitespace ''0 0 */2 * *'' = [''0'', ''0'', ''*/2'', ''*'', ''*'']"
  "split_whitespace ''0 0 * * 5-7'' = [''0'', ''0'', ''*'', ''*'', ''5-7'']"
  "split_whitespace ''0 0 * * */7'' = [''0'', ''0'', ''*'', ''*'', ''*/7'']"
  by code_simp+

lemma field_examples:
  "parse_field ''30'' 0 59 = Inr (2 ^ 30, False)"
  "parse_field ''9-17/4'' 0 23 = Inr (2 ^ 9 + 2 ^ 13 + 2 ^ 17, False)"
  "parse_field ''*'' (Suc 0) 31 = Inr (2 ^ 32 - 2, True)" "parse_field ''*'' (Suc 0) 12 = Inr (2 ^ 13 - 2, True)"
  "parse_field ''1'' 0 6 = Inr (2, False)" "parse_field ''0'' 0 59 = Inr (1, False)"
  "parse_field ''0'' 0 23 = Inr (1, False)" "parse_field ''*/2'' (Suc 0) 31 = Inr (0xAAAAAAAA, True)"
  "parse_field ''*'' 0 6 = Inr (127, True)"
  "parse_field ''5-0'' 0 6 = Inl (OutOfRange ''5-0'' 0 6)"
  "parse_field ''*/0'' 0 6 = Inl (ZeroStep ''*/0'')"
  by (simp_all add: cron_eval step_mask_examples)

lemma steps_examples:
  "steps_small ''30'' 0 59" "steps_small ''9-17/4'' 0 23" "steps_small ''*'' 1 31"
  "steps_small ''*'' 1 12" "steps_small ''1'' 0 6" "steps_small ''0'' 0 59" "steps_small ''0'' 0 23"
  "steps_small ''*/2'' 1 31" "steps_small ''*'' 0 6"
  by (simp_all add: steps_small_def cron_eval)

definition demo_cron :: cron_expr where
  "demo_cron = \<lparr>c_minute = 2 ^ 30, c_hour = 2 ^ 9 + 2 ^ 13 + 2 ^ 17, c_dom = 2 ^ 32 - 2,
     c_month = 2 ^ 13 - 2, c_dow = 2, dom_star = True, dow_star = False\<rparr>"

definition every_other_day :: cron_expr where
  "every_other_day = \<lparr>c_minute = 1, c_hour = 1, c_dom = 0xAAAAAAAA, c_month = 2 ^ 13 - 2,
     c_dow = 127, dom_star = True, dow_star = True\<rparr>"

lemma parse_examples:
  "cron_parse ''30 9-17/4 * * 1'' = Inr demo_cron"
  "cron_parse ''0 0 */2 * *'' = Inr every_other_day"
  "cron_parse ''0 0 * * 5-7'' = Inl (OutOfRange ''5-0'' 0 6)"
  "cron_parse ''0 0 * * */7'' = Inl (ZeroStep ''*/0'')"
  unfolding cron_parse_def ws_examples demo_cron_def every_other_day_def
  by (simp_all add: field_examples alias_examples)

lemma civil_example: "civil (int (unat (1704720600 :: u64) div 60 div 60 div 24)) = (2024, 1, 8, 1)"
  by (simp add: civil_def Let_def)

lemma demo_cron_hit: "cron_matches demo_cron 1704720600"
  unfolding cron_matches_def Let_def civil_example prod.case demo_cron_def by simp

section \<open>The calendar is the Gregorian one\<close>

definition leap :: "int \<Rightarrow> bool" where
  "leap y \<longleftrightarrow> y mod 4 = 0 \<and> (y mod 100 \<noteq> 0 \<or> y mod 400 = 0)"

definition month_days :: "int \<Rightarrow> int \<Rightarrow> int" where
  "month_days y m =
     (if m = 2 then (if leap y then 29 else 28) else if m \<in> {4, 6, 9, 11} then 30 else 31)"

text \<open>The day after a date, by the rules of the Gregorian calendar.\<close>

definition next_day :: "int \<times> int \<times> int \<times> int \<Rightarrow> int \<times> int \<times> int \<times> int" where
  "next_day = (\<lambda>(y, m, d, w).
     (if d < month_days y m then (y, m, d + 1, (w + 1) mod 7)
      else if m < 12 then (y, m + 1, 1, (w + 1) mod 7)
      else (y + 1, 1, 1, (w + 1) mod 7)))"

text \<open>Day of the era on which the March-based year \<open>y\<close> of an era begins.\<close>

definition year_start :: "int \<Rightarrow> int" where
  "year_start y = 365 * y + y div 4 - y div 100"

definition yoe_num :: "int \<Rightarrow> int" where
  "yoe_num doe = doe - doe div 1460 + doe div 36524 - doe div 146096"

lemma div_succ: "0 < k \<Longrightarrow> (x + 1) div k = x div k + (if k dvd x + 1 then 1 else 0)" for x k :: int
proof (cases "k dvd x + 1")
  case True
  assume k: "0 < k"
  from True obtain q where q: "x + 1 = k * q" by (elim dvdE)
  with k have "x div k = q - 1" by (intro int_div_pos_eq [where r = "k - 1"]) (auto simp: algebra_simps)
  with q k True show ?thesis by simp
next
  case False
  assume k: "0 < k"
  have "x mod k + 1 \<noteq> k"
  proof
    assume "x mod k + 1 = k"
    then have "x + 1 = k * (x div k) + k" using mult_div_mod_eq [of k x] by linarith
    then have "x + 1 = k * (x div k + 1)" by (simp add: algebra_simps)
    with False show False by simp
  qed
  with k have "x mod k + 1 < k" using pos_mod_bound [of k x] by linarith
  then have "(x + 1) div k = x div k"
    using k by (intro int_div_pos_eq [where r = "x mod k + 1"]) (auto simp: algebra_simps)
  with False show ?thesis by simp
qed

lemma yoe_num_step: "yoe_num x \<le> yoe_num (x + 1)"
proof -
  have "36524 dvd x + 1" if "146096 dvd x + 1" using that by (rule dvd_trans [rotated]) simp
  then show ?thesis by (simp add: yoe_num_def div_succ)
qed

lemma yoe_num_mono: "a \<le> b \<Longrightarrow> yoe_num a \<le> yoe_num b"
  by (induction b rule: int_ge_induct) (auto intro: order_trans yoe_num_step)

definition year_end :: "int \<Rightarrow> int" where
  "year_end y = (if y = 399 then 146096 else year_start (y + 1) - 1)"

text \<open>The closed formula for the year of the era is right at both ends of every year.\<close>

lemma year_ends:
  "list_all (\<lambda>y. 365 * y \<le> yoe_num (year_start y) \<and> yoe_num (year_end y) < 365 * (y + 1)
      \<and> year_end y - year_start y = (if leap (y + 1) then 365 else 364)) [0..399]"
  by code_simp

lemma year_endsD:
  assumes "0 \<le> y" "y \<le> 399"
  shows "365 * y \<le> yoe_num (year_start y)" and "yoe_num (year_end y) < 365 * (y + 1)"
    and "year_end y - year_start y = (if leap (y + 1) then 365 else 364)"
  using year_ends assms by (simp_all only: list_all_iff set_upto) auto

lemma yoe_unique:
  assumes "0 \<le> y" "y \<le> 399" "year_start y \<le> doe" "doe \<le> year_end y"
  shows "yoe_num doe div 365 = y"
  using year_endsD [OF assms(1,2)] yoe_num_mono [OF assms(3)] yoe_num_mono [OF assms(4)]
  by (intro int_div_pos_eq [where r = "yoe_num doe - 365 * y"]) auto

lemma year_of_doe:
  assumes "0 \<le> doe" "doe \<le> year_end (int n)" "n \<le> 399"
  shows "\<exists>y. 0 \<le> y \<and> y \<le> int n \<and> year_start y \<le> doe \<and> doe \<le> year_end y"
  using assms
proof (induction n)
  case 0
  then show ?case by (intro exI [of _ 0]) (simp add: year_start_def)
next
  case (Suc n)
  show ?case
  proof (cases "doe \<le> year_end (int n)")
    case True
    with Suc obtain y where "0 \<le> y \<and> y \<le> int n \<and> year_start y \<le> doe \<and> doe \<le> year_end y" by auto
    then show ?thesis by (intro exI [of _ y]) auto
  next
    case False
    with Suc.prems(3) have "year_start (int (Suc n)) \<le> doe" by (simp add: year_end_def add.commute)
    with Suc.prems(2) show ?thesis by (intro exI [of _ "int (Suc n)"]) simp
  qed
qed

text \<open>Month and day from the day of a March-based year.\<close>

definition month_day :: "int \<Rightarrow> int \<times> int" where
  "month_day doy =
     (let mp = (5 * doy + 2) div 153
      in (if mp < 10 then mp + 3 else mp - 9, doy - (153 * mp + 2) div 5 + 1))"

lemma month_day_steps:
  "list_all (\<lambda>doy. let (m, d) = month_day doy in
      month_day (doy + 1) =
        (if d < (if m = 2 then 29 else month_days 0 m) then (m, d + 1)
         else if m < 12 then (m + 1, 1) else (1, 1)) \<and> (m = 2 \<and> d \<ge> 28 \<longrightarrow> doy = 364)
      \<and> 1 \<le> m \<and> m \<le> 12 \<and> 1 \<le> d \<and> d \<le> 31) [0..364]"
  by code_simp

lemma sdiv_floor [simp]: "0 \<le> a \<Longrightarrow> 0 < k \<Longrightarrow> a sdiv k = a div k" for a k :: int
  by (cases "a = 0") (simp_all add: signed_divide_int_def)

lemma era_floor: "(if z \<ge> 0 then z else z - 146096) sdiv 146097 = z div 146097" for z :: int
proof (cases "z \<ge> 0")
  case False
  have "(146096 - z) div 146097 = - (z div 146097)"
    using pos_mod_bound [of 146097 z] pos_mod_sign [of 146097 z] mult_div_mod_eq [of 146097 z]
    by (intro int_div_pos_eq [where r = "146096 - z mod 146097"]) linarith+
  with False show ?thesis by (simp add: signed_divide_int_def)
qed simp

text \<open>The date of day \<open>doe\<close> of an era.\<close>

definition era_date :: "int \<Rightarrow> int \<Rightarrow> int \<times> int \<times> int" where
  "era_date era doe =
     (let y = yoe_num doe div 365; (m, d) = month_day (doe - year_start y)
      in (if m \<le> 2 then y + era * 400 + 1 else y + era * 400, m, d))"

lemma doe_year:
  assumes "0 \<le> doe" "doe \<le> 146096"
  shows "0 \<le> yoe_num doe div 365 \<and> yoe_num doe div 365 \<le> 399
    \<and> year_start (yoe_num doe div 365) \<le> doe \<and> doe \<le> year_end (yoe_num doe div 365)"
proof -
  have "year_end (int 399) = 146096" by (simp add: year_end_def)
  with year_of_doe [of doe 399] assms
  obtain y where "0 \<le> y \<and> y \<le> 399 \<and> year_start y \<le> doe \<and> doe \<le> year_end y" by auto
  with yoe_unique [of y doe] show ?thesis by auto
qed

lemma date_of_doe:
  assumes "0 \<le> doe" "doe \<le> 146096"
  shows "(let yoe = (doe - doe sdiv 1460 + doe sdiv 36524 - doe sdiv 146096) sdiv 365;
          y = yoe + era * 400;
          doy = doe - (365 * yoe + yoe sdiv 4 - yoe sdiv 100);
          mp = (5 * doy + 2) sdiv 153;
          d = doy - (153 * mp + 2) sdiv 5 + 1;
          m = (if mp < 10 then mp + 3 else mp - 9)
      in (if m \<le> 2 then y + 1 else y, m, d)) = era_date era doe"
proof -
  define y where "y = yoe_num doe div 365"
  have y: "0 \<le> y" "year_start y \<le> doe" using doe_year [OF assms] by (simp_all add: y_def)
  have "0 \<le> yoe_num doe" using yoe_num_mono [OF assms(1)] by (simp add: yoe_num_def)
  then have yoe: "(doe - doe sdiv 1460 + doe sdiv 36524 - doe sdiv 146096) sdiv 365 = y"
    using assms(1) by (simp add: y_def yoe_num_def)
  define doy where "doy = doe - year_start y"
  have doy: "0 \<le> doy" "doe - (365 * y + y sdiv 4 - y sdiv 100) = doy"
    using y by (simp_all add: doy_def year_start_def)
  define mp where "mp = (5 * doy + 2) div 153"
  have mp: "0 \<le> mp" "(5 * doy + 2) sdiv 153 = mp" "(153 * mp + 2) sdiv 5 = (153 * mp + 2) div 5"
    using doy(1) by (simp_all add: mp_def)
  show ?thesis
    unfolding Let_def yoe doy(2) mp(2,3) era_date_def month_day_def
      y_def [symmetric] doy_def [symmetric] mp_def [symmetric] prod.case by (rule refl)
qed

lemma civil_era:
  "civil days = (case era_date ((days + 719468) div 146097) ((days + 719468) mod 146097) of
     (y, m, d) \<Rightarrow> (y, m, d, (days mod 7 + 4) mod 7))"
proof -
  define z where "z = days + 719468"
  have doe: "z - z div 146097 * 146097 = z mod 146097" by (simp add: minus_div_mult_eq_mod)
  have b: "0 \<le> z mod 146097" "z mod 146097 \<le> 146096" using pos_mod_bound [of 146097 z] by simp_all
  show ?thesis
    unfolding civil_def z_def [symmetric] date_of_doe [OF b, of "z div 146097", symmetric]
      Let_def era_floor doe prod.case by (rule refl)
qed

lemma leap_era: "leap (y + era * 400) = leap y"
proof -
  have "y + era * 400 = y + era * 100 * 4" by simp
  then have "(y + era * 400) mod 4 = y mod 4" by (simp only: mod_mult_self1)
  moreover have "y + era * 400 = y + era * 4 * 100" by simp
  then have "(y + era * 400) mod 100 = y mod 100" by (simp only: mod_mult_self1)
  ultimately show ?thesis by (simp add: leap_def)
qed

lemma month_day_step:
  assumes "0 \<le> doy" "doy \<le> 364" "month_day doy = (m, d)"
  shows "month_day (doy + 1) =
        (if d < (if m = 2 then 29 else month_days 0 m) then (m, d + 1)
         else if m < 12 then (m + 1, 1) else (1, 1))"
    and "m = 2 \<Longrightarrow> d \<ge> 28 \<Longrightarrow> doy = 364" and "1 \<le> m" "m \<le> 12" "1 \<le> d" "d \<le> 31"
proof -
  have "doy \<in> {0..364}" using assms by simp
  note this [THEN bspec [OF month_day_steps [unfolded list_all_iff set_upto]], unfolded assms(3) Let_def prod.case]
  then show "month_day (doy + 1) =
        (if d < (if m = 2 then 29 else month_days 0 m) then (m, d + 1)
         else if m < 12 then (m + 1, 1) else (1, 1))"
    and "m = 2 \<Longrightarrow> d \<ge> 28 \<Longrightarrow> doy = 364" and "1 \<le> m" "m \<le> 12" "1 \<le> d" "d \<le> 31"
    by blast+
qed

lemma month_day_ends: "month_day 0 = (3, 1)" "month_day 364 = (2, 28)" "month_day 365 = (2, 29)"
  by (simp_all add: month_day_def)

definition next_date :: "int \<times> int \<times> int \<Rightarrow> int \<times> int \<times> int" where
  "next_date = (\<lambda>(y, m, d).
     (if d < month_days y m then (y, m, d + 1)
      else if m < 12 then (y, m + 1, 1) else (y + 1, 1, 1)))"

lemma next_day_date:
  "next_day (y, m, d, w) = (case next_date (y, m, d) of (y', m', d') \<Rightarrow> (y', m', d', (w + 1) mod 7))"
  by (simp add: next_day_def next_date_def)

lemma era_date_year:
  "0 \<le> y \<Longrightarrow> y \<le> 399 \<Longrightarrow> year_start y \<le> doe \<Longrightarrow> doe \<le> year_end y \<Longrightarrow>
   era_date era doe = (case month_day (doe - year_start y) of
     (m, d) \<Rightarrow> (if m \<le> 2 then y + era * 400 + 1 else y + era * 400, m, d))"
  by (simp add: era_date_def yoe_unique)

text \<open>Within a March-based year, and from its last day to the first of March.\<close>

lemma era_date_within:
  assumes "0 \<le> y" "y \<le> 399" "year_start y \<le> doe" "doe < year_end y"
  shows "era_date era (doe + 1) = next_date (era_date era doe)"
proof -
  let ?doy = "doe - year_start y"
  obtain m d where md: "month_day ?doy = (m, d)" by force
  have len: "?doy < (if leap (y + 1) then 365 else 364)" using year_endsD(3) [OF assms(1,2)] assms(4) by linarith
  then have "0 \<le> ?doy" "?doy \<le> 364" using assms(3) by (auto split: if_splits)
  note step = month_day_step [OF this md]
  have feb: "leap (y + era * 400 + 1) \<and> d = 28" if "m = 2" "d \<ge> 28"
    using step(2) [OF that] len leap_era [of "y + 1" era] md month_day_ends(2)
    by (simp add: algebra_simps split: if_splits)
  have md': "month_day (doe + 1 - year_start y) = month_day (?doy + 1)" by (simp add: algebra_simps)
  have e: "era_date era doe = (if m \<le> 2 then y + era * 400 + 1 else y + era * 400, m, d)"
    using assms md by (simp add: era_date_year)
  have e': "era_date era (doe + 1) = (case month_day (?doy + 1) of
     (m, d) \<Rightarrow> (if m \<le> 2 then y + era * 400 + 1 else y + era * 400, m, d))"
    using assms era_date_year [of y "doe + 1" era] md' by simp
  show ?thesis
  proof (cases "m = 2")
    case True
    with feb step(1) show ?thesis unfolding e e' by (cases "d \<ge> 28") (auto simp: next_date_def month_days_def)
  next
    case False
    then have "month_days (y + era * 400) m = month_days 0 m" "month_days (y + era * 400 + 1) m = month_days 0 m"
      by (simp_all add: month_days_def)
    with False step(1,3,4) show ?thesis unfolding e e' by (auto simp: next_date_def)
  qed
qed

lemma era_date_last:
  assumes "0 \<le> y" "y \<le> 399"
  shows "next_date (era_date era (year_end y)) = (y + era * 400 + 1, 3, 1)"
proof -
  have len: "year_end y - year_start y = (if leap (y + 1) then 365 else 364)"
    using year_endsD(3) [OF assms] .
  then have "year_start y \<le> year_end y" by (auto split: if_splits)
  with assms len show ?thesis
    using leap_era [of "y + 1" era]
    by (simp add: era_date_year month_day_ends next_date_def month_days_def algebra_simps)
qed

lemma era_date_first:
  assumes "0 \<le> y" "y \<le> 399"
  shows "era_date era (year_start y) = (y + era * 400, 3, 1)"
proof -
  have "year_start y \<le> year_end y" using year_endsD(3) [OF assms] by (auto split: if_splits)
  with assms show ?thesis by (simp add: era_date_year month_day_ends)
qed

lemma era_date_succ:
  assumes "0 \<le> doe" "doe < 146096"
  shows "era_date era (doe + 1) = next_date (era_date era doe)"
proof -
  let ?y = "yoe_num doe div 365"
  note y = doe_year [OF assms(1) less_imp_le [OF assms(2)]]
  show ?thesis
  proof (cases "doe < year_end ?y")
    case True
    with y show ?thesis by (intro era_date_within) auto
  next
    case False
    with y have eq: "doe = year_end ?y" by auto
    have "?y \<noteq> 399"
    proof
      assume "?y = 399"
      with eq have "doe = 146096" by (simp add: year_end_def)
      with assms(2) show False by simp
    qed
    with y have lt: "0 \<le> ?y + 1" "?y + 1 \<le> 399" by auto
    from \<open>?y \<noteq> 399\<close> eq have s: "doe + 1 = year_start (?y + 1)" by (simp add: year_end_def)
    have "era_date era (doe + 1) = (?y + 1 + era * 400, 3, 1)"
      unfolding s by (rule era_date_first [OF lt])
    also have "\<dots> = next_date (era_date era (year_end ?y))"
      using era_date_last [of ?y era] y by (simp add: algebra_simps)
    finally show ?thesis using eq by simp
  qed
qed

lemma era_date_roll: "era_date (era + 1) 0 = next_date (era_date era 146096)"
  using era_date_last [of 399 era] era_date_first [of 0 "era + 1"]
  by (simp add: year_end_def year_start_def algebra_simps)

lemma mod_succ_int: "0 < k \<Longrightarrow> (x + 1) mod k = (if x mod k = k - 1 then 0 else x mod k + 1)" for x k :: int
proof -
  assume k: "0 < k"
  have "(x + 1) mod k = (x mod k + 1) mod k" by (simp add: mod_simps)
  with k pos_mod_bound [OF k, of x] pos_mod_sign [OF k, of x] show ?thesis
    by (auto simp: mod_pos_pos_trivial)
qed

lemma weekday_succ: "((x + 1) mod 7 + 4) mod 7 = ((x mod 7 + 4) mod 7 + 1) mod (7::int)"
  by (simp add: mod_add_left_eq add.assoc add.commute [of 1 4])

text \<open>
  C32: the calendar is the Gregorian one.  Day 0 is Thursday, 1 January 1970, and
  the date of every following (and preceding) day is obtained by the rules for
  month lengths, leap years and weekdays; the date is always in range.
\<close>

theorem civil_is_gregorian:
  "civil 0 = (1970, 1, 1, 4) \<and> civil (days + 1) = next_day (civil days)"
proof
  show "civil 0 = (1970, 1, 1, 4)" by code_simp
  define z where "z = days + 719468"
  let ?z = z
  let ?e = "?z div 146097" and ?doe = "?z mod 146097"
  have r: "0 \<le> ?doe" "?doe \<le> 146096" using pos_mod_bound [of 146097 ?z] by simp_all
  have z: "days + 1 + 719468 = ?z + 1" by (simp add: z_def)
  have "era_date ((?z + 1) div 146097) ((?z + 1) mod 146097) = next_date (era_date ?e ?doe)"
  proof (cases "?doe = 146096")
    case True
    then have "(?z + 1) mod 146097 = 0" "(?z + 1) div 146097 = ?e + 1"
      by (simp_all add: mod_succ_int div_succ dvd_eq_mod_eq_0)
    with True show ?thesis by (simp add: era_date_roll)
  next
    case False
    then have m: "(?z + 1) mod 146097 = ?doe + 1" by (simp add: mod_succ_int)
    with r have "\<not> 146097 dvd ?z + 1" by (simp add: dvd_eq_mod_eq_0)
    then have "(?z + 1) div 146097 = ?e" by (simp add: div_succ)
    with m False r show ?thesis by (simp add: era_date_succ)
  qed
  moreover obtain y m d where "era_date ?e ?doe = (y, m, d)" by (metis prod_cases3)
  ultimately show "civil (days + 1) = next_day (civil days)"
    unfolding civil_era z z_def [symmetric] by (simp only: prod.case next_day_date weekday_succ)
qed

section \<open>When an expression fires\<close>

lemma civil_bounds:
  assumes "civil days = (y, m, d, w)"
  shows "1 \<le> m \<and> m \<le> 12 \<and> 1 \<le> d \<and> d \<le> 31 \<and> 0 \<le> w \<and> w \<le> 6"
proof -
  define z where "z = days + 719468"
  let ?doe = "z mod 146097"
  let ?y = "yoe_num ?doe div 365"
  have r: "0 \<le> ?doe" "?doe \<le> 146096" using pos_mod_bound [of 146097 z] by simp_all
  note yb = doe_year [OF r]
  have "year_end ?y - year_start ?y \<le> 365" using year_endsD(3) [of ?y] yb by (auto split: if_splits)
  with yb have doy: "0 \<le> ?doe - year_start ?y" "?doe - year_start ?y \<le> 365" by auto
  have "month_day (?doe - year_start ?y) = (m, d)" and w: "w = (days mod 7 + 4) mod 7"
    using assms unfolding civil_era z_def [symmetric] era_date_def
    by (auto simp: Let_def split: prod.splits)
  then have "1 \<le> m \<and> m \<le> 12 \<and> 1 \<le> d \<and> d \<le> 31"
    using month_day_step(3-6) [of "?doe - year_start ?y" m d] doy month_day_ends(3)
    by (cases "?doe - year_start ?y = 365") auto
  moreover have "0 \<le> w \<and> w \<le> 6" using pos_mod_bound [of 7 "days mod 7 + 4"] by (simp add: w)
  ultimately show ?thesis by blast
qed

text \<open>The day rule: a starred field does not restrict, and two restricted ones are alternatives.\<close>

definition day_rule :: "string \<Rightarrow> string \<Rightarrow> nat \<Rightarrow> nat \<Rightarrow> bool" where
  "day_rule f2 f4 day dow \<longleftrightarrow>
     (if is_star f2 then is_star f4 \<or> dow \<in> field_values f4 0 6
      else if is_star f4 then day \<in> field_values f2 1 31
      else day \<in> field_values f2 1 31 \<or> dow \<in> field_values f4 0 6)"

lemma bit_ucast_values:
  assumes "\<And>n. bit (acc :: u64) n \<longleftrightarrow> n \<in> V" and "n < LENGTH('a)"
  shows "(ucast acc :: 'a::len word) AND push_bit n 1 = 0 \<longleftrightarrow> n \<notin> V"
  using assms by (subst and_push_bit_zero) (simp_all add: bit_unsigned_iff)

lemma cron_fires:
  assumes s: "split_whitespace s = [f0, f1, f2, f3, f4]" and e: "cron_parse s = Inr e"
    and f4': "f4' = replace_char CHR ''7'' CHR ''0'' f4"
    and sm: "steps_small f0 0 59" "steps_small f1 0 23" "steps_small f2 1 31" "steps_small f3 1 12"
      "steps_small f4' 0 6"
    and c: "civil (int (unat t div 60 div 60 div 24)) = (y, month, day, dow)"
  shows "cron_matches e t \<longleftrightarrow>
     unat t div 60 mod 60 \<in> field_values f0 0 59
   \<and> unat t div 60 div 60 mod 24 \<in> field_values f1 0 23
   \<and> nat month \<in> field_values f3 1 12
   \<and> day_rule f2 f4' (nat day) (nat dow)"
proof -
  from e s f4' obtain mi b0 ho b1 dm b2 mo b3 dw b4 where
    p: "parse_field f0 0 59 = Inr (mi, b0)" "parse_field f1 0 23 = Inr (ho, b1)"
       "parse_field f2 1 31 = Inr (dm, b2)" "parse_field f3 1 12 = Inr (mo, b3)"
       "parse_field f4' 0 6 = Inr (dw, b4)"
    and ee: "e = \<lparr>c_minute = mi, c_hour = ucast ho, c_dom = ucast dm, c_month = ucast mo,
                  c_dow = ucast dw, dom_star = b2, dow_star = b4\<rparr>"
    by (auto simp: cron_parse_def split: sum.splits prod.splits)
  have v: "\<And>n. bit mi n \<longleftrightarrow> n \<in> field_values f0 0 59" "\<And>n. bit ho n \<longleftrightarrow> n \<in> field_values f1 0 23"
     "\<And>n. bit dm n \<longleftrightarrow> n \<in> field_values f2 1 31" "\<And>n. bit mo n \<longleftrightarrow> n \<in> field_values f3 1 12"
     "\<And>n. bit dw n \<longleftrightarrow> n \<in> field_values f4' 0 6"
    using parse_field_values(1) [OF p(1) _ sm(1)] parse_field_values(1) [OF p(2) _ sm(2)]
      parse_field_values(1) [OF p(3) _ sm(3)] parse_field_values(1) [OF p(4) _ sm(4)]
      parse_field_values(1) [OF p(5) _ sm(5)] by simp_all
  have st: "b2 = is_star f2" "b4 = is_star f4'"
    using parse_field_values(2) [OF p(3) _ sm(3)] parse_field_values(2) [OF p(5) _ sm(5)] by simp_all
  have b: "nat month < 16" "nat day < 32" "nat dow < 8"
    using civil_bounds [OF c] by auto
  have m: "(mi AND push_bit (unat t div 60 mod 60) 1 = 0) = (unat t div 60 mod 60 \<notin> field_values f0 0 59)"
    by (subst and_push_bit_zero) (simp_all add: v(1))
  have h: "(ucast ho AND push_bit (unat t div 60 div 60 mod 24) 1 = (0 :: u32))
      = (unat t div 60 div 60 mod 24 \<notin> field_values f1 0 23)"
    by (rule bit_ucast_values [OF v(2)]) simp
  have o: "(ucast mo AND push_bit (nat month) 1 = (0 :: u16)) = (nat month \<notin> field_values f3 1 12)"
    using b by (intro bit_ucast_values [OF v(4)]) simp
  have d: "(ucast dm AND push_bit (nat day) 1 = (0 :: u32)) = (nat day \<notin> field_values f2 1 31)"
    using b by (intro bit_ucast_values [OF v(3)]) simp
  have w: "(ucast dw AND push_bit (nat dow) 1 = (0 :: u8)) = (nat dow \<notin> field_values f4' 0 6)"
    using b by (intro bit_ucast_values [OF v(5)]) simp
  show ?thesis
    unfolding cron_matches_def Let_def c prod.case ee cron_expr.simps m h o d w st day_rule_def
    by (simp split: bool.splits)
qed



section \<open>Where a step or an alias changes the meaning\<close>

lemma field_values_star: "field_values ''*'' mn mx = {mn..mx}"
  by (auto simp: field_values_def parse_part_def part_step_def part_range_def part_values_def)

text \<open>
  C33: a stepped star is read as an unrestricted day, and the alias 7 breaks
  ranges and steps.  \<open>0 0 */2 * *\<close> parses and then fires at midnight of every
  day, not of every other one; \<open>0 0 * * 5-7\<close> and \<open>0 0 * * */7\<close> are refused.
\<close>

theorem cron_star_step_ignored:
  "(case cron_parse ''0 0 */2 * *'' of
      Inl _ \<Rightarrow> False
    | Inr e \<Rightarrow> \<forall>t. cron_matches e t = (unat t div 60 mod 60 = 0 \<and> unat t div 60 div 60 mod 24 = 0))
   \<and> cron_parse ''0 0 * * 5-7'' = Inl (OutOfRange ''5-0'' 0 6)
   \<and> cron_parse ''0 0 * * */7'' = Inl (ZeroStep ''*/0'')"
proof (intro conjI)
  have zero: "field_values ''0'' 0 59 = {0}" "field_values ''0'' 0 23 = {0}"
    by (auto simp: field_values_def part_values_def cron_eval)
  have "cron_matches every_other_day t = (unat t div 60 mod 60 = 0 \<and> unat t div 60 div 60 mod 24 = 0)" for t
  proof -
    obtain y m d w where civ: "civil (int (unat t div 60 div 60 div 24)) = (y, m, d, w)"
      by (metis prod_cases4)
    from civil_bounds [OF civ] have "nat m \<in> {1..12}" by auto
    moreover have "is_star ''*/2''" "is_star ''*''" by code_simp+
    ultimately show ?thesis
      using cron_fires [OF ws_examples(2) parse_examples(2) alias_examples(2) [symmetric]
          steps_examples(6-8,4,9) civ]
      by (simp add: zero field_values_star day_rule_def)
  qed
  then show "case cron_parse ''0 0 */2 * *'' of
      Inl _ \<Rightarrow> False
    | Inr e \<Rightarrow> \<forall>t. cron_matches e t = (unat t div 60 mod 60 = 0 \<and> unat t div 60 div 60 mod 24 = 0)"
    by (simp only: parse_examples sum.case) blast
  show "cron_parse ''0 0 * * 5-7'' = Inl (OutOfRange ''5-0'' 0 6)"
    and "cron_parse ''0 0 * * */7'' = Inl (ZeroStep ''*/0'')" by (rule parse_examples)+
qed

end
