(* ===== verification/Manifests.thy ===== *)
theory Manifests
  imports Envelope Cron_Expr Kv
begin

text \<open>
  Worker manifests of \<^verbatim>\<open>crates/rf-core/src/manifest.rs\<close>: the operator-signed unit
  of deployment, its validation, the merged set of deployed workers with its
  hash-chain check, the routing table and the offline verification of a
  transparency log.  \<open>cr\<close> is the cryptography and \<open>dec\<close> the postcard decoder
  for \<open>WorkerManifest\<close>, both parameters.
\<close>

datatype module_kind = EsModule | CommonJs | Wasm | TextModule | DataModule

record module_file =
  m_path :: string
  m_sha256 :: bytes
  m_kind :: module_kind
  m_size :: u64

record asset_file =
  a_path :: string
  a_sha256 :: bytes
  a_size :: u64

record worker_manifest =
  w_name :: string
  w_version :: u64
  w_prev :: "bytes option"
  w_deleted :: bool
  w_main :: string
  w_modules :: "module_file list"
  w_assets :: "asset_file list"
  w_hostnames :: "string list"
  w_env :: "(string, string) btree_map"
  w_kv_bindings :: "(string, string) btree_map"
  w_crons :: "string list"
  w_compatibility_date :: string

datatype manifest_error =
    ManEnvelope envelope_error
  | NotOperator
  | BadName
  | MainNotInModules
  | BadCron string
  | BadHostname string
  | BadPath string
  | DuplicatePath string
  | ChainBroken

section \<open>Validation\<close>

definition label_chars :: "string \<Rightarrow> bool" where
  "label_chars s = list_all (\<lambda>b. is_ascii_lowercase b \<or> is_ascii_digit b \<or> b = CHR ''-'') s"

definition valid_name :: "string \<Rightarrow> bool" where
  "valid_name name \<longleftrightarrow>
     name \<noteq> [] \<and> length name \<le> 63 \<and> \<not> starts_with name ''-'' \<and> \<not> ends_with name ''-'' \<and> label_chars name"

definition valid_hostname :: "string \<Rightarrow> bool" where
  "valid_hostname h \<longleftrightarrow>
     h \<noteq> [] \<and> length h \<le> 253 \<and> \<not> starts_with h ''.'' \<and> \<not> ends_with h ''.'' \<and>
     list_all (\<lambda>label. label \<noteq> [] \<and> length label \<le> 63 \<and> \<not> starts_with label ''-'' \<and>
       \<not> ends_with label ''-'' \<and> label_chars label) (split CHR ''.'' h)"

definition valid_bundle_path :: "string \<Rightarrow> bool" where
  "valid_bundle_path path \<longleftrightarrow>
     path \<noteq> [] \<and> length path \<le> 1024 \<and> \<not> starts_with path ''/'' \<and> CHR 0x5C \<notin> set path \<and>
     \<not> list_ex is_ascii_control path \<and>
     list_all (\<lambda>part. part \<noteq> [] \<and> part \<noteq> ''.'' \<and> part \<noteq> ''..'') (split CHR ''/'' path)"

text \<open>The loop over all paths with the set \<open>seen\<close>; \<open>None\<close> is success.\<close>

fun check_paths :: "string list \<Rightarrow> string list \<Rightarrow> manifest_error option" where
  "check_paths seen [] = None"
| "check_paths seen (p # ps) =
     (if \<not> valid_bundle_path p then Some (BadPath p)
      else if p \<in> set seen then Some (DuplicatePath p)
      else check_paths (p # seen) ps)"

fun check_crons :: "string list \<Rightarrow> manifest_error option" where
  "check_crons [] = None"
| "check_crons (c # cs) = (case cron_parse c of Inl _ \<Rightarrow> Some (BadCron c) | Inr _ \<Rightarrow> check_crons cs)"

fun check_hostnames :: "string list \<Rightarrow> manifest_error option" where
  "check_hostnames [] = None"
| "check_hostnames (h # hs) = (if \<not> valid_hostname h then Some (BadHostname h) else check_hostnames hs)"

definition bundle_paths :: "worker_manifest \<Rightarrow> string list" where
  "bundle_paths w = map m_path (w_modules w) @ map a_path (w_assets w)"

definition manifest_validate :: "worker_manifest \<Rightarrow> manifest_error option" where
  "manifest_validate w =
     (if \<not> valid_name (w_name w) then Some BadName
      else if (w_version w = 1) \<noteq> (w_prev w = None) then Some ChainBroken
      else if w_deleted w then None
      else if w_main w \<noteq> [] \<and> \<not> list_ex (\<lambda>m. m_path m = w_main w) (w_modules w) then Some MainNotInModules
      else case check_paths [] (bundle_paths w) of
        Some e \<Rightarrow> Some e
      | None \<Rightarrow>
          (case check_crons (w_crons w) of
             Some e \<Rightarrow> Some e
           | None \<Rightarrow> check_hostnames (w_hostnames w)))"

definition blob_refs :: "worker_manifest \<Rightarrow> bytes list" where
  "blob_refs w = map m_sha256 (w_modules w) @ map a_sha256 (w_assets w)"

section \<open>The merged set of deployed workers\<close>

record manifest_record =
  mr_manifest :: worker_manifest
  mr_digest :: bytes
  mr_envelope :: envelope

datatype manifest_outcome = ManChanged | ManStale

record manifest_set =
  ms_operator :: signer_id
  ms_workers :: "(string, manifest_record) hash_map"

definition manifests_new :: "signer_id \<Rightarrow> manifest_set" where
  "manifests_new op = \<lparr>ms_operator = op, ms_workers = []\<rparr>"

text \<open>Opening pinned to the operator, with the error mapping of the code.\<close>

definition open_manifest ::
  "crypto \<Rightarrow> (bytes \<Rightarrow> worker_manifest option) \<Rightarrow> signer_id \<Rightarrow> envelope \<Rightarrow> manifest_error + worker_manifest" where
  "open_manifest cr dec op env =
     (case envelope_open cr dec (Some op) env of
        Inl BadSignature \<Rightarrow> Inl NotOperator
      | Inl e \<Rightarrow> Inl (ManEnvelope e)
      | Inr w \<Rightarrow> Inr w)"

definition manifest_ingest ::
  "crypto \<Rightarrow> (bytes \<Rightarrow> worker_manifest option) \<Rightarrow> manifest_set \<Rightarrow> envelope
    \<Rightarrow> manifest_set \<times> (manifest_error + manifest_outcome)" where
  "manifest_ingest cr dec s env =
     (case open_manifest cr dec (ms_operator s) env of
        Inl e \<Rightarrow> (s, Inl e)
      | Inr w \<Rightarrow>
          (case manifest_validate w of
             Some e \<Rightarrow> (s, Inl e)
           | None \<Rightarrow>
               (let digest = envelope_digest cr env;
                    inserted = s\<lparr>ms_workers := hm_insert (w_name w)
                      \<lparr>mr_manifest = w, mr_digest = digest, mr_envelope = env\<rparr> (ms_workers s)\<rparr>
                in case map_of (ms_workers s) (w_name w) of
                     None \<Rightarrow> (inserted, Inr ManChanged)
                   | Some existing \<Rightarrow>
                       (let newer = (w_version (mr_manifest existing) < w_version w \<or>
                              w_version w = w_version (mr_manifest existing) \<and> digest < mr_digest existing)
                        in if \<not> newer then (s, Inr ManStale)
                           else if w_version w = w_version (mr_manifest existing) + 1
                                 \<and> w_prev w \<noteq> Some (mr_digest existing)
                             then (s, Inl ChainBroken)
                           else (inserted, Inr ManChanged)))))"

definition manifest_get :: "manifest_set \<Rightarrow> string \<Rightarrow> manifest_record option" where
  "manifest_get s name = map_of (ms_workers s) name"

definition manifests_all :: "manifest_set \<Rightarrow> manifest_record list" where
  "manifests_all s = map snd (ms_workers s)"

definition manifests_live :: "manifest_set \<Rightarrow> manifest_record list" where
  "manifests_live s = filter (\<lambda>r. \<not> w_deleted (mr_manifest r)) (map snd (ms_workers s))"

text \<open>One hostname of one record: the entry's \<open>and_modify\<close> or \<open>or_insert\<close>.\<close>

definition route_step ::
  "string \<times> manifest_record \<Rightarrow> (string, manifest_record) btree_map \<Rightarrow> (string, manifest_record) btree_map" where
  "route_step i by_host =
     (case map_of by_host (fst i) of
        None \<Rightarrow> bt_insert (fst i) (snd i) by_host
      | Some cur \<Rightarrow> if mr_digest (snd i) < mr_digest cur then bt_insert (fst i) (snd i) by_host else by_host)"

definition route_items :: "manifest_record list \<Rightarrow> (string \<times> manifest_record) list" where
  "route_items rs = concat (map (\<lambda>r. map (\<lambda>h. (h, r)) (w_hostnames (mr_manifest r))) rs)"

definition routes :: "manifest_set \<Rightarrow> (string, string) btree_map" where
  "routes s = map (\<lambda>(h, r). (h, w_name (mr_manifest r))) (fold route_step (route_items (manifests_live s)) [])"

text \<open>The digest hashes name, version and envelope digest of every worker in name order.\<close>

definition manifests_digest :: "(bytes \<Rightarrow> bytes) \<Rightarrow> manifest_set \<Rightarrow> bytes" where
  "manifests_digest sha s =
     sha (concat (map (\<lambda>n. case map_of (ms_workers s) n of
             None \<Rightarrow> []
           | Some r \<Rightarrow> as_bytes n @ le_bytes_u64 (w_version (mr_manifest r)) @ mr_digest r)
         (sort (map fst (ms_workers s)))))"

definition manifests_len :: "manifest_set \<Rightarrow> nat" where
  "manifests_len s = length (ms_workers s)"

definition manifests_is_empty :: "manifest_set \<Rightarrow> bool" where
  "manifests_is_empty s = (ms_workers s = [])"

section \<open>The transparency log\<close>

text \<open>The loop of \<open>verify_chain\<close>: \<open>lst\<close> is the last decoded manifest, with the digest of its envelope.\<close>

fun verify_from ::
  "crypto \<Rightarrow> (bytes \<Rightarrow> worker_manifest option) \<Rightarrow> signer_id \<Rightarrow> (worker_manifest \<times> bytes) option
    \<Rightarrow> envelope list \<Rightarrow> manifest_error + worker_manifest list" where
  "verify_from cr dec op lst [] = Inr []"
| "verify_from cr dec op lst (env # envs) =
     (case open_manifest cr dec op env of
        Inl e \<Rightarrow> Inl e
      | Inr w \<Rightarrow>
          if (case lst of
                Some (l, prev_digest) \<Rightarrow>
                  w_version w \<noteq> w_version l + 1 \<or> w_name w \<noteq> w_name l \<or> w_prev w \<noteq> Some prev_digest
              | None \<Rightarrow> w_version w = 1 \<and> w_prev w \<noteq> None)
          then Inl ChainBroken
          else (case verify_from cr dec op (Some (w, envelope_digest cr env)) envs of
                  Inl e \<Rightarrow> Inl e
                | Inr ws \<Rightarrow> Inr (w # ws)))"

definition verify_chain ::
  "crypto \<Rightarrow> (bytes \<Rightarrow> worker_manifest option) \<Rightarrow> envelope list \<Rightarrow> signer_id
    \<Rightarrow> manifest_error + worker_manifest list" where
  "verify_chain cr dec envs op = verify_from cr dec op None envs"

section \<open>What validation guarantees\<close>

lemma first_error_None: "(case a of Some e \<Rightarrow> Some e | None \<Rightarrow> b) = None \<longleftrightarrow> a = None \<and> b = None"
  by (cases a) auto

lemma check_paths_None:
  "check_paths seen ps = None \<longleftrightarrow>
     list_all valid_bundle_path ps \<and> distinct ps \<and> set ps \<inter> set seen = {}"
  by (induction seen ps rule: check_paths.induct) auto

lemma check_crons_None: "check_crons cs = None \<longleftrightarrow> list_all (\<lambda>c. \<exists>e. cron_parse c = Inr e) cs"
  by (induction cs) (auto split: sum.splits)

lemma check_hostnames_None: "check_hostnames hs = None \<longleftrightarrow> list_all valid_hostname hs"
  by (induction hs) auto

lemma manifest_validate_None:
  "manifest_validate w = None \<longleftrightarrow>
     valid_name (w_name w) \<and> (w_version w = 1 \<longleftrightarrow> w_prev w = None) \<and>
     (w_deleted w \<or>
      (w_main w = [] \<or> w_main w \<in> m_path ` set (w_modules w)) \<and>
      list_all valid_bundle_path (bundle_paths w) \<and> distinct (bundle_paths w) \<and>
      list_all (\<lambda>c. \<exists>e. cron_parse c = Inr e) (w_crons w) \<and> list_all valid_hostname (w_hostnames w))"
proof -
  have main: "list_ex (\<lambda>m. m_path m = w_main w) (w_modules w) \<longleftrightarrow> w_main w \<in> m_path ` set (w_modules w)"
    by (force simp: list_ex_iff)
  show ?thesis
    unfolding manifest_validate_def main
    by (simp add: first_error_None check_paths_None check_crons_None check_hostnames_None)
qed

text \<open>Joining a path onto a root directory: \<open>.\<close> stays and \<open>..\<close> goes up.\<close>

fun resolve_path :: "string list \<Rightarrow> string list \<Rightarrow> string list" where
  "resolve_path dir [] = dir"
| "resolve_path dir (p # ps) =
     (if p = [] \<or> p = ''.'' then resolve_path dir ps
      else if p = ''..'' then resolve_path (butlast dir) ps
      else resolve_path (dir @ [p]) ps)"

lemma resolve_plain:
  "list_all (\<lambda>p. p \<noteq> [] \<and> p \<noteq> ''.'' \<and> p \<noteq> ''..'') ps \<Longrightarrow> resolve_path dir ps = dir @ ps"
  by (induction dir ps rule: resolve_path.induct) auto

section \<open>Merging as a map of registers\<close>

definition man_check ::
  "crypto \<Rightarrow> (bytes \<Rightarrow> worker_manifest option) \<Rightarrow> signer_id \<Rightarrow> envelope \<Rightarrow> manifest_error + worker_manifest" where
  "man_check cr dec op env =
     (case open_manifest cr dec op env of
        Inl e \<Rightarrow> Inl e
      | Inr w \<Rightarrow> (case manifest_validate w of Some e \<Rightarrow> Inl e | None \<Rightarrow> Inr w))"

definition man_record :: "crypto \<Rightarrow> envelope \<Rightarrow> worker_manifest \<Rightarrow> manifest_record" where
  "man_record cr env w = \<lparr>mr_manifest = w, mr_digest = envelope_digest cr env, mr_envelope = env\<rparr>"

definition man_rank :: "manifest_record \<Rightarrow> u64 \<times> bytes reverse" where
  "man_rank r = (w_version (mr_manifest r), Reverse (mr_digest r))"

definition man_breaks :: "manifest_record \<Rightarrow> manifest_record \<Rightarrow> bool" where
  "man_breaks x e \<longleftrightarrow>
     w_version (mr_manifest e) = w_version (mr_manifest x) + 1 \<and> w_prev (mr_manifest e) \<noteq> Some (mr_digest x)"

definition man_join :: "manifest_record option \<Rightarrow> manifest_record \<Rightarrow> manifest_record" where
  "man_join cur e =
     (case cur of None \<Rightarrow> e | Some x \<Rightarrow> if man_rank x < man_rank e \<and> \<not> man_breaks x e then e else x)"

definition man_put :: "string \<Rightarrow> manifest_record \<Rightarrow> manifest_set \<Rightarrow> manifest_set" where
  "man_put n r s = s\<lparr>ms_workers := hm_insert n r (ms_workers s)\<rparr>"

definition man_absorb :: "string \<times> manifest_record \<Rightarrow> manifest_set \<Rightarrow> manifest_set" where
  "man_absorb i s =
     (case manifest_get s (fst i) of
        None \<Rightarrow> man_put (fst i) (snd i) s
      | Some x \<Rightarrow>
          if man_rank x < man_rank (snd i) \<and> \<not> man_breaks x (snd i) then man_put (fst i) (snd i) s else s)"

definition man_ok :: "manifest_set \<Rightarrow> bool" where
  "man_ok s = hm_ok (ms_workers s)"

interpretation man: register_map man_rank man_breaks man_join manifest_get man_put man_ok man_absorb
proof unfold_locales
  show "man_absorb (k, e) m = (if manifest_get m k = Some (man_join (manifest_get m k) e) then m
      else man_put k (man_join (manifest_get m k) e) m)" for k e m
    by (auto simp: man_absorb_def man_join_def split: option.splits)
qed (auto simp: man_join_def man_put_def manifest_get_def man_ok_def hash.get_put hash.ok_put)

lemma ms_operator_absorb [simp]: "ms_operator (man_absorb i s) = ms_operator s"
  by (auto simp: man_absorb_def man_put_def split: option.splits)

lemma manifest_ingest_check:
  "manifest_ingest cr dec s env =
     (case man_check cr dec (ms_operator s) env of
        Inl e \<Rightarrow> (s, Inl e)
      | Inr w \<Rightarrow>
          (let r = man_record cr env w in
           case manifest_get s (w_name w) of
             None \<Rightarrow> (man_put (w_name w) r s, Inr ManChanged)
           | Some x \<Rightarrow>
               if \<not> man_rank x < man_rank r then (s, Inr ManStale)
               else if man_breaks x r then (s, Inl ChainBroken)
               else (man_put (w_name w) r s, Inr ManChanged)))"
proof (cases "open_manifest cr dec (ms_operator s) env")
  case (Inr w)
  show ?thesis
  proof (cases "manifest_validate w")
    case None
    then show ?thesis
      using Inr
      by (auto simp: manifest_ingest_def man_check_def manifest_get_def Let_def man_put_def man_record_def
            man_rank_def man_breaks_def split: option.splits)
  qed (simp add: manifest_ingest_def man_check_def Inr)
qed (simp add: manifest_ingest_def man_check_def)

lemma manifest_ingest_absorb:
  "fst (manifest_ingest cr dec s env) =
     (case man_check cr dec (ms_operator s) env of
        Inl e \<Rightarrow> s | Inr w \<Rightarrow> man_absorb (w_name w, man_record cr env w) s)"
  by (auto simp: manifest_ingest_check man_absorb_def Let_def split: sum.splits option.splits)

lemma man_checkD:
  assumes "man_check cr dec op env = Inr w"
  shows "envelope_open cr dec (Some op) env = Inr w" and "manifest_validate w = None"
  using assms
  by (auto simp: man_check_def open_manifest_def split: sum.splits option.splits envelope_error.splits)

section \<open>The invariant\<close>

definition man_record_ok ::
  "crypto \<Rightarrow> (bytes \<Rightarrow> worker_manifest option) \<Rightarrow> signer_id \<Rightarrow> string \<Rightarrow> manifest_record \<Rightarrow> bool" where
  "man_record_ok cr dec op n r \<longleftrightarrow>
     w_name (mr_manifest r) = n \<and> mr_digest r = envelope_digest cr (mr_envelope r) \<and>
     signer (mr_envelope r) = op \<and> signer_verify cr op (payload (mr_envelope r)) (sig (mr_envelope r)) \<and>
     dec (payload (mr_envelope r)) = Some (mr_manifest r) \<and> manifest_validate (mr_manifest r) = None"

definition manifests_ok ::
  "crypto \<Rightarrow> (bytes \<Rightarrow> worker_manifest option) \<Rightarrow> manifest_set \<Rightarrow> bool" where
  "manifests_ok cr dec s \<longleftrightarrow>
     man_ok s \<and> (\<forall>n r. manifest_get s n = Some r \<longrightarrow> man_record_ok cr dec (ms_operator s) n r)"

lemma man_record_ok_new:
  assumes "man_check cr dec op env = Inr w"
  shows "man_record_ok cr dec op (w_name w) (man_record cr env w)"
  using man_checkD [OF assms] by (auto simp: man_record_ok_def man_record_def open_Inr)

lemma manifests_ok_ingest:
  assumes "manifests_ok cr dec s"
  shows "manifests_ok cr dec (fst (manifest_ingest cr dec s env))"
proof (cases "man_check cr dec (ms_operator s) env")
  case (Inl e)
  with assms show ?thesis by (simp add: manifest_ingest_absorb)
next
  case (Inr w)
  let ?r = "man_record cr env w"
  from assms have ok: "man_ok s" by (simp add: manifests_ok_def)
  have "man_record_ok cr dec (ms_operator s) n x"
    if "manifest_get (man_absorb (w_name w, ?r) s) n = Some x" for n x
    using that man.look_absorb [OF ok, of "w_name w" ?r n] man_record_ok_new [OF Inr] assms
      man.join_in [of "manifest_get s (w_name w)" ?r]
    by (auto simp: manifests_ok_def split: if_splits)
  with ok man.ok_absorb show ?thesis by (simp add: manifest_ingest_absorb Inr manifests_ok_def)
qed

text \<open>
  Only what the operator signed is ever deployed.  Ingesting any envelope
  keeps the invariant that every stored worker comes from an envelope that
  verifies for the pinned operator, decodes to the stored manifest and passed
  validation, under its own name and with the digest of that envelope; and a
  worker that was deployed keeps a record whose version is no lower.
\<close>

theorem manifests_ok_preserved:
  assumes "manifests_ok cr dec s"
  shows "manifests_ok cr dec (fst (manifest_ingest cr dec s env)) \<and>
    (\<forall>n r. manifest_get s n = Some r \<longrightarrow>
       (\<exists>r'. manifest_get (fst (manifest_ingest cr dec s env)) n = Some r' \<and>
             w_version (mr_manifest r) \<le> w_version (mr_manifest r')))"
proof (intro conjI allI impI)
  show "manifests_ok cr dec (fst (manifest_ingest cr dec s env))" by (rule manifests_ok_ingest [OF assms])
  fix n r
  assume r: "manifest_get s n = Some r"
  from assms have ok: "man_ok s" by (simp add: manifests_ok_def)
  show "\<exists>r'. manifest_get (fst (manifest_ingest cr dec s env)) n = Some r' \<and>
             w_version (mr_manifest r) \<le> w_version (mr_manifest r')"
  proof (cases "man_check cr dec (ms_operator s) env")
    case (Inr w)
    from man.look_absorb_mono [OF ok r, of "(w_name w, man_record cr env w)"] show ?thesis
      by (auto simp: manifest_ingest_absorb Inr man_rank_def less_eq_prod_def)
  qed (use r in \<open>simp add: manifest_ingest_absorb\<close>)
qed

text \<open>
  Every outcome of \<open>ingest\<close>.  An envelope that does not verify for the
  operator is \<open>NotOperator\<close>, one that fails validation reports that error, and
  neither changes anything; a first manifest of a worker is stored; a lower or
  equal version that does not win the tie is stale; a direct successor that does
  not link to the stored envelope is \<open>ChainBroken\<close>; anything else replaces the
  stored record.
\<close>

theorem manifest_ingest_outcome:
  "manifest_ingest cr dec s env =
     (if signer env = ms_operator s \<and> signer_verify cr (signer env) (payload env) (sig env)
      then (case dec (payload env) of
        None \<Rightarrow> (s, Inl (ManEnvelope Decode))
      | Some w \<Rightarrow>
          (case manifest_validate w of
             Some e \<Rightarrow> (s, Inl e)
           | None \<Rightarrow>
               (case manifest_get s (w_name w) of
                  None \<Rightarrow> (man_put (w_name w) (man_record cr env w) s, Inr ManChanged)
                | Some x \<Rightarrow>
                    if man_rank (man_record cr env w) \<le> man_rank x then (s, Inr ManStale)
                    else if w_version w = w_version (mr_manifest x) + 1 \<and> w_prev w \<noteq> Some (mr_digest x)
                      then (s, Inl ChainBroken)
                    else (man_put (w_name w) (man_record cr env w) s, Inr ManChanged))))
      else (s, Inl NotOperator))"
proof -
  have chk: "man_check cr dec (ms_operator s) env =
     (if signer env = ms_operator s \<and> signer_verify cr (signer env) (payload env) (sig env)
      then (case dec (payload env) of
        None \<Rightarrow> Inl (ManEnvelope Decode)
      | Some w \<Rightarrow> (case manifest_validate w of Some e \<Rightarrow> Inl e | None \<Rightarrow> Inr w))
      else Inl NotOperator)"
    by (auto simp: man_check_def open_manifest_def envelope_open_def split: option.splits)
  have brk: "man_breaks x (man_record cr env w) \<longleftrightarrow>
      w_version w = w_version (mr_manifest x) + 1 \<and> w_prev w \<noteq> Some (mr_digest x)" for x w
    by (simp add: man_breaks_def man_record_def)
  show ?thesis
    by (cases "signer env = ms_operator s \<and> signer_verify cr (signer env) (payload env) (sig env)")
       (simp_all only: manifest_ingest_check Let_def not_less chk brk if_True if_False sum.case
          split: option.split, auto)
qed

section \<open>Convergence of unforked histories\<close>

fun manifests_run ::
  "crypto \<Rightarrow> (bytes \<Rightarrow> worker_manifest option) \<Rightarrow> manifest_set \<Rightarrow> envelope list \<Rightarrow> manifest_set" where
  "manifests_run cr dec s [] = s"
| "manifests_run cr dec s (e # es) = manifests_run cr dec (fst (manifest_ingest cr dec s e)) es"

definition man_items ::
  "crypto \<Rightarrow> (bytes \<Rightarrow> worker_manifest option) \<Rightarrow> signer_id \<Rightarrow> envelope list \<Rightarrow> (string \<times> manifest_record) list" where
  "man_items cr dec op es =
     concat (map (\<lambda>e. case man_check cr dec op e of
       Inl _ \<Rightarrow> [] | Inr w \<Rightarrow> [(w_name w, man_record cr e w)]) es)"

lemma manifests_run_fold:
  "manifests_run cr dec s es = fold man_absorb (man_items cr dec (ms_operator s) es) s"
proof (induction es arbitrary: s)
  case (Cons e es)
  have op: "ms_operator (fst (manifest_ingest cr dec s e)) = ms_operator s"
    by (simp add: manifest_ingest_absorb split: sum.splits)
  have "fold man_absorb (man_items cr dec (ms_operator s) (e # es)) s =
      fold man_absorb (man_items cr dec (ms_operator s) es) (fst (manifest_ingest cr dec s e))"
    by (simp add: man_items_def manifest_ingest_absorb split: sum.splits)
  with Cons.IH [of "fst (manifest_ingest cr dec s e)"] op show ?case by simp
qed (simp add: man_items_def)

lemma set_man_items:
  "(n, r) \<in> set (man_items cr dec op es) \<longleftrightarrow>
     (\<exists>e \<in> set es. \<exists>w. man_check cr dec op e = Inr w \<and> n = w_name w \<and> r = man_record cr e w)"
  by (force simp: man_items_def split: sum.splits)

text \<open>
  A set of envelopes without forks: per worker one envelope per version, and
  every direct successor links to the envelope of its predecessor.
\<close>

definition unforked ::
  "crypto \<Rightarrow> (bytes \<Rightarrow> worker_manifest option) \<Rightarrow> signer_id \<Rightarrow> envelope set \<Rightarrow> bool" where
  "unforked cr dec op E \<longleftrightarrow>
     (\<forall>e \<in> E. \<forall>f \<in> E. \<forall>v w. man_check cr dec op e = Inr v \<and> man_check cr dec op f = Inr w
        \<and> w_name v = w_name w \<longrightarrow>
        (w_version v = w_version w \<longrightarrow> e = f) \<and>
        (w_version w = w_version v + 1 \<longrightarrow> w_prev w = Some (envelope_digest cr e)))"

lemma man_ok_new: "man_ok (manifests_new op)"
  by (simp add: man_ok_def manifests_new_def)

lemma manifest_get_new [simp]: "manifest_get (manifests_new op) n = None"
  by (simp add: manifest_get_def manifests_new_def)

lemma ms_operator_new [simp]: "ms_operator (manifests_new op) = op"
  by (simp add: manifests_new_def)

lemma unforked_items:
  assumes "unforked cr dec op (set es)" and "(n, x) \<in> set (man_items cr dec op es)"
    and "(n, y) \<in> set (man_items cr dec op es)"
  shows "w_version (mr_manifest x) = w_version (mr_manifest y) \<Longrightarrow> x = y" and "\<not> man_breaks x y"
proof -
  from assms(2,3) obtain e v f w where
    e: "e \<in> set es" "man_check cr dec op e = Inr v" "n = w_name v" and x: "x = man_record cr e v" and
    f: "f \<in> set es" "man_check cr dec op f = Inr w" "n = w_name w" and y: "y = man_record cr f w"
    unfolding set_man_items by blast
  have same: "w_version v = w_version w \<Longrightarrow> e = f"
    and link: "w_version w = w_version v + 1 \<Longrightarrow> w_prev w = Some (envelope_digest cr e)"
    using assms(1) e f unfolding unforked_def by metis+
  show "x = y" if "w_version (mr_manifest x) = w_version (mr_manifest y)"
    using that same e(2) f(2) by (simp add: x y man_record_def)
  show "\<not> man_breaks x y" using link by (auto simp: x y man_breaks_def man_record_def)
qed

lemma manifests_run_get:
  assumes "set es = set fs" and "unforked cr dec op (set es)"
  shows "manifest_get (manifests_run cr dec (manifests_new op) es) n
    = manifest_get (manifests_run cr dec (manifests_new op) fs) n"
proof -
  let ?it = "man_items cr dec op"
  have "set (?it es) = set (?it fs)" using assms(1) by (auto simp: man_items_def)
  moreover have "inj_on man_rank {e. (k, e) \<in> set (?it es) \<or> manifest_get (manifests_new op) k = Some e}" for k
    using unforked_items(1) [OF assms(2)] by (auto simp: inj_on_def man_rank_def)
  moreover have "man.consistent {e. (k, e) \<in> set (?it es) \<or> manifest_get (manifests_new op) k = Some e}" for k
    using unforked_items(2) [OF assms(2)] by (auto simp: man.consistent_def)
  ultimately show ?thesis
    using man.store_convergence [OF man_ok_new man_ok_new, of "?it es" op "?it fs" op n]
    by (simp add: manifests_run_fold)
qed

section \<open>Routing\<close>

definition route_rank :: "manifest_record \<Rightarrow> bytes reverse" where
  "route_rank r = Reverse (mr_digest r)"

definition route_join :: "manifest_record option \<Rightarrow> manifest_record \<Rightarrow> manifest_record" where
  "route_join cur e = (case cur of None \<Rightarrow> e | Some x \<Rightarrow> if mr_digest e < mr_digest x then e else x)"

interpretation route: register_map route_rank "\<lambda>_ _. False" route_join "\<lambda>m. map_of m" bt_insert bt_ok route_step
proof unfold_locales
  show "route_step (k, e) m = (if map_of m k = Some (route_join (map_of m k) e) then m
      else bt_insert k (route_join (map_of m k) e) m)" for k e m
    by (auto simp: route_step_def route_join_def split: option.splits)
qed (auto simp: route_join_def route_rank_def)

lemma route_items_iff:
  "(h, r) \<in> set (route_items rs) \<longleftrightarrow> r \<in> set rs \<and> h \<in> set (w_hostnames (mr_manifest r))"
  by (auto simp: route_items_def)

lemma map_of_routes:
  "map_of (routes s) h = map_option (\<lambda>r. w_name (mr_manifest r))
     (map_of (fold route_step (route_items (manifests_live s)) []) h)"
  unfolding routes_def map_of_map by simp

text \<open>
  C29: the routing table is exact.  A hostname has a route exactly when a live
  worker lists it, and the route names a live worker that lists it and whose
  manifest digest no other live worker listing it undercuts; hostnames are
  in order, each once.
\<close>

theorem routes_spec:
  "(map_of (routes s) h = None \<longleftrightarrow> (\<forall>r \<in> set (manifests_live s). h \<notin> set (w_hostnames (mr_manifest r))))
   \<and> (\<forall>n. map_of (routes s) h = Some n \<longrightarrow>
        (\<exists>r \<in> set (manifests_live s). h \<in> set (w_hostnames (mr_manifest r)) \<and> w_name (mr_manifest r) = n
           \<and> (\<forall>q \<in> set (manifests_live s). h \<in> set (w_hostnames (mr_manifest q)) \<longrightarrow> mr_digest r \<le> mr_digest q)))
   \<and> sorted_wrt (<) (map fst (routes s))"
proof (intro conjI allI impI)
  let ?es = "map snd (filter (\<lambda>i. fst i = h) (route_items (manifests_live s)))"
  have es: "set ?es = {r \<in> set (manifests_live s). h \<in> set (w_hostnames (mr_manifest r))}"
  proof -
    have "set ?es = {r. (h, r) \<in> set (route_items (manifests_live s))}" by force
    then show ?thesis by (simp add: route_items_iff)
  qed
  have look: "map_of (fold route_step (route_items (manifests_live s)) []) h
      = foldl (\<lambda>c e. Some (route_join c e)) None ?es"
    using route.look_fold [of "[]" "route_items (manifests_live s)" h] by simp
  show "map_of (routes s) h = None \<longleftrightarrow> (\<forall>r \<in> set (manifests_live s). h \<notin> set (w_hostnames (mr_manifest r)))"
  proof -
    have "map_of (routes s) h = None \<longleftrightarrow> ?es = []"
      by (simp only: map_of_routes look map_option_is_None route.fold_join_None_iff simp_thms)
    also have "\<dots> \<longleftrightarrow> set ?es = {}" by (simp only: set_empty)
    finally show ?thesis unfolding es by auto
  qed
  have "bt_ok (fold route_step (route_items (manifests_live s)) [])" by (rule route.ok_fold) simp
  then show "sorted_wrt (<) (map fst (routes s))"
    by (simp add: routes_def bt_ok_def comp_def case_prod_unfold)
  fix n
  assume "map_of (routes s) h = Some n"
  then obtain r where r: "foldl (\<lambda>c e. Some (route_join c e)) None ?es = Some r" and n: "w_name (mr_manifest r) = n"
    by (auto simp: map_of_routes look)
  from route.fold_join_Some [OF r] have "r \<in> set ?es" "\<forall>e \<in> set ?es. mr_digest r \<le> mr_digest e"
    by (simp_all add: route.consistent_def route_rank_def)
  with n show "\<exists>r \<in> set (manifests_live s). h \<in> set (w_hostnames (mr_manifest r)) \<and> w_name (mr_manifest r) = n
           \<and> (\<forall>q \<in> set (manifests_live s). h \<in> set (w_hostnames (mr_manifest q)) \<longrightarrow> mr_digest r \<le> mr_digest q)"
    unfolding es by blast
qed

text \<open>
  Neither the routing table nor the digest depends on the order in which the
  \<open>HashMap\<close> lists its entries.
\<close>

lemma same_workers:
  assumes "man_ok s" and "man_ok t" and "\<And>n. manifest_get s n = manifest_get t n"
  shows "mset (ms_workers s) = mset (ms_workers t)"
  using assms by (intro hm_same_entries) (simp_all add: man_ok_def manifest_get_def)

lemma sort_mset_eq: "mset xs = mset ys \<Longrightarrow> sort xs = sort ys"
  by (metis mset_sort properties_for_sort sorted_sort)

lemma manifests_digest_cong:
  assumes "man_ok s" and "man_ok t" and "\<And>n. manifest_get s n = manifest_get t n"
  shows "manifests_digest sha s = manifests_digest sha t"
proof -
  have "mset (map fst (ms_workers s)) = mset (map fst (ms_workers t))"
    using same_workers [OF assms] by (metis mset_map)
  then have "sort (map fst (ms_workers s)) = sort (map fst (ms_workers t))" by (rule sort_mset_eq)
  then show ?thesis using assms(3) by (simp add: manifests_digest_def manifest_get_def)
qed

lemma routes_cong:
  assumes "man_ok s" and "man_ok t" and "\<And>n. manifest_get s n = manifest_get t n"
    and "inj_on mr_digest (set (manifests_live s))"
  shows "routes s = routes t"
proof -
  have "set (ms_workers s) = set (ms_workers t)" using same_workers [OF assms(1-3)] by (rule mset_eq_setD)
  then have live: "set (manifests_live s) = set (manifests_live t)" by (simp add: manifests_live_def)
  then have items: "set (route_items (manifests_live s)) = set (route_items (manifests_live t))"
    by (simp add: route_items_def)
  have inj: "inj_on route_rank {e. (k, e) \<in> set (route_items (manifests_live s)) \<or> map_of [] k = Some e}" for k
    using assms(4) by (auto simp: inj_on_def route_rank_def route_items_iff)
  have "map_of (fold route_step (route_items (manifests_live s)) []) k
      = map_of (fold route_step (route_items (manifests_live t)) []) k" for k
    by (rule route.store_convergence [OF _ _ _ inj]) (simp_all add: items route.consistent_def)
  moreover have "bt_ok (fold route_step is [])" for "is" by (rule route.ok_fold) simp
  ultimately have "fold route_step (route_items (manifests_live s)) []
      = fold route_step (route_items (manifests_live t)) []" by (intro bt_ext)
  then show ?thesis by (simp add: routes_def)
qed

lemma manifests_run_record:
  assumes "manifest_get (manifests_run cr dec (manifests_new op) es) n = Some r"
  shows "\<exists>e \<in> set es. \<exists>w. man_check cr dec op e = Inr w \<and> n = w_name w \<and> r = man_record cr e w"
proof -
  have "foldl (\<lambda>c e. Some (man_join c e)) None
      (map snd (filter (\<lambda>i. fst i = n) (man_items cr dec op es))) = Some r"
    using assms man.look_fold [OF man_ok_new, of "man_items cr dec op es" op n]
    by (simp add: manifests_run_fold)
  then have "r \<in> snd ` {i \<in> set (man_items cr dec op es). fst i = n}"
    using man.fold_join_mem [of None "map snd (filter (\<lambda>i. fst i = n) (man_items cr dec op es))" r] by auto
  then have "(n, r) \<in> set (man_items cr dec op es)" by auto
  then show ?thesis by (simp only: set_man_items)
qed

lemma man_ok_run: "man_ok (manifests_run cr dec (manifests_new op) es)"
  by (simp add: manifests_run_fold man.ok_fold man_ok_new)

lemma manifests_run_inj:
  assumes "inj_on (envelope_digest cr) (set es)"
  shows "inj_on mr_digest (set (manifests_live (manifests_run cr dec (manifests_new op) es)))"
proof (rule inj_onI)
  let ?s = "manifests_run cr dec (manifests_new op) es"
  have origin: "\<exists>e \<in> set es. \<exists>w. man_check cr dec op e = Inr w \<and> r = man_record cr e w"
    if r: "r \<in> set (manifests_live ?s)" for r
  proof -
    from r obtain n where "(n, r) \<in> set (ms_workers ?s)" by (auto simp: manifests_live_def)
    with man_ok_run have "manifest_get ?s n = Some r" by (simp add: man_ok_def hm_ok_def manifest_get_def)
    from manifests_run_record [OF this] show ?thesis by blast
  qed
  fix x y
  assume "x \<in> set (manifests_live ?s)" "y \<in> set (manifests_live ?s)" and eq: "mr_digest x = mr_digest y"
  then obtain e v f w where "e \<in> set es" "man_check cr dec op e = Inr v" "x = man_record cr e v"
    "f \<in> set es" "man_check cr dec op f = Inr w" "y = man_record cr f w"
    using origin by meson
  moreover from this eq assms have "e = f" by (simp add: man_record_def inj_on_def)
  ultimately show "x = y" by simp
qed

text \<open>
  C9: deployments converge.  Nodes that receive the same operator envelopes in
  any order and with any repetition hold the same record of every worker, route
  every hostname alike and report the same digest, provided the histories are
  not forked and the envelopes have distinct digests; and the record held is of
  the highest version delivered.
\<close>

theorem manifests_converge:
  assumes "set es = set fs" and "unforked cr dec op (set es)" and "inj_on (envelope_digest cr) (set es)"
  shows "(\<forall>n. manifest_get (manifests_run cr dec (manifests_new op) es) n
             = manifest_get (manifests_run cr dec (manifests_new op) fs) n)
    \<and> routes (manifests_run cr dec (manifests_new op) es) = routes (manifests_run cr dec (manifests_new op) fs)
    \<and> manifests_digest sha (manifests_run cr dec (manifests_new op) es)
      = manifests_digest sha (manifests_run cr dec (manifests_new op) fs)
    \<and> (\<forall>e \<in> set es. \<forall>w. man_check cr dec op e = Inr w \<longrightarrow>
         (\<exists>r. manifest_get (manifests_run cr dec (manifests_new op) es) (w_name w) = Some r
              \<and> w_version w \<le> w_version (mr_manifest r)))"
proof (intro conjI allI ballI impI)
  let ?A = "manifests_run cr dec (manifests_new op) es" and ?B = "manifests_run cr dec (manifests_new op) fs"
  note get = manifests_run_get [OF assms(1,2)]
  show "manifest_get ?A n = manifest_get ?B n" for n by (rule get)
  show "routes ?A = routes ?B"
    by (rule routes_cong [OF man_ok_run man_ok_run get manifests_run_inj [OF assms(3)]])
  show "manifests_digest sha ?A = manifests_digest sha ?B"
    by (rule manifests_digest_cong [OF man_ok_run man_ok_run get])
  fix e w
  assume e: "e \<in> set es" "man_check cr dec op e = Inr w"
  let ?xs = "map snd (filter (\<lambda>i. fst i = w_name w) (man_items cr dec op es))"
  have items: "(w_name w, man_record cr e w) \<in> set (man_items cr dec op es)"
    using e by (auto simp: set_man_items)
  then have mem: "man_record cr e w \<in> set ?xs" by force
  have look: "manifest_get ?A (w_name w) = foldl (\<lambda>c e. Some (man_join c e)) None ?xs"
    using man.look_fold [OF man_ok_new, of "man_items cr dec op es" op "w_name w"]
    by (simp add: manifests_run_fold)
  have cons: "man.consistent (set ?xs \<union> set_option None)"
    using unforked_items(2) [OF assms(2)] by (auto simp: man.consistent_def)
  from mem look man.fold_join_None_iff [of None ?xs] obtain r where r: "manifest_get ?A (w_name w) = Some r"
    by fastforce
  with man.fold_join_Some [OF _ cons, of r] look items have "man_rank (man_record cr e w) \<le> man_rank r" by simp
  with r show "\<exists>r. manifest_get ?A (w_name w) = Some r \<and> w_version w \<le> w_version (mr_manifest r)"
    by (auto simp: man_rank_def man_record_def less_eq_prod_def)
qed

section \<open>Concrete manifests\<close>

text \<open>
  Manifests of one worker, for evaluating the definitions: the payload gives the
  version, a tag, and the tag of the predecessor it links to.
\<close>

definition demo_man_env :: "u8 \<Rightarrow> u8 \<Rightarrow> u8 \<Rightarrow> envelope" where
  "demo_man_env v a p = \<lparr>payload = [v, a, p], signer = Ed [9], sig = replicate 64 0\<rparr>"

definition demo_man :: "u8 \<Rightarrow> u8 \<Rightarrow> u8 \<Rightarrow> worker_manifest" where
  "demo_man v a p = \<lparr>w_name = ''site'', w_version = ucast v,
     w_prev = (if v = 1 then None else Some (envelope_digest demo_crypto (demo_man_env (v - 1) p 0))),
     w_deleted = False, w_main = [], w_modules = [], w_assets = [], w_hostnames = [''example.org''],
     w_env = [], w_kv_bindings = [], w_crons = [], w_compatibility_date = []\<rparr>"

fun demo_man_dec :: "bytes \<Rightarrow> worker_manifest option" where
  "demo_man_dec [v, a, p] = Some (demo_man v a p)"
| "demo_man_dec _ = None"

lemma demo_names: "valid_name ''site''" "valid_hostname ''example.org''"
  by code_simp+

lemma demo_man_check:
  assumes "v = 1 \<or> v = 2"
  shows "man_check demo_crypto demo_man_dec (Ed [9]) (demo_man_env v a p) = Inr (demo_man v a p)"
proof -
  have "open_manifest demo_crypto demo_man_dec (Ed [9]) (demo_man_env v a p) = Inr (demo_man v a p)"
    by (simp add: open_manifest_def envelope_open_def demo_man_env_def signer_verify_def demo_crypto_def)
  moreover have "manifest_validate (demo_man v a p) = None"
    using assms by (auto simp: manifest_validate_None demo_man_def bundle_paths_def demo_names)
  ultimately show ?thesis by (simp add: man_check_def)
qed

lemma demo_man_digest:
  "envelope_digest demo_crypto (demo_man_env v a p) = [v, a, p] @ as_bytes (signer_show (Ed [9])) @ replicate 64 0"
  by (simp add: envelope_digest_def digest_input_def demo_man_env_def demo_crypto_def)

lemma demo_digest_inj: "inj_on (envelope_digest demo_crypto) {demo_man_env v a p | v a p. True}"
  by (auto simp: inj_on_def demo_man_digest)

lemma demo_ingest:
  assumes "v = 1 \<or> v = 2" and "ms_operator s = Ed [9]"
  shows "manifest_ingest demo_crypto demo_man_dec s (demo_man_env v a p) =
     (let r = man_record demo_crypto (demo_man_env v a p) (demo_man v a p) in
      case manifest_get s ''site'' of
        None \<Rightarrow> (man_put ''site'' r s, Inr ManChanged)
      | Some x \<Rightarrow>
          if \<not> man_rank x < man_rank r then (s, Inr ManStale)
          else if man_breaks x r then (s, Inl ChainBroken)
          else (man_put ''site'' r s, Inr ManChanged))"
proof -
  have n: "w_name (demo_man v a p) = ''site''" by (simp add: demo_man_def)
  show ?thesis
    by (simp add: manifest_ingest_check assms(2) demo_man_check [OF assms(1)] n Let_def split: option.split)
qed

theorem routes_spec_witness:
  "let s = fst (manifest_ingest demo_crypto demo_man_dec (manifests_new (Ed [9])) (demo_man_env 1 5 0))
   in map_of (routes s) ''example.org'' = Some ''site'' \<and> map_of (routes s) ''other.org'' = None
      \<and> sorted_wrt (<) (map fst (routes s))"
proof -
  let ?s = "fst (manifest_ingest demo_crypto demo_man_dec (manifests_new (Ed [9])) (demo_man_env 1 5 0))"
  have s: "?s = \<lparr>ms_operator = Ed [9],
      ms_workers = [(''site'', man_record demo_crypto (demo_man_env 1 5 0) (demo_man 1 5 0))]\<rparr>"
    by (simp add: demo_ingest Let_def) (simp add: man_put_def manifests_new_def)
  have live: "manifests_live ?s = [man_record demo_crypto (demo_man_env 1 5 0) (demo_man 1 5 0)]"
    unfolding s by (simp add: manifests_live_def man_record_def demo_man_def)
  have h: "w_hostnames (mr_manifest (man_record demo_crypto (demo_man_env 1 5 0) (demo_man 1 5 0))) = [''example.org'']"
    and n: "w_name (mr_manifest (man_record demo_crypto (demo_man_env 1 5 0) (demo_man 1 5 0))) = ''site''"
    by (simp_all add: man_record_def demo_man_def)
  note a = routes_spec [of ?s "''example.org''", unfolded live]
  note b = routes_spec [of ?s "''other.org''", unfolded live]
  have "map_of (routes ?s) ''example.org'' = Some ''site''"
    using a h n by (cases "map_of (routes ?s) ''example.org''") auto
  moreover have "map_of (routes ?s) ''other.org'' = None" using b h by auto
  moreover have "sorted_wrt (<) (map fst (routes ?s))" using a by blast
  ultimately show ?thesis by (simp only: Let_def simp_thms)
qed

theorem manifests_ok_preserved_witness:
  "manifests_ok demo_crypto demo_man_dec (manifests_new (Ed [9])) \<and>
   manifest_get (fst (manifest_ingest demo_crypto demo_man_dec (manifests_new (Ed [9])) (demo_man_env 1 5 0))) ''site'' \<noteq> None \<and>
   manifests_ok demo_crypto demo_man_dec
     (fst (manifest_ingest demo_crypto demo_man_dec (manifests_new (Ed [9])) (demo_man_env 1 5 0)))"
proof -
  have new: "manifests_ok demo_crypto demo_man_dec (manifests_new (Ed [9]))"
    by (simp add: manifests_ok_def man_ok_new)
  have "manifest_get (fst (manifest_ingest demo_crypto demo_man_dec (manifests_new (Ed [9])) (demo_man_env 1 5 0))) ''site'' \<noteq> None"
    by (simp add: demo_ingest Let_def man_put_def manifest_get_def manifests_new_def)
  with new conjunct1 [OF manifests_ok_preserved [OF new, of "demo_man_env 1 5 0"]] show ?thesis by blast
qed

theorem manifests_converge_witness:
  "let es = [demo_man_env 1 5 0, demo_man_env 2 7 5]; fs = [demo_man_env 2 7 5, demo_man_env 1 5 0, demo_man_env 2 7 5]
   in set es = set fs \<and> unforked demo_crypto demo_man_dec (Ed [9]) (set es)
      \<and> inj_on (envelope_digest demo_crypto) (set es)
      \<and> routes (manifests_run demo_crypto demo_man_dec (manifests_new (Ed [9])) es)
        = routes (manifests_run demo_crypto demo_man_dec (manifests_new (Ed [9])) fs)"
proof -
  let ?es = "[demo_man_env 1 5 0, demo_man_env 2 7 5]"
  let ?fs = "[demo_man_env 2 7 5, demo_man_env 1 5 0, demo_man_env 2 7 5]"
  have s: "set ?es = set ?fs" by auto
  have u: "unforked demo_crypto demo_man_dec (Ed [9]) (set ?es)"
    by (auto simp: unforked_def demo_man_check) (auto simp: demo_man_def)
  have i: "inj_on (envelope_digest demo_crypto) (set ?es)"
    by (rule inj_on_subset [OF demo_digest_inj]) auto
  from s u i manifests_converge [OF s u i] show ?thesis by (simp only: Let_def simp_thms)
qed

text \<open>
  C30: a fork at one version can split the cluster for good.  With two first
  versions of a worker and a second version that links to the one with the
  higher digest, a node that sees the higher one and its successor first ends at
  version 2, while a node that sees the lower one first refuses the successor
  as \<open>ChainBroken\<close> and stays at version 1, also when everything is delivered to
  both again.
\<close>

theorem manifest_fork_diverges:
  "let es = [demo_man_env 1 5 0, demo_man_env 2 7 5, demo_man_env 1 3 0];
       fs = [demo_man_env 1 3 0, demo_man_env 1 5 0, demo_man_env 2 7 5];
       run = manifests_run demo_crypto demo_man_dec (manifests_new (Ed [9]))
   in set es = set fs
    \<and> map_option (\<lambda>r. w_version (mr_manifest r)) (manifest_get (run es) ''site'') = Some 2
    \<and> map_option (\<lambda>r. w_version (mr_manifest r)) (manifest_get (run fs) ''site'') = Some 1
    \<and> run (es @ fs) = run es \<and> run (fs @ es) = run fs
    \<and> snd (manifest_ingest demo_crypto demo_man_dec (run fs) (demo_man_env 2 7 5)) = Inl ChainBroken"
proof -
  let ?r = "\<lambda>v a p. man_record demo_crypto (demo_man_env v a p) (demo_man v a p)"
  let ?s = "\<lambda>r. \<lparr>ms_operator = Ed [9], ms_workers = [(''site'', r)]\<rparr>"
  have op: "ms_operator (?s r) = Ed [9]" for r by simp
  have get: "manifest_get (?s r) ''site'' = Some r" for r by (simp add: manifest_get_def)
  have put: "man_put ''site'' r (?s q) = ?s r" for r q by (simp add: man_put_def)
  have first: "manifest_ingest demo_crypto demo_man_dec (manifests_new (Ed [9])) (demo_man_env 1 a p)
      = (?s (?r 1 a p), Inr ManChanged)" for a p
    by (simp add: demo_ingest Let_def) (simp add: man_put_def manifests_new_def)
  have rank: "\<not> man_rank (?r 2 7 5) < man_rank (?r 1 a p)" "man_rank (?r 1 a p) < man_rank (?r 2 7 5)"
    "\<not> man_rank (?r 1 3 0) < man_rank (?r 1 5 0)" "\<not> man_rank r < man_rank r" for a p r
    by (simp_all add: man_rank_def man_record_def demo_man_def demo_man_digest less_prod_def word_less_nat_alt word_le_nat_alt)
  have breaks: "\<not> man_breaks (?r 1 5 0) (?r 2 7 5)" "man_breaks (?r 1 3 0) (?r 2 7 5)"
    by (simp_all add: man_breaks_def man_record_def demo_man_def demo_man_digest)
  note eval = demo_ingest [OF _ op] get put first rank breaks Let_def
  have es: "manifests_run demo_crypto demo_man_dec (manifests_new (Ed [9]))
      ([demo_man_env 1 5 0, demo_man_env 2 7 5, demo_man_env 1 3 0] @ xs)
      = manifests_run demo_crypto demo_man_dec (?s (?r 2 7 5)) xs" for xs
    by (simp add: eval)
  have fs: "manifests_run demo_crypto demo_man_dec (manifests_new (Ed [9]))
      ([demo_man_env 1 3 0, demo_man_env 1 5 0, demo_man_env 2 7 5] @ xs)
      = manifests_run demo_crypto demo_man_dec (?s (?r 1 3 0)) xs" for xs
    by (simp add: eval)
  have v: "w_version (mr_manifest (?r 2 7 5)) = 2" "w_version (mr_manifest (?r 1 3 0)) = 1"
    by (simp_all add: man_record_def demo_man_def)
  show ?thesis
    unfolding Let_def
    using es [of "[]"] fs [of "[]"] es [of "[demo_man_env 1 3 0, demo_man_env 1 5 0, demo_man_env 2 7 5]"]
      fs [of "[demo_man_env 1 5 0, demo_man_env 2 7 5, demo_man_env 1 3 0]"]
    by (auto simp: eval v)
qed

section \<open>Verified logs\<close>

lemma open_manifest_Inr: "open_manifest cr dec op env = Inr w \<longleftrightarrow> envelope_open cr dec (Some op) env = Inr w"
  by (auto simp: open_manifest_def split: sum.splits envelope_error.splits)

text \<open>How a manifest may follow the last one seen.\<close>

definition follows :: "(worker_manifest \<times> bytes) option \<Rightarrow> worker_manifest \<Rightarrow> bool" where
  "follows lst w \<longleftrightarrow>
     (case lst of
        Some (l, d) \<Rightarrow> w_version w = w_version l + 1 \<and> w_name w = w_name l \<and> w_prev w = Some d
      | None \<Rightarrow> w_version w = 1 \<longrightarrow> w_prev w = None)"

lemma verify_from_Cons:
  "verify_from cr dec op lst (env # envs) = Inr ws \<longleftrightarrow>
     (\<exists>w vs. ws = w # vs \<and> envelope_open cr dec (Some op) env = Inr w \<and> follows lst w \<and>
        verify_from cr dec op (Some (w, envelope_digest cr env)) envs = Inr vs)"
  by (cases "open_manifest cr dec op env";
      cases "verify_from cr dec op (Some (projr (open_manifest cr dec op env), envelope_digest cr env)) envs")
     (auto simp: follows_def open_manifest_Inr [symmetric] split: option.splits if_splits)

text \<open>Consecutive entries of a log link.\<close>

definition linked :: "crypto \<Rightarrow> (envelope \<times> worker_manifest) list \<Rightarrow> bool" where
  "linked cr = successively (\<lambda>(e, w) (f, v).
     w_version v = w_version w + 1 \<and> w_name v = w_name w \<and> w_prev v = Some (envelope_digest cr e))"

lemma verify_from_iff:
  "verify_from cr dec op lst envs = Inr ws \<longleftrightarrow>
     list_all2 (\<lambda>env w. envelope_open cr dec (Some op) env = Inr w) envs ws \<and>
     (envs \<noteq> [] \<longrightarrow> follows lst (hd ws)) \<and> linked cr (zip envs ws)"
proof (induction envs arbitrary: lst ws)
  case (Cons env envs)
  show ?case
  proof (cases ws)
    case Nil
    then show ?thesis by (auto simp: verify_from_Cons simp del: verify_from.simps)
  next
    case ws: (Cons w vs)
    have "linked cr (zip (env # envs) (w # vs)) \<longleftrightarrow>
        (envs \<noteq> [] \<longrightarrow> follows (Some (w, envelope_digest cr env)) (hd vs)) \<and> linked cr (zip envs vs)"
      if "list_all2 (\<lambda>env w. envelope_open cr dec (Some op) env = Inr w) envs vs"
      using that by (cases envs; cases vs) (auto simp: linked_def follows_def)
    then show ?thesis
      unfolding verify_from_Cons ws using Cons.IH by (auto simp: ws)
  qed
qed (auto simp: linked_def)

text \<open>
  Verification: \<open>verify_chain\<close> accepts exactly the operator's contiguous chains.  It
  returns the decoded manifests when every envelope verifies for the operator,
  versions go up by one under one name, every \<open>prev\<close> is the digest of the
  envelope before, and a log that starts at version 1 has no \<open>prev\<close> there;
  in every other case it is an error.
\<close>

theorem verify_chain_iff:
  "verify_chain cr dec envs op = Inr ws \<longleftrightarrow>
     list_all2 (\<lambda>env w. envelope_open cr dec (Some op) env = Inr w) envs ws \<and>
     (envs \<noteq> [] \<and> w_version (hd ws) = 1 \<longrightarrow> w_prev (hd ws) = None) \<and>
     linked cr (zip envs ws)"
  by (auto simp: verify_chain_def verify_from_iff follows_def)

theorem verify_chain_iff_witness:
  "verify_chain demo_crypto demo_man_dec [demo_man_env 1 5 0, demo_man_env 2 7 5] (Ed [9])
     = Inr [demo_man 1 5 0, demo_man 2 7 5]"
proof -
  have "envelope_open demo_crypto demo_man_dec (Some (Ed [9])) (demo_man_env v a p) = Inr (demo_man v a p)" for v a p
    by (simp add: envelope_open_def demo_man_env_def signer_verify_def demo_crypto_def)
  then show ?thesis
    unfolding verify_chain_iff by (simp add: linked_def) (simp add: demo_man_def)
qed

lemma linked_history:
  assumes "list_all2 (\<lambda>env w. envelope_open cr dec (Some op) env = Inr w) es ws"
    and "list_all2 (\<lambda>env w. envelope_open cr dec (Some op) env = Inr w) fs vs"
    and "linked cr (zip es ws)" and "linked cr (zip fs vs)"
    and "length es = length fs" and "es \<noteq> []" and "last es = last fs"
    and "inj_on (envelope_digest cr) (set es \<union> set fs)"
  shows "es = fs"
  using assms
proof (induction es arbitrary: fs ws vs)
  case (Cons e es)
  from Cons.prems(5) obtain f gs where fs: "fs = f # gs" and len: "length es = length gs" by (cases fs) auto
  from Cons.prems(1) obtain w xs where ws: "ws = w # xs" by (cases ws) auto
  from Cons.prems(2) obtain v ys where vs: "vs = v # ys" by (cases vs) (auto simp: fs)
  show ?case
  proof (cases es)
    case Nil
    with len Cons.prems(7) show ?thesis by (simp add: fs)
  next
    case es: (Cons e' es')
    from len es obtain f' gs' where gs: "gs = f' # gs'" by (cases gs) auto
    from Cons.prems(1) obtain w' xs' where xs: "xs = w' # xs'" by (cases xs) (auto simp: ws es)
    from Cons.prems(2) obtain v' ys' where ys: "ys = v' # ys'" by (cases ys) (auto simp: fs vs gs)
    have "es = gs"
    proof (rule Cons.IH)
      show "linked cr (zip es xs)" "linked cr (zip gs ys)"
        using Cons.prems(3,4) by (simp_all add: linked_def ws vs fs es gs xs ys)
      show "last es = last gs" using Cons.prems(7) by (simp add: fs es gs)
      show "inj_on (envelope_digest cr) (set es \<union> set gs)"
        by (rule inj_on_subset [OF Cons.prems(8)]) (auto simp: fs)
    qed (use Cons.prems(1,2) len es in \<open>auto simp: ws vs fs\<close>)
    then have "e' = f'" by (simp only: es gs list.inject)
    moreover have "envelope_open cr dec (Some op) e' = Inr w'" "envelope_open cr dec (Some op) f' = Inr v'"
      using Cons.prems(1) [unfolded ws es xs] Cons.prems(2) [unfolded fs vs gs ys] by simp_all
    moreover have "w_prev w' = Some (envelope_digest cr e)" "w_prev v' = Some (envelope_digest cr f)"
      using Cons.prems(3) [unfolded ws es xs] Cons.prems(4) [unfolded fs vs gs ys] by (simp_all add: linked_def)
    ultimately have "envelope_digest cr e = envelope_digest cr f" by simp
    then have "e = f" by (rule inj_onD [OF Cons.prems(8)]) (simp_all add: fs)
    with \<open>es = gs\<close> show ?thesis by (simp only: fs)
  qed
qed simp

text \<open>
  C28: the last envelope commits to the whole history.  Two logs of the same
  length that both verify and end in the same envelope are the same log, as long
  as no two of their envelopes have the same digest: nobody, holding the
  operator key or not, can rewrite the past under a given head.
\<close>

theorem verified_history_unique:
  assumes "verify_chain cr dec es op = Inr ws" and "verify_chain cr dec fs op = Inr vs"
    and "length es = length fs" and "es \<noteq> []" and "last es = last fs"
    and "inj_on (envelope_digest cr) (set es \<union> set fs)"
  shows "es = fs \<and> ws = vs"
proof -
  from assms(1,2) have
    o: "list_all2 (\<lambda>env w. envelope_open cr dec (Some op) env = Inr w) es ws"
       "list_all2 (\<lambda>env w. envelope_open cr dec (Some op) env = Inr w) fs vs"
    and l: "linked cr (zip es ws)" "linked cr (zip fs vs)"
    by (simp_all add: verify_chain_def verify_from_iff)
  from linked_history [OF o l assms(3-6)] assms(1,2) show ?thesis by simp
qed

theorem verified_history_unique_witness:
  "verify_chain demo_crypto demo_man_dec [demo_man_env 1 5 0, demo_man_env 2 7 5] (Ed [9])
     = Inr [demo_man 1 5 0, demo_man 2 7 5]
   \<and> \<not> (\<exists>vs. verify_chain demo_crypto demo_man_dec [demo_man_env 1 3 0, demo_man_env 2 7 5] (Ed [9]) = Inr vs)"
proof -
  have op: "envelope_open demo_crypto demo_man_dec (Some (Ed [9])) (demo_man_env v a p) = Inr (demo_man v a p)" for v a p
    by (simp add: envelope_open_def demo_man_env_def signer_verify_def demo_crypto_def)
  have ok: "verify_chain demo_crypto demo_man_dec [demo_man_env 1 5 0, demo_man_env 2 7 5] (Ed [9])
     = Inr [demo_man 1 5 0, demo_man 2 7 5]"
    unfolding verify_chain_def verify_from_iff by (simp add: linked_def follows_def op) (simp add: demo_man_def)
  have "p = 5" if "verify_chain demo_crypto demo_man_dec [demo_man_env 1 p 0, demo_man_env 2 7 5] (Ed [9]) = Inr vs" for p vs
  proof -
    have "inj_on (envelope_digest demo_crypto)
        (set [demo_man_env 1 p 0, demo_man_env 2 7 5] \<union> set [demo_man_env 1 5 0, demo_man_env 2 7 5])"
      by (rule inj_on_subset [OF demo_digest_inj]) auto
    from verified_history_unique [OF that ok _ _ _ this] show ?thesis by (simp add: demo_man_env_def)
  qed
  from this [of 3] ok show ?thesis by force
qed

section \<open>Bundle paths\<close>

text \<open>
  C31: a deployed bundle stays inside its directory.  Every module and asset path
  of a validated, undeleted manifest, joined onto a directory component by
  component with \<open>.\<close> and \<open>..\<close> interpreted, is that directory extended by the
  components of the path, and no two paths of the bundle name the same file.
\<close>

theorem bundle_paths_stay_inside:
  assumes "manifest_validate w = None" and "\<not> w_deleted w" and "p \<in> set (bundle_paths w)"
  shows "resolve_path dir (split CHR ''/'' p) = dir @ split CHR ''/'' p
    \<and> (\<forall>q \<in> set (bundle_paths w). resolve_path dir (split CHR ''/'' q) = resolve_path dir (split CHR ''/'' p) \<longrightarrow> q = p)
    \<and> distinct (bundle_paths w)"
proof -
  from assms(1,2) have v: "list_all valid_bundle_path (bundle_paths w)" and d: "distinct (bundle_paths w)"
    by (simp_all add: manifest_validate_None)
  have r: "resolve_path dir (split CHR ''/'' q) = dir @ split CHR ''/'' q" if "q \<in> set (bundle_paths w)" for q
    using v that by (intro resolve_plain) (simp add: list_all_iff valid_bundle_path_def)
  moreover have "q = p" if "split CHR ''/'' q = split CHR ''/'' p" for q
    using that by (metis join_split)
  ultimately show ?thesis using assms(3) d by auto
qed

theorem bundle_paths_stay_inside_witness:
  "let w = (demo_man 1 5 0)\<lparr>w_assets := [\<lparr>a_path = ''css/site.css'', a_sha256 = [], a_size = 3\<rparr>]\<rparr>
   in manifest_validate w = None \<and> \<not> w_deleted w \<and>
      resolve_path [''srv''] (split CHR ''/'' ''css/site.css'') = [''srv'', ''css'', ''site.css'']"
proof -
  let ?w = "(demo_man 1 5 0)\<lparr>w_assets := [\<lparr>a_path = ''css/site.css'', a_sha256 = [], a_size = 3\<rparr>]\<rparr>"
  have p: "valid_bundle_path ''css/site.css''" by code_simp
  have v: "manifest_validate ?w = None" and d: "\<not> w_deleted ?w" and m: "''css/site.css'' \<in> set (bundle_paths ?w)"
    by (simp_all add: manifest_validate_None demo_man_def bundle_paths_def demo_names p)
  have s: "split CHR ''/'' ''css/site.css'' = [''css'', ''site.css'']" by code_simp
  from bundle_paths_stay_inside [OF v d m, of "[''srv'']"] v d show ?thesis by (simp add: s Let_def)
qed

end
