(* ===== verification/Raft_Node.thy ===== *)
theory Raft_Node
  imports Identity
begin

text \<open>
  One member of a replica group, as in \<^verbatim>\<open>crates/rf-core/src/quorum.rs\<close>: the Raft
  state, its handlers and the rendezvous choice of a group.  Every operation
  returns the new state and the actions for the surrounding driver.  Epochs and
  sequence numbers are natural numbers: the 64-bit counters of the code are
  incremented once per election and per command and are taken not to overflow.
\<close>

record entry =
  en_epoch :: nat
  en_seq :: nat
  en_cmd :: bytes

datatype msg =
    VoteReq (vq_epoch: nat) (vq_last_epoch: nat) (vq_last_seq: nat)
  | VoteResp (vr_epoch: nat) (vr_granted: bool)
  | Append (ap_epoch: nat) (ap_prev_seq: nat) (ap_prev_epoch: nat) (ap_entries: "entry list") (ap_commit: nat)
  | AppendResp (ar_epoch: nat) (ar_match: nat) (ar_ok: bool)
  | InstallSnapshot (is_epoch: nat) (is_last_seq: nat) (is_last_epoch: nat) (is_data: bytes)

datatype action =
    PersistMeta
  | PersistLog nat
  | Send public_id msg
  | Apply entry
  | ApplySnapshot nat bytes
  | NeedSnapshot public_id
  | BecameLeader
  | LostLeadership

datatype role =
    Follower
  | Candidate (votes: "public_id list")
  | Leader (nexts: "(public_id \<times> nat) list") (matched: "(public_id \<times> nat) list")

record raft =
  me :: public_id
  group :: "public_id list"
  epoch :: nat
  voted_for :: "public_id option"
  log :: "entry list"
  base_seq :: nat
  base_epoch :: nat
  commit :: nat
  applied :: nat
  role :: role
  leader :: "public_id option"

section \<open>Construction and compaction\<close>

definition raft_new :: "public_id \<Rightarrow> public_id list \<Rightarrow> raft" where
  "raft_new i g =
     \<lparr>me = i, group = sort (if i \<in> set g then g else g @ [i]), epoch = 0, voted_for = None, log = [],
      base_seq = 0, base_epoch = 0, commit = 0, applied = 0, role = Follower, leader = None\<rparr>"

definition raft_restore ::
  "public_id \<Rightarrow> public_id list \<Rightarrow> nat \<Rightarrow> public_id option \<Rightarrow> nat \<Rightarrow> nat \<Rightarrow> entry list \<Rightarrow> nat \<Rightarrow> raft" where
  "raft_restore i g ep vf bs be lg ap =
     (raft_new i g)\<lparr>epoch := ep, voted_for := vf, base_seq := bs, base_epoch := be, log := lg,
        commit := max ap bs, applied := max ap bs\<rparr>"

definition entry_at :: "raft \<Rightarrow> nat \<Rightarrow> entry option" where
  "entry_at r seq =
     (if seq \<le> base_seq r then None
      else if seq - base_seq r - 1 < length (log r) then Some (log r ! (seq - base_seq r - 1)) else None)"

definition epoch_at :: "raft \<Rightarrow> nat \<Rightarrow> nat option" where
  "epoch_at r seq = (if seq = base_seq r then Some (base_epoch r) else map_option en_epoch (entry_at r seq))"

definition last_entry :: "raft \<Rightarrow> nat \<times> nat" where
  "last_entry r = (if log r = [] then (base_epoch r, base_seq r) else (en_epoch (last (log r)), en_seq (last (log r))))"

definition snapshot_point :: "raft \<Rightarrow> nat \<times> nat" where
  "snapshot_point r =
     (applied r,
      if applied r = base_seq r then base_epoch r
      else case entry_at r (applied r) of Some e \<Rightarrow> en_epoch e | None \<Rightarrow> base_epoch r)"

definition raft_compact :: "raft \<Rightarrow> nat \<Rightarrow> raft \<times> bool" where
  "raft_compact r keep_tail =
     (let new_base = applied r - keep_tail in
      if new_base \<le> base_seq r then (r, False)
      else case entry_at r new_base of
        None \<Rightarrow> (r, False)
      | Some e \<Rightarrow>
          (r\<lparr>log := drop (new_base - base_seq r) (log r), base_seq := new_base, base_epoch := en_epoch e\<rparr>, True))"

definition is_leader :: "raft \<Rightarrow> bool" where
  "is_leader r = (case role r of Leader _ _ \<Rightarrow> True | _ \<Rightarrow> False)"

definition leader_hint :: "raft \<Rightarrow> public_id option" where
  "leader_hint r =
     (if is_leader r then Some (me r) else case leader r of Some l \<Rightarrow> Some l | None \<Rightarrow> voted_for r)"

definition majority :: "raft \<Rightarrow> nat" where
  "majority r = length (group r) div 2 + 1"

definition others :: "raft \<Rightarrow> public_id list" where
  "others r = filter (\<lambda>p. p \<noteq> me r) (group r)"

section \<open>Replication\<close>

text \<open>The message for one peer; the loop body of \<open>replicate_all\<close>.\<close>

definition replicate_one :: "raft \<Rightarrow> public_id \<times> nat \<Rightarrow> action" where
  "replicate_one r = (\<lambda>(peer, next_seq).
     (let prev_seq = next_seq - 1 in
      if prev_seq < base_seq r then NeedSnapshot peer
      else Send peer (Append (epoch r) prev_seq
             (case epoch_at r prev_seq of Some e \<Rightarrow> e | None \<Rightarrow> 0)
             (filter (\<lambda>e. en_seq e \<ge> next_seq) (log r)) (commit r))))"

definition replicate_all :: "raft \<Rightarrow> action list" where
  "replicate_all r = (case role r of Leader nx _ \<Rightarrow> map (replicate_one r) nx | _ \<Rightarrow> [])"

definition apply_committed :: "raft \<Rightarrow> raft \<times> action list" where
  "apply_committed r =
     (r\<lparr>applied := max (applied r) (commit r)\<rparr>,
      concat (map (\<lambda>n. case entry_at r n of Some e \<Rightarrow> [Apply e] | None \<Rightarrow> []) [Suc (applied r)..<Suc (commit r)]))"

text \<open>The loop of \<open>advance_commit\<close>: it stops at the first number not on a majority.\<close>

fun commit_scan :: "raft \<Rightarrow> (public_id \<times> nat) list \<Rightarrow> nat list \<Rightarrow> nat \<Rightarrow> nat" where
  "commit_scan r m [] candidate = candidate"
| "commit_scan r m (n # ns) candidate =
     (if majority r \<le> 1 + length (filter (\<lambda>(_, k). n \<le> k) m)
      then commit_scan r m ns (if map_option en_epoch (entry_at r n) = Some (epoch r) then n else candidate)
      else candidate)"

definition advance_commit :: "raft \<Rightarrow> raft \<times> action list" where
  "advance_commit r =
     (case role r of
        Leader _ m \<Rightarrow>
          (let candidate = commit_scan r m [Suc (commit r)..<Suc (snd (last_entry r))] (commit r);
               advanced = commit r < candidate;
               r1 = (if advanced then r\<lparr>commit := candidate\<rparr> else r);
               (r2, acts) = apply_committed r1
           in (r2, acts @ (if advanced then replicate_all r2 else [])))
      | _ \<Rightarrow> (r, []))"

section \<open>Elections\<close>

definition become_follower :: "raft \<Rightarrow> nat \<Rightarrow> raft \<times> action list" where
  "become_follower r e =
     (let bump = epoch r < e;
          r1 = (if bump then r\<lparr>epoch := e, voted_for := None, leader := None\<rparr> else r)
      in (r1\<lparr>role := Follower\<rparr>,
          (if bump then [PersistMeta] else []) @ (if is_leader r then [LostLeadership] else [])))"

definition try_win :: "raft \<Rightarrow> raft \<times> action list" where
  "try_win r =
     (case role r of
        Candidate vs \<Rightarrow>
          if length vs < majority r then (r, [])
          else (let next_seq = snd (last_entry r) + 1;
                    r1 = r\<lparr>role := Leader (map (\<lambda>p. (p, next_seq)) (others r)) (map (\<lambda>p. (p, 0)) (others r))\<rparr>
                in (r1, BecameLeader # replicate_all r1))
      | _ \<Rightarrow> (r, []))"

definition tick_election :: "raft \<Rightarrow> raft \<times> action list" where
  "tick_election r =
     (if is_leader r then (r, [])
      else
        (let r1 = r\<lparr>epoch := epoch r + 1, voted_for := Some (me r), leader := None, role := Candidate [me r]\<rparr>;
             (last_epoch, last_seq) = last_entry r1;
             (r2, acts) = try_win r1
         in (r2, PersistMeta # map (\<lambda>p. Send p (VoteReq (epoch r1) last_epoch last_seq)) (others r1) @ acts)))"

definition heartbeat :: "raft \<Rightarrow> raft \<times> action list" where
  "heartbeat r = (r, if is_leader r then replicate_all r else [])"

definition propose :: "raft \<Rightarrow> bytes \<Rightarrow> raft \<times> (public_id option + nat \<times> action list)" where
  "propose r cmd =
     (if \<not> is_leader r then (r, Inl (leader_hint r))
      else
        (let seq = snd (last_entry r) + 1;
             r1 = r\<lparr>log := log r @ [\<lparr>en_epoch = epoch r, en_seq = seq, en_cmd = cmd\<rparr>]\<rparr>;
             (r2, acts) = advance_commit r1
         in (r2, Inr (seq, PersistLog seq # replicate_all r1 @ acts))))"

section \<open>Handlers\<close>

definition handle_vote_req :: "raft \<Rightarrow> public_id \<Rightarrow> nat \<Rightarrow> nat \<Rightarrow> nat \<Rightarrow> raft \<times> action list" where
  "handle_vote_req r from e last_epoch last_seq =
     (let (r1, acts) = (if epoch r < e then become_follower r e else (r, []));
          up_to_date = (last_entry r1 \<le> (last_epoch, last_seq));
          granted = (e = epoch r1 \<and> up_to_date \<and> (voted_for r1 = None \<or> voted_for r1 = Some from));
          r2 = (if granted \<and> voted_for r1 = None then r1\<lparr>voted_for := Some from\<rparr> else r1)
      in (r2, acts @ (if granted \<and> voted_for r1 = None then [PersistMeta] else [])
              @ [Send from (VoteResp (epoch r2) granted)]))"

definition handle_vote_resp :: "raft \<Rightarrow> public_id \<Rightarrow> nat \<Rightarrow> bool \<Rightarrow> raft \<times> action list" where
  "handle_vote_resp r from e granted =
     (if epoch r < e then become_follower r e
      else if e \<noteq> epoch r \<or> \<not> granted then (r, [])
      else try_win
        (case role r of
           Candidate vs \<Rightarrow> if from \<in> set vs then r else r\<lparr>role := Candidate (vs @ [from])\<rparr>
         | _ \<Rightarrow> r))"

text \<open>The common start of the two handlers that learn who leads.\<close>

definition accept_leader :: "raft \<Rightarrow> public_id \<Rightarrow> nat \<Rightarrow> raft \<times> action list" where
  "accept_leader r from e =
     (let (r1, acts) = become_follower r e;
          r2 = r1\<lparr>leader := Some from\<rparr>
      in if voted_for r2 = None then (r2\<lparr>voted_for := Some from\<rparr>, acts @ [PersistMeta]) else (r2, acts))"

text \<open>One entry of an append, with \<open>persist_from\<close> threaded through.\<close>

definition append_one :: "entry \<Rightarrow> raft \<times> nat option \<Rightarrow> raft \<times> nat option" where
  "append_one e = (\<lambda>(r, persist_from).
     (if en_seq e \<le> base_seq r then (r, persist_from)
      else case entry_at r (en_seq e) of
        Some existing \<Rightarrow>
          if en_epoch existing = en_epoch e then (r, persist_from)
          else (r\<lparr>log := take (en_seq e - base_seq r - 1) (log r) @ [e]\<rparr>,
                case persist_from of None \<Rightarrow> Some (en_seq e) | _ \<Rightarrow> persist_from)
      | None \<Rightarrow> (r\<lparr>log := take (en_seq e - base_seq r - 1) (log r) @ [e]\<rparr>,
                 case persist_from of None \<Rightarrow> Some (en_seq e) | _ \<Rightarrow> persist_from)))"

definition prev_ok :: "raft \<Rightarrow> nat \<Rightarrow> nat \<Rightarrow> bool" where
  "prev_ok r prev_seq prev_epoch \<longleftrightarrow>
     prev_seq = 0 \<or> prev_seq < base_seq r \<or> epoch_at r prev_seq = Some prev_epoch"

definition handle_append ::
  "raft \<Rightarrow> public_id \<Rightarrow> nat \<Rightarrow> nat \<Rightarrow> nat \<Rightarrow> entry list \<Rightarrow> nat \<Rightarrow> raft \<times> action list" where
  "handle_append r from e prev_seq prev_epoch entries c =
     (if e < epoch r then (r, [Send from (AppendResp (epoch r) 0 False)])
      else
        (let (r1, acts) = accept_leader r from e in
         if \<not> prev_ok r1 prev_seq prev_epoch then
           (r1, acts @ [Send from (AppendResp (epoch r1)
              (max (min (snd (last_entry r1)) (prev_seq - 1)) (base_seq r1)) False)])
         else
           (let (r2, persist_from) = fold append_one entries (r1, None);
                plog = (case persist_from of Some n \<Rightarrow> [PersistLog n] | None \<Rightarrow> []);
                match_seq = snd (last_entry r2);
                (r3, applies) =
                  (if commit r2 < c then apply_committed (r2\<lparr>commit := min c match_seq\<rparr>) else (r2, []))
            in (r3, acts @ plog @ applies @ [Send from (AppendResp (epoch r3) match_seq True)]))))"

definition handle_install ::
  "raft \<Rightarrow> public_id \<Rightarrow> nat \<Rightarrow> nat \<Rightarrow> nat \<Rightarrow> bytes \<Rightarrow> raft \<times> action list" where
  "handle_install r from e last_seq last_epoch data =
     (if e < epoch r then (r, [Send from (AppendResp (epoch r) 0 False)])
      else
        (let (r1, acts) = accept_leader r from e in
         if last_seq \<le> applied r1 then
           (r1, acts @ [Send from (AppendResp (epoch r1) (snd (last_entry r1)) True)])
         else
           (r1\<lparr>log := [], base_seq := last_seq, base_epoch := last_epoch, commit := last_seq, applied := last_seq\<rparr>,
            acts @ [ApplySnapshot last_seq data, PersistMeta, PersistLog (last_seq + 1),
                    Send from (AppendResp (epoch r1) last_seq True)])))"

text \<open>\<open>find\<close> on a mutable iterator: update the first pair of a peer.\<close>

fun update_peer :: "public_id \<Rightarrow> (nat \<Rightarrow> nat) \<Rightarrow> (public_id \<times> nat) list \<Rightarrow> (public_id \<times> nat) list" where
  "update_peer p f [] = []"
| "update_peer p f ((q, n) # xs) = (if q = p then (q, f n) # xs else (q, n) # update_peer p f xs)"

text \<open>Where a leader resumes after a refusal with hint \<open>match_seq\<close>.\<close>

definition back_up :: "raft \<Rightarrow> nat \<Rightarrow> nat \<Rightarrow> nat" where
  "back_up r match_seq n =
     (let floor = base_seq r + 1
      in if n \<le> floor then max (base_seq r) 1 else max (min (match_seq + 1) (n - 1)) floor)"

definition handle_append_resp :: "raft \<Rightarrow> public_id \<Rightarrow> nat \<Rightarrow> nat \<Rightarrow> bool \<Rightarrow> raft \<times> action list" where
  "handle_append_resp r from e match_seq ok =
     (if epoch r < e then become_follower r e
      else if e \<noteq> epoch r then (r, [])
      else case role r of
        Leader nx mt \<Rightarrow>
          if ok then
            advance_commit (r\<lparr>role := Leader (update_peer from (\<lambda>_. match_seq + 1) nx)
                                            (update_peer from (\<lambda>k. max k match_seq) mt)\<rparr>)
          else
            (let r1 = r\<lparr>role := Leader (update_peer from (back_up r match_seq) nx) mt\<rparr>
             in (r1, replicate_all r1))
      | _ \<Rightarrow> (r, []))"

definition handle :: "raft \<Rightarrow> public_id \<Rightarrow> msg \<Rightarrow> raft \<times> action list" where
  "handle r from msg =
     (case msg of
        VoteReq e le ls \<Rightarrow> handle_vote_req r from e le ls
      | VoteResp e g \<Rightarrow> handle_vote_resp r from e g
      | Append e ps pe es c \<Rightarrow> handle_append r from e ps pe es c
      | InstallSnapshot e ls le d \<Rightarrow> handle_install r from e ls le d
      | AppendResp e k ok \<Rightarrow> handle_append_resp r from e k ok)"

text \<open>
  The driver's answer to \<open>NeedSnapshot\<close> (\<^verbatim>\<open>crates/rf/src/d1.rs\<close>): the captured
  state machine, labelled with the point it corresponds to.
\<close>

definition ship_snapshot :: "raft \<Rightarrow> bytes \<Rightarrow> msg" where
  "ship_snapshot r data =
     (case snapshot_point r of (last_seq, last_epoch) \<Rightarrow> InstallSnapshot (epoch r) last_seq last_epoch data)"

section \<open>Choosing the group\<close>

definition node_score :: "(bytes \<Rightarrow> bytes) \<Rightarrow> string \<Rightarrow> public_id \<Rightarrow> bytes" where
  "node_score sha object node = sha (as_bytes object @ [0] @ node)"

definition rendezvous_group :: "(bytes \<Rightarrow> bytes) \<Rightarrow> string \<Rightarrow> public_id list \<Rightarrow> nat \<Rightarrow> public_id list" where
  "rendezvous_group sha object universe k =
     map snd (take k (rev (sort (map (\<lambda>node. (node_score sha object node, node)) universe))))"

section \<open>The shape of the log\<close>

declare upt_Suc [simp del]

definition log_ok :: "raft \<Rightarrow> bool" where
  "log_ok r \<longleftrightarrow> map en_seq (log r) = [Suc (base_seq r)..<Suc (base_seq r + length (log r))]"

abbreviation last_seq :: "raft \<Rightarrow> nat" where
  "last_seq r \<equiv> snd (last_entry r)"

lemma map_seq_upt:
  "map f xs = [Suc b..<Suc (b + length xs)] \<longleftrightarrow> (\<forall>i < length xs. f (xs ! i) = Suc (b + i))"
proof -
  have "[Suc b..<Suc (b + length xs)] ! i = Suc (b + i)" if "i < length xs" for i
    using that by (subst nth_upt) simp_all
  moreover have "length [Suc b..<Suc (b + length xs)] = length xs" by (simp del: upt_Suc)
  ultimately show ?thesis by (auto simp only: list_eq_iff_nth_eq length_map nth_map)
qed

lemma log_ok_iff: "log_ok r \<longleftrightarrow> (\<forall>i < length (log r). en_seq (log r ! i) = Suc (base_seq r + i))"
  unfolding log_ok_def by (rule map_seq_upt)

lemma log_ok_nth: "log_ok r \<Longrightarrow> i < length (log r) \<Longrightarrow> en_seq (log r ! i) = Suc (base_seq r + i)"
  by (simp add: log_ok_iff)

lemma last_seq_length: "log_ok r \<Longrightarrow> last_seq r = base_seq r + length (log r)"
  by (auto simp: last_entry_def last_conv_nth log_ok_nth)

lemma entry_at_Some:
  assumes "log_ok r"
  shows "entry_at r n = Some e \<longleftrightarrow> e \<in> set (log r) \<and> en_seq e = n"
proof
  assume "entry_at r n = Some e"
  then have "base_seq r < n" "n - base_seq r - 1 < length (log r)" "e = log r ! (n - base_seq r - 1)"
    by (auto simp: entry_at_def split: if_splits)
  with log_ok_nth [OF assms, of "n - base_seq r - 1"] show "e \<in> set (log r) \<and> en_seq e = n" by auto
next
  assume e: "e \<in> set (log r) \<and> en_seq e = n"
  then obtain i where "i < length (log r)" "e = log r ! i" by (auto simp: in_set_conv_nth)
  with e log_ok_nth [OF assms, of i] show "entry_at r n = Some e" by (auto simp: entry_at_def)
qed

lemma entry_at_range:
  assumes "log_ok r"
  shows "entry_at r n \<noteq> None \<longleftrightarrow> base_seq r < n \<and> n \<le> last_seq r"
  using last_seq_length [OF assms] by (auto simp: entry_at_def)

lemma log_ok_snoc:
  "log_ok r \<Longrightarrow> en_seq e = last_seq r + 1 \<Longrightarrow> log_ok (r\<lparr>log := log r @ [e]\<rparr>)"
  by (auto simp: log_ok_iff nth_append last_seq_length less_Suc_eq)

lemma log_ok_cong [simp]: "log_ok (r\<lparr>commit := c\<rparr>) = log_ok r" "log_ok (r\<lparr>applied := c\<rparr>) = log_ok r"
  "log_ok (r\<lparr>role := x\<rparr>) = log_ok r" "log_ok (r\<lparr>epoch := n\<rparr>) = log_ok r"
  "log_ok (r\<lparr>voted_for := v\<rparr>) = log_ok r" "log_ok (r\<lparr>leader := v\<rparr>) = log_ok r"
  by (simp_all add: log_ok_def)

lemma entry_at_cong [simp]: "entry_at (r\<lparr>commit := c\<rparr>) = entry_at r" "entry_at (r\<lparr>applied := c\<rparr>) = entry_at r"
  "entry_at (r\<lparr>role := x\<rparr>) = entry_at r" "entry_at (r\<lparr>epoch := n\<rparr>) = entry_at r"
  "entry_at (r\<lparr>voted_for := v\<rparr>) = entry_at r" "entry_at (r\<lparr>leader := v\<rparr>) = entry_at r"
  by (simp_all add: entry_at_def fun_eq_iff)

lemma last_entry_cong [simp]:
  "last_entry (r\<lparr>commit := c\<rparr>) = last_entry r" "last_entry (r\<lparr>applied := c\<rparr>) = last_entry r"
  "last_entry (r\<lparr>role := x\<rparr>) = last_entry r" "last_entry (r\<lparr>epoch := n\<rparr>) = last_entry r"
  "last_entry (r\<lparr>voted_for := v\<rparr>) = last_entry r" "last_entry (r\<lparr>leader := v\<rparr>) = last_entry r"
  by (simp_all add: last_entry_def)

section \<open>Appending entries\<close>

text \<open>Entries that continue a log right after \<open>p\<close>.\<close>

definition run_from :: "nat \<Rightarrow> entry list \<Rightarrow> bool" where
  "run_from p es \<longleftrightarrow> map en_seq es = [Suc p..<Suc (p + length es)]"

lemma run_from_Cons: "run_from p (e # es) \<longleftrightarrow> en_seq e = Suc p \<and> run_from (Suc p) es"
  by (auto simp: run_from_def upt_conv_Cons simp del: upt_Suc)

lemma run_from_simps: "run_from p []" "run_from p (e # es) \<longleftrightarrow> en_seq e = Suc p \<and> run_from (Suc p) es"
  by (rule run_from_def [THEN iffD2], simp) (rule run_from_Cons)

lemma append_one_log:
  "append_one e (r, pf) = (r', pf') \<Longrightarrow> r' = r\<lparr>log := log r'\<rparr>"
  by (auto simp: append_one_def split: if_splits option.splits)

lemma append_one_step:
  assumes ok: "log_ok r" and e: "en_seq e = Suc p" and p: "p \<le> last_seq r"
    and r': "append_one e (r, pf) = (r', pf')"
  shows "log_ok r'" and "Suc p \<le> last_seq r'" and "\<And>n. n \<le> p \<Longrightarrow> entry_at r' n = entry_at r n"
    and "base_seq r \<le> p \<Longrightarrow> map_option en_epoch (entry_at r' (Suc p)) = Some (en_epoch e)"
    and "set (log r') \<subseteq> insert e (set (log r))"
proof -
  note len = last_seq_length [OF ok]
  let ?k = "Suc p - base_seq r - 1"
  let ?t = "r\<lparr>log := take ?k (log r) @ [e]\<rparr>"
  consider (low) "Suc p \<le> base_seq r" "r' = r"
    | (same) x where "base_seq r \<le> p" "entry_at r (Suc p) = Some x" "en_epoch x = en_epoch e" "r' = r"
    | (push) "base_seq r \<le> p" "r' = ?t"
    using r' e by (auto simp: append_one_def split: if_splits option.splits)
  then have "log_ok r' \<and> Suc p \<le> last_seq r' \<and> (\<forall>n \<le> p. entry_at r' n = entry_at r n) \<and>
      (base_seq r \<le> p \<longrightarrow> map_option en_epoch (entry_at r' (Suc p)) = Some (en_epoch e)) \<and>
      set (log r') \<subseteq> insert e (set (log r))"
  proof cases
    case low
    with ok len show ?thesis by auto
  next
    case same
    with entry_at_range [OF ok, of "Suc p"] ok show ?thesis by auto
  next
    case push
    with len p have k: "?k \<le> length (log r)" "?k = p - base_seq r" by auto
    have lt: "log_ok ?t" unfolding log_ok_iff
      using k e push(1) log_ok_nth [OF ok] by (auto simp: nth_append less_Suc_eq)
    have "last_seq ?t = Suc p" using last_seq_length [OF lt] k push(1) by simp
    moreover have "entry_at ?t n = entry_at r n" if "n \<le> p" for n
      using that k push(1) by (auto simp: entry_at_def nth_append)
    moreover have "entry_at ?t (Suc p) = Some e" using k push(1) by (simp add: entry_at_def nth_append)
    ultimately show ?thesis using lt push(2) by (auto dest: in_set_takeD)
  qed
  then show "log_ok r'" and "Suc p \<le> last_seq r'" and "\<And>n. n \<le> p \<Longrightarrow> entry_at r' n = entry_at r n"
    and "base_seq r \<le> p \<Longrightarrow> map_option en_epoch (entry_at r' (Suc p)) = Some (en_epoch e)"
    and "set (log r') \<subseteq> insert e (set (log r))" by blast+
qed

lemma append_all:
  assumes "log_ok r" and "run_from p es" and "p \<le> last_seq r"
    and "fold append_one es (r, pf) = (r', pf')"
  shows "r' = r\<lparr>log := log r'\<rparr> \<and> log_ok r' \<and> p + length es \<le> last_seq r' \<and>
    (\<forall>n \<le> p. entry_at r' n = entry_at r n) \<and>
    (\<forall>e \<in> set es. base_seq r < en_seq e \<longrightarrow>
        map_option en_epoch (entry_at r' (en_seq e)) = Some (en_epoch e)) \<and>
    set (log r') \<subseteq> set (log r) \<union> set es"
  using assms
proof (induction es arbitrary: r pf p)
  case Nil
  then show ?case by simp
next
  case (Cons e es)
  obtain r1 pf1 where r1: "append_one e (r, pf) = (r1, pf1)" by force
  from Cons.prems(2) have e: "en_seq e = Suc p" and es: "run_from (Suc p) es" by (simp_all add: run_from_Cons)
  note st = append_one_step [OF Cons.prems(1) e Cons.prems(3) r1]
  from Cons.prems(4) r1 have "fold append_one es (r1, pf1) = (r', pf')" by simp
  note IH = Cons.IH [OF st(1) es st(2) this]
  obtain L where b: "r1 = r\<lparr>log := L\<rparr>" using append_one_log [OF r1] by blast
  then have base: "base_seq r1 = base_seq r" by simp
  from IH have "r' = r1\<lparr>log := log r'\<rparr>" by blast
  with b have rr: "r' = r\<lparr>log := log r'\<rparr>" by simp
  have "\<forall>n \<le> p. entry_at r' n = entry_at r n" using IH st(3) by simp
  moreover have "map_option en_epoch (entry_at r' (Suc p)) = Some (en_epoch e)" if "base_seq r < Suc p"
    using that IH st(4) by simp
  moreover have "set (log r') \<subseteq> set (log r) \<union> set (e # es)" using IH st(5) by auto
  ultimately show ?case using IH rr by (simp add: base e)
qed

section \<open>The node invariant\<close>

definition role_ok :: "raft \<Rightarrow> bool" where
  "role_ok r \<longleftrightarrow>
     (case role r of
        Follower \<Rightarrow> True
      | Candidate vs \<Rightarrow>
          distinct vs \<and> me r \<in> set vs \<and> set vs \<subseteq> set (group r) \<and> voted_for r = Some (me r)
      | Leader nx mt \<Rightarrow>
          map fst nx = others r \<and> map fst mt = others r \<and> (\<forall>p \<in> set nx. 1 \<le> snd p) \<and> voted_for r = Some (me r))"

definition raft_ok :: "raft \<Rightarrow> bool" where
  "raft_ok r \<longleftrightarrow>
     log_ok r \<and> distinct (group r) \<and> me r \<in> set (group r) \<and> base_seq r \<le> applied r \<and> commit r \<le> applied r \<and>
     base_epoch r \<le> epoch r \<and> (\<forall>e \<in> set (log r). en_epoch e \<le> epoch r) \<and> role_ok r"

definition msg_ok :: "msg \<Rightarrow> bool" where
  "msg_ok m \<longleftrightarrow>
     (case m of
        Append e ps pe es c \<Rightarrow> run_from ps es \<and> (\<forall>x \<in> set es. en_epoch x \<le> e)
      | InstallSnapshot e ls le d \<Rightarrow> le \<le> e
      | _ \<Rightarrow> True)"

definition acts_ok :: "raft \<Rightarrow> action list \<Rightarrow> bool" where
  "acts_ok r acts \<longleftrightarrow> (\<forall>p m. Send p m \<in> set acts \<longrightarrow> msg_ok m)"

lemma acts_ok_simps [simp]:
  "acts_ok r []"
  "acts_ok r (a # acts) \<longleftrightarrow> (case a of Send p m \<Rightarrow> msg_ok m | _ \<Rightarrow> True) \<and> acts_ok r acts"
  "acts_ok r (xs @ ys) \<longleftrightarrow> acts_ok r xs \<and> acts_ok r ys"
  by (auto simp: acts_ok_def split: action.splits)

lemma raft_ok_new:
  assumes "distinct g"
  shows "raft_ok (raft_new i g)"
  using assms by (auto simp: raft_ok_def raft_new_def role_ok_def log_ok_def)

lemma run_from_filter:
  assumes "log_ok r" and "base_seq r < n"
  shows "run_from (n - 1) (filter (\<lambda>e. n \<le> en_seq e) (log r))"
proof -
  let ?k = "n - base_seq r - 1"
  have "filter (\<lambda>e. n \<le> en_seq e) (log r) = drop ?k (log r)"
  proof -
    have "filter (\<lambda>e. n \<le> en_seq e) (take ?k (log r)) = []"
      using log_ok_nth [OF assms(1)] by (auto simp: filter_empty_conv in_set_conv_nth)
    moreover have "filter (\<lambda>e. n \<le> en_seq e) (drop ?k (log r)) = drop ?k (log r)"
      using log_ok_nth [OF assms(1)] assms(2) by (auto simp: filter_id_conv in_set_conv_nth)
    ultimately show ?thesis by (metis append_take_drop_id filter_append append_Nil)
  qed
  moreover have "run_from (n - 1) (drop ?k (log r))"
    unfolding run_from_def map_seq_upt using log_ok_nth [OF assms(1)] assms(2) by auto
  ultimately show ?thesis by simp
qed

lemma acts_ok_replicate:
  assumes "raft_ok r"
  shows "acts_ok r (replicate_all r)"
proof -
  have "msg_ok m" if "Send p m = replicate_one r (q, n)" "1 \<le> n" for p m q n
  proof -
    have "base_seq r < n" "m = Append (epoch r) (n - 1) (case epoch_at r (n - 1) of Some e \<Rightarrow> e | None \<Rightarrow> 0)
        (filter (\<lambda>e. en_seq e \<ge> n) (log r)) (commit r)"
      using that by (auto simp: replicate_one_def Let_def split: if_splits)
    with assms run_from_filter [of r n] show ?thesis by (simp add: msg_ok_def raft_ok_def)
  qed
  with assms show ?thesis
    by (fastforce simp: acts_ok_def replicate_all_def raft_ok_def role_ok_def split: role.splits)
qed

lemma apply_committed_simps [simp]:
  "fst (apply_committed r) = r\<lparr>applied := max (applied r) (commit r)\<rparr>"
  "acts_ok q (snd (apply_committed r))"
  by (auto simp: apply_committed_def acts_ok_def split: option.splits)

lemma others_cong [simp]: "others (r\<lparr>commit := c\<rparr>) = others r" "others (r\<lparr>applied := c\<rparr>) = others r"
  "others (r\<lparr>role := x\<rparr>) = others r" "others (r\<lparr>epoch := n\<rparr>) = others r" "others (r\<lparr>log := l\<rparr>) = others r"
  "others (r\<lparr>voted_for := v\<rparr>) = others r" "others (r\<lparr>leader := v\<rparr>) = others r"
  by (simp_all add: others_def)

lemma raft_ok_apply:
  "raft_ok r \<Longrightarrow> raft_ok (r\<lparr>commit := c, applied := max (applied r) c\<rparr>)"
  by (auto simp: raft_ok_def role_ok_def others_def split: role.splits)

lemma raft_ok_advance:
  assumes "raft_ok r"
  shows "raft_ok (fst (advance_commit r)) \<and> acts_ok r (snd (advance_commit r))"
proof (cases "role r")
  case (Leader nx mt)
  define c where "c = commit_scan r mt [Suc (commit r)..<Suc (snd (last_entry r))] (commit r)"
  define r1 where "r1 = (if commit r < c then r\<lparr>commit := c\<rparr> else r)"
  have "r1 = r\<lparr>commit := max (commit r) c\<rparr>" by (simp add: r1_def max_def)
  then have ok: "raft_ok (fst (apply_committed r1))"
    using raft_ok_apply [OF assms, of "max (commit r) c"] by simp
  have "advance_commit r = (fst (apply_committed r1),
      snd (apply_committed r1) @ (if commit r < c then replicate_all (fst (apply_committed r1)) else []))"
    unfolding advance_commit_def Leader role.case Let_def c_def [symmetric] r1_def [symmetric]
    by (simp only: split_def)
  moreover have "acts_ok r (replicate_all (fst (apply_committed r1)))"
    using acts_ok_replicate [OF ok] by (simp add: acts_ok_def)
  ultimately show ?thesis using ok by simp
qed (use assms in \<open>simp_all add: advance_commit_def\<close>)

lemma become_follower_simps:
  "fst (become_follower r e) =
     (if epoch r < e then r\<lparr>epoch := e, voted_for := None, leader := None, role := Follower\<rparr> else r\<lparr>role := Follower\<rparr>)"
  "acts_ok q (snd (become_follower r e))"
  by (auto simp: become_follower_def Let_def)

lemma raft_ok_follower: "raft_ok r \<Longrightarrow> raft_ok (fst (become_follower r e))"
  by (fastforce simp: become_follower_simps raft_ok_def role_ok_def)

lemma raft_ok_try_win:
  assumes "raft_ok r"
  shows "raft_ok (fst (try_win r)) \<and> acts_ok r (snd (try_win r))"
proof (cases "role r")
  case (Candidate vs)
  let ?r1 = "r\<lparr>role := Leader (map (\<lambda>p. (p, snd (last_entry r) + 1)) (others r)) (map (\<lambda>p. (p, 0)) (others r))\<rparr>"
  have ok: "raft_ok ?r1"
    using assms Candidate by (auto simp: raft_ok_def role_ok_def comp_def)
  from acts_ok_replicate [OF ok] have "acts_ok r (replicate_all ?r1)" by (simp add: acts_ok_def)
  with ok assms show ?thesis by (simp add: try_win_def Candidate Let_def)
qed (use assms in \<open>simp_all add: try_win_def\<close>)

lemma raft_ok_tick:
  assumes "raft_ok r"
  shows "raft_ok (fst (tick_election r)) \<and> acts_ok r (snd (tick_election r))"
proof (cases "is_leader r")
  case False
  let ?r1 = "r\<lparr>epoch := epoch r + 1, voted_for := Some (me r), leader := None, role := Candidate [me r]\<rparr>"
  have "raft_ok ?r1" using assms by (auto simp: raft_ok_def role_ok_def)
  from raft_ok_try_win [OF this] have "raft_ok (fst (try_win ?r1))" "acts_ok r (snd (try_win ?r1))"
    by (simp_all add: acts_ok_def)
  moreover have "acts_ok r (map (\<lambda>p. Send p (VoteReq n a b)) ps)" for n a b ps
    by (auto simp: acts_ok_def msg_ok_def)
  ultimately show ?thesis using False by (simp add: tick_election_def Let_def split_def)
qed (use assms in \<open>simp add: tick_election_def\<close>)

lemma raft_ok_propose:
  assumes "raft_ok r"
  shows "raft_ok (fst (propose r cmd)) \<and>
    (case snd (propose r cmd) of Inl _ \<Rightarrow> True | Inr (seq, acts) \<Rightarrow> acts_ok r acts)"
proof (cases "is_leader r")
  case True
  let ?e = "\<lparr>en_epoch = epoch r, en_seq = snd (last_entry r) + 1, en_cmd = cmd\<rparr>"
  let ?r1 = "r\<lparr>log := log r @ [?e]\<rparr>"
  have ok: "raft_ok ?r1"
    using assms log_ok_snoc [of r ?e] True
    by (auto simp: raft_ok_def role_ok_def others_def is_leader_def split: role.splits)
  from acts_ok_replicate [OF ok] raft_ok_advance [OF ok] True show ?thesis
    by (simp add: propose_def Let_def split_def acts_ok_def)
qed (use assms in \<open>simp add: propose_def\<close>)

lemma raft_ok_vote_req:
  assumes "raft_ok r" and "from \<in> set (group r)"
  shows "raft_ok (fst (handle_vote_req r from e le ls)) \<and> acts_ok r (snd (handle_vote_req r from e le ls))"
proof -
  define p where "p = (if epoch r < e then become_follower r e else (r, []))"
  have ok: "raft_ok (fst p)" "acts_ok r (snd p)"
    using assms raft_ok_follower [of r e] become_follower_simps(2) [of r r e] by (simp_all add: p_def)
  have v: "raft_ok (fst p\<lparr>voted_for := Some from\<rparr>)" if "voted_for (fst p) = None"
    using ok(1) that by (auto simp: raft_ok_def role_ok_def split: role.splits)
  show ?thesis
    unfolding handle_vote_req_def Let_def p_def [symmetric] split_def
    using ok v by (simp add: msg_ok_def)
qed

lemma raft_ok_vote_resp:
  assumes "raft_ok r" and "from \<in> set (group r)"
  shows "raft_ok (fst (handle_vote_resp r from e g)) \<and> acts_ok r (snd (handle_vote_resp r from e g))"
proof -
  define q where "q = (case role r of
           Candidate vs \<Rightarrow> if from \<in> set vs then r else r\<lparr>role := Candidate (vs @ [from])\<rparr>
         | _ \<Rightarrow> r)"
  have "raft_ok q" using assms by (auto simp: q_def raft_ok_def role_ok_def split: role.splits)
  from raft_ok_try_win [OF this] have "raft_ok (fst (try_win q))" "acts_ok r (snd (try_win q))"
    by (simp_all add: acts_ok_def)
  then show ?thesis
    using assms raft_ok_follower become_follower_simps(2)
    unfolding handle_vote_resp_def q_def [symmetric] by simp
qed

lemma accept_leader_simps:
  "fst (accept_leader r from e) =
     (fst (become_follower r e))\<lparr>leader := Some from,
        voted_for := (case voted_for (fst (become_follower r e)) of None \<Rightarrow> Some from | v \<Rightarrow> v)\<rparr>"
  "acts_ok q (snd (accept_leader r from e))"
  by (auto simp: accept_leader_def Let_def split_def become_follower_simps(2) split: option.splits)

lemma raft_ok_accept: "raft_ok r \<Longrightarrow> raft_ok (fst (accept_leader r from e))"
  using raft_ok_follower [of r e]
  by (auto simp: accept_leader_simps raft_ok_def role_ok_def become_follower_simps split: option.splits if_splits)

lemma accept_leader_epoch: "e \<ge> epoch r \<Longrightarrow> epoch (fst (accept_leader r from e)) = e"
  by (simp add: accept_leader_simps become_follower_simps)

lemma accept_leader_role [simp]: "role (fst (accept_leader r from e)) = Follower"
  by (simp add: accept_leader_simps become_follower_simps)

lemma prev_ok_last:
  assumes "log_ok r" and "prev_ok r p pe"
  shows "p \<le> last_seq r"
proof -
  have "p \<le> last_seq r" if "epoch_at r p = Some pe"
    using that entry_at_range [OF assms(1), of p] last_seq_length [OF assms(1)]
    by (auto simp: epoch_at_def split: if_splits)
  with assms show ?thesis by (auto simp: prev_ok_def last_seq_length)
qed

lemma raft_ok_append:
  assumes "raft_ok r" and "msg_ok (Append e p pe es c)"
  shows "raft_ok (fst (handle_append r from e p pe es c)) \<and> acts_ok r (snd (handle_append r from e p pe es c))"
proof (cases "e < epoch r")
  case True
  with assms(1) show ?thesis by (simp add: handle_append_def msg_ok_def)
next
  case False
  define r1 acts where "r1 = fst (accept_leader r from e)" and "acts = snd (accept_leader r from e)"
  have ok1: "raft_ok r1" "acts_ok r acts" "epoch r1 = e" "role r1 = Follower"
    using raft_ok_accept [OF assms(1)] accept_leader_epoch [of r e] False
    by (simp_all add: r1_def acts_def accept_leader_simps(2))
  have pair: "accept_leader r from e = (r1, acts)" by (simp add: r1_def acts_def)
  show ?thesis
  proof (cases "prev_ok r1 p pe")
    case no: False
    with False ok1 show ?thesis by (simp add: handle_append_def pair msg_ok_def)
  next
    case True
    obtain r2 pf where r2: "fold append_one es (r1, None) = (r2, pf)" by force
    have l1: "log_ok r1" using ok1(1) by (simp add: raft_ok_def)
    have es: "run_from p es" "\<forall>x \<in> set es. en_epoch x \<le> e" using assms(2) by (simp_all add: msg_ok_def)
    note a = append_all [OF l1 es(1) prev_ok_last [OF l1 True] r2]
    obtain L where L: "r2 = r1\<lparr>log := L\<rparr>" using a by blast
    have ok2: "raft_ok r2"
      using a es(2) ok1 by (auto simp: raft_ok_def role_ok_def L)
    with raft_ok_apply [OF ok2, of "min c (last_seq r2)"] ok1(2) False True show ?thesis
      unfolding handle_append_def pair
      by (simp add: r2 Let_def split_def msg_ok_def split: option.splits)
  qed
qed

lemma raft_ok_install:
  assumes "raft_ok r" and "msg_ok (InstallSnapshot e ls le d)"
  shows "raft_ok (fst (handle_install r from e ls le d)) \<and> acts_ok r (snd (handle_install r from e ls le d))"
proof (cases "e < epoch r")
  case True
  with assms(1) show ?thesis by (simp add: handle_install_def msg_ok_def)
next
  case False
  define r1 acts where "r1 = fst (accept_leader r from e)" and "acts = snd (accept_leader r from e)"
  have ok1: "raft_ok r1" "acts_ok r acts" "epoch r1 = e" "role r1 = Follower"
    using raft_ok_accept [OF assms(1)] accept_leader_epoch [of r e] False
    by (simp_all add: r1_def acts_def accept_leader_simps(2))
  have pair: "accept_leader r from e = (r1, acts)" by (simp add: r1_def acts_def)
  have "raft_ok (r1\<lparr>log := [], base_seq := ls, base_epoch := le, commit := ls, applied := ls\<rparr>)"
    using ok1 assms(2) by (simp add: raft_ok_def role_ok_def log_ok_def msg_ok_def)
  with ok1 False show ?thesis by (simp add: handle_install_def pair msg_ok_def)
qed

lemma update_peer_fst [simp]: "map fst (update_peer p f xs) = map fst xs"
  by (induction p f xs rule: update_peer.induct) auto

lemma update_peer_all: "\<forall>x \<in> set xs. P (snd x) \<Longrightarrow> (\<And>n. P n \<Longrightarrow> P (f n)) \<Longrightarrow> \<forall>x \<in> set (update_peer p f xs). P (snd x)"
  by (induction p f xs rule: update_peer.induct) auto

lemma raft_ok_append_resp:
  assumes "raft_ok r"
  shows "raft_ok (fst (handle_append_resp r from e k ok)) \<and> acts_ok r (snd (handle_append_resp r from e k ok))"
proof (cases "e = epoch r \<and> is_leader r")
  case False
  then show ?thesis
    using assms raft_ok_follower [OF assms] become_follower_simps(2) [of r r]
    by (auto simp: handle_append_resp_def is_leader_def split: role.splits)
next
  case True
  then obtain nx mt where l: "role r = Leader nx mt" by (auto simp: is_leader_def split: role.splits)
  have ok': "raft_ok (r\<lparr>role := Leader (update_peer from f nx) mt'\<rparr>)"
    if "map fst mt' = map fst mt" "\<And>n. 1 \<le> n \<Longrightarrow> 1 \<le> f n" for f mt'
    using assms l that update_peer_all [of nx "\<lambda>n. 1 \<le> n" f "from"]
    by (simp add: raft_ok_def role_ok_def)
  show ?thesis
  proof (cases ok)
    case okT: True
    from raft_ok_advance [OF ok' [of "update_peer from (\<lambda>n. max n k) mt" "\<lambda>_. k + 1"]]
    show ?thesis using True l okT by (simp add: handle_append_resp_def acts_ok_def)
  next
    case okF: False
    let ?r1 = "r\<lparr>role := Leader (update_peer from (back_up r k) nx) mt\<rparr>"
    have o: "raft_ok ?r1" by (rule ok') (auto simp: back_up_def Let_def)
    with acts_ok_replicate [OF o] True l okF show ?thesis
      by (simp add: handle_append_resp_def acts_ok_def Let_def)
  qed
qed

lemma raft_ok_handle:
  assumes "raft_ok r" and "msg_ok m" and "from \<in> set (group r)"
  shows "raft_ok (fst (handle r from m)) \<and> acts_ok r (snd (handle r from m))"
  using assms raft_ok_vote_req raft_ok_vote_resp raft_ok_append raft_ok_install raft_ok_append_resp
  by (cases m) (simp_all add: handle_def)

lemma raft_ok_compact:
  assumes "raft_ok r"
  shows "raft_ok (fst (raft_compact r k))"
proof (cases "applied r - k \<le> base_seq r \<or> entry_at r (applied r - k) = None")
  case True
  with assms show ?thesis by (auto simp: raft_compact_def Let_def)
next
  case False
  let ?b = "applied r - k"
  from False obtain e where e: "entry_at r ?b = Some e" and b: "base_seq r < ?b" by auto
  have l: "log_ok r" using assms by (simp add: raft_ok_def)
  have le: "en_epoch e \<le> epoch r" using e assms entry_at_Some [OF l] by (auto simp: raft_ok_def)
  have "?b \<le> last_seq r" using entry_at_range [OF l, of ?b] e by simp
  then have "?b - base_seq r \<le> length (log r)" using last_seq_length [OF l] by simp
  then have "log_ok (r\<lparr>log := drop (?b - base_seq r) (log r), base_seq := ?b, base_epoch := en_epoch e\<rparr>)"
    using log_ok_nth [OF l] b by (auto simp: log_ok_iff)
  with assms e b le show ?thesis
    by (auto simp: raft_compact_def Let_def raft_ok_def role_ok_def others_def dest: in_set_dropD split: role.splits)
qed



section \<open>What an append leaves behind\<close>

text \<open>
  A successful append makes the follower's log agree with the leader's.
  When an append of the current or a later epoch passes the consistency check,
  every entry it carries above the snapshot point is afterwards in the log with
  its epoch, everything up to \<open>prev_seq\<close> is untouched, nothing else is added,
  and the answer is positive.
\<close>

theorem append_contract:
  assumes "raft_ok r" and "msg_ok (Append e p pe es c)" and "epoch r \<le> e"
    and "prev_ok (fst (accept_leader r from e)) p pe"
  shows "let r' = fst (handle r from (Append e p pe es c)) in
    (\<forall>x \<in> set es. base_seq r < en_seq x \<longrightarrow> map_option en_epoch (entry_at r' (en_seq x)) = Some (en_epoch x))
    \<and> (\<forall>n \<le> p. entry_at r' n = entry_at r n)
    \<and> set (log r') \<subseteq> set (log r) \<union> set es
    \<and> p + length es \<le> last_seq r' \<and> epoch r' = e \<and> role r' = Follower
    \<and> last (snd (handle r from (Append e p pe es c))) = Send from (AppendResp e (last_seq r') True)"
proof -
  define r1 acts where "r1 = fst (accept_leader r from e)" and "acts = snd (accept_leader r from e)"
  have pair: "accept_leader r from e = (r1, acts)" by (simp add: r1_def acts_def)
  have r1: "log r1 = log r" "base_seq r1 = base_seq r" "epoch r1 = e" "role r1 = Follower"
    using accept_leader_epoch [OF assms(3), of "from"]
    by (simp_all add: r1_def) (simp_all add: accept_leader_simps become_follower_simps)
  have l1: "log_ok r1" using assms(1) by (simp add: log_ok_def r1 raft_ok_def)
  have e1: "entry_at r1 = entry_at r" by (simp add: entry_at_def fun_eq_iff r1)
  obtain r2 pf where r2: "fold append_one es (r1, None) = (r2, pf)" by force
  have run: "run_from p es" using assms(2) by (simp add: msg_ok_def)
  have prev: "prev_ok r1 p pe" using assms(4) by (simp add: r1_def)
  note a = append_all [OF l1 run prev_ok_last [OF l1 prev] r2]
  obtain L where L: "r2 = r1\<lparr>log := L\<rparr>" using a by blast
  have r2': "epoch r2 = e" "role r2 = Follower" "base_seq r2 = base_seq r" by (simp_all add: L r1)
  define r3 applies where "r3 = fst (if commit r2 < c then apply_committed (r2\<lparr>commit := min c (last_seq r2)\<rparr>) else (r2, []))"
    and "applies = snd (if commit r2 < c then apply_committed (r2\<lparr>commit := min c (last_seq r2)\<rparr>) else (r2, []))"
  have h: "handle r from (Append e p pe es c) =
      (r3, acts @ (case pf of Some n \<Rightarrow> [PersistLog n] | None \<Rightarrow> []) @ applies
           @ [Send from (AppendResp (epoch r3) (last_seq r2) True)])"
    using assms(3) prev
    by (simp add: handle_def handle_append_def pair r2 Let_def r3_def applies_def split_def)
  have r3: "log r3 = log r2" "entry_at r3 = entry_at r2" "last_seq r3 = last_seq r2" "epoch r3 = e" "role r3 = Follower"
    by (simp_all add: r3_def r2')
  show ?thesis using a by (simp add: h Let_def r3 e1 r1)
qed

theorem append_contract_witness:
  "let a = \<lparr>en_epoch = 1, en_seq = 1, en_cmd = [7]\<rparr>; b = \<lparr>en_epoch = 2, en_seq = 1, en_cmd = [8]\<rparr>;
       r = (raft_new [1] [[1], [2], [3]])\<lparr>epoch := 1, log := [a]\<rparr>
   in raft_ok r \<and> msg_ok (Append 2 0 0 [b] 0) \<and> epoch r \<le> 2 \<and> prev_ok (fst (accept_leader r [2] 2)) 0 0
      \<and> map_option en_epoch (entry_at (fst (handle r [2] (Append 2 0 0 [b] 0))) 1) = Some 2"
proof -
  let ?a = "\<lparr>en_epoch = 1, en_seq = 1, en_cmd = [7]\<rparr>" and ?b = "\<lparr>en_epoch = 2, en_seq = 1, en_cmd = [8]\<rparr>"
  let ?r = "(raft_new [1] [[1], [2], [3]])\<lparr>epoch := 1, log := [?a]\<rparr>"
  have r: "raft_ok ?r" by (simp add: raft_ok_def raft_new_def role_ok_def log_ok_iff)
  have m: "msg_ok (Append 2 0 0 [?b] 0)" by (simp add: msg_ok_def run_from_simps)
  have e: "epoch ?r \<le> 2" by simp
  have p: "prev_ok (fst (accept_leader ?r [2] 2)) 0 0" by (simp add: prev_ok_def)
  have b: "base_seq ?r = 0" by (simp add: raft_new_def)
  note q = bspec [OF conjunct1 [OF append_contract [OF r m e p, unfolded Let_def]], of ?b]
  have "map_option en_epoch (entry_at (fst (handle ?r [2] (Append 2 0 0 [?b] 0))) 1) = Some 2"
    using q b by (simp only: list.set entry.select_convs insert_iff) simp
  with r m e p show ?thesis by (simp only: Let_def simp_thms)
qed

section \<open>The commit rule\<close>

definition on_majority :: "raft \<Rightarrow> (public_id \<times> nat) list \<Rightarrow> nat \<Rightarrow> bool" where
  "on_majority r m n \<longleftrightarrow> majority r \<le> 1 + length (filter (\<lambda>(_, k). n \<le> k) m)"

definition own_epoch :: "raft \<Rightarrow> nat \<Rightarrow> bool" where
  "own_epoch r n \<longleftrightarrow> map_option en_epoch (entry_at r n) = Some (epoch r)"

lemma filter_mono_length: "(\<And>x. P x \<Longrightarrow> Q x) \<Longrightarrow> length (filter P xs) \<le> length (filter Q xs)"
  by (induction xs) (auto intro: le_SucI)

lemma on_majority_antimono: "on_majority r m n \<Longrightarrow> k \<le> n \<Longrightarrow> on_majority r m k"
  using filter_mono_length [of "\<lambda>(_, j). n \<le> j" "\<lambda>(_, j). k \<le> j" m]
  unfolding on_majority_def by (fastforce intro: order_trans)

lemma commit_scan_spec:
  assumes "cand < a"
  shows "cand \<le> commit_scan r m [a..<b] cand \<and>
    (commit_scan r m [a..<b] cand \<noteq> cand \<longrightarrow>
       commit_scan r m [a..<b] cand \<in> {a..<b} \<and> on_majority r m (commit_scan r m [a..<b] cand)
       \<and> own_epoch r (commit_scan r m [a..<b] cand)) \<and>
    (\<forall>n \<in> {a..<b}. on_majority r m n \<and> own_epoch r n \<longrightarrow> n \<le> commit_scan r m [a..<b] cand)"
  using assms
proof (induction "b - a" arbitrary: a cand)
  case 0
  then show ?case by simp
next
  case (Suc d)
  then have ab: "a < b" by simp
  then have u: "[a..<b] = a # [Suc a..<b]" by (simp add: upt_conv_Cons)
  show ?case
  proof (cases "on_majority r m a")
    case False
    then have "commit_scan r m [a..<b] cand = cand" by (simp add: u on_majority_def)
    with False on_majority_antimono show ?thesis by auto
  next
    case True
    define c where "c = (if own_epoch r a then a else cand)"
    have s: "commit_scan r m [a..<b] cand = commit_scan r m [Suc a..<b] c"
      using True by (simp add: u on_majority_def own_epoch_def c_def)
    have "c < Suc a" using Suc.prems by (simp add: c_def)
    from Suc.hyps(1) [OF _ this] Suc.hyps(2)
    have IH: "c \<le> commit_scan r m [Suc a..<b] c \<and>
      (commit_scan r m [Suc a..<b] c \<noteq> c \<longrightarrow>
         commit_scan r m [Suc a..<b] c \<in> {Suc a..<b} \<and> on_majority r m (commit_scan r m [Suc a..<b] c)
         \<and> own_epoch r (commit_scan r m [Suc a..<b] c)) \<and>
      (\<forall>n \<in> {Suc a..<b}. on_majority r m n \<and> own_epoch r n \<longrightarrow> n \<le> commit_scan r m [Suc a..<b] c)" by simp
    define c' where "c' = commit_scan r m [Suc a..<b] c"
    note IH = IH [folded c'_def]
    have "cand \<le> c'" using IH Suc.prems by (auto simp: c_def split: if_splits)
    moreover have "c' \<in> {a..<b} \<and> on_majority r m c' \<and> own_epoch r c'" if "c' \<noteq> cand"
    proof (cases "c' = c")
      case True
      with that have "own_epoch r a" "c' = a" by (auto simp: c_def split: if_splits)
      with \<open>on_majority r m a\<close> ab show ?thesis by simp
    next
      case False
      with IH show ?thesis by auto
    qed
    moreover have "n \<le> c'" if "n \<in> {a..<b}" "on_majority r m n \<and> own_epoch r n" for n
    proof (cases "n = a")
      case True
      with that IH show ?thesis by (simp add: c_def)
    next
      case False
      with that have "n \<in> {Suc a..<b}" by simp
      with that IH show ?thesis by blast
    qed
    ultimately show ?thesis unfolding s c'_def [symmetric] by blast
  qed
qed

lemma advance_commit_leader:
  assumes "role r = Leader nx mt"
  shows "commit (fst (advance_commit r)) =
    max (commit r) (commit_scan r mt [Suc (commit r)..<Suc (last_seq r)] (commit r))"
  by (simp add: advance_commit_def assms Let_def split_def max_def)

text \<open>
  C26: the commit rule.  A leader moves its commit mark to exactly the greatest
  sequence number that its own acknowledgements put on a majority and whose
  entry is of its own epoch, if that is above the mark, and applies the entries
  between the old and the new mark.
\<close>

theorem commit_rule:
  assumes "role r = Leader nx mt"
  shows "let c = commit (fst (advance_commit r)) in
    commit r \<le> c
    \<and> (c \<noteq> commit r \<longrightarrow> c \<le> last_seq r \<and> on_majority r mt c \<and> own_epoch r c)
    \<and> (\<forall>n. commit r < n \<and> n \<le> last_seq r \<and> on_majority r mt n \<and> own_epoch r n \<longrightarrow> n \<le> c)
    \<and> applied (fst (advance_commit r)) = max (applied r) c"
proof -
  define c where "c = commit_scan r mt [Suc (commit r)..<Suc (last_seq r)] (commit r)"
  note s = commit_scan_spec [of "commit r" "Suc (commit r)" r mt "Suc (last_seq r)", folded c_def]
  have c: "commit (fst (advance_commit r)) = c"
    using advance_commit_leader [OF assms] s by (simp add: c_def [symmetric])
  have "applied (fst (advance_commit r)) = max (applied r) c"
    using s unfolding advance_commit_def assms role.case Let_def c_def [symmetric]
    by (auto simp: split_def)
  with s show ?thesis unfolding c Let_def by auto
qed

theorem commit_rule_witness:
  "let a = \<lparr>en_epoch = 1, en_seq = 1, en_cmd = [7]\<rparr>;
       r = (raft_new [1] [[1], [2], [3]])\<lparr>epoch := 1, log := [a], role := Leader [([2], 2), ([3], 1)] [([2], 1), ([3], 0)]\<rparr>
   in commit (fst (advance_commit r)) = 1 \<and> applied (fst (advance_commit r)) = max (applied r) 1"
proof -
  let ?a = "\<lparr>en_epoch = 1, en_seq = 1, en_cmd = [7]\<rparr>"
  let ?r = "(raft_new [1] [[1], [2], [3]])\<lparr>epoch := 1, log := [?a], role := Leader [([2], 2), ([3], 1)] [([2], 1), ([3], 0)]\<rparr>"
  have l: "role ?r = Leader [([2], 2), ([3], 1)] [([2], 1), ([3], 0)]" by simp
  have c: "commit (fst (advance_commit ?r)) = 1" by code_simp
  from commit_rule [OF l] have "applied (fst (advance_commit ?r)) = max (applied ?r) (commit (fst (advance_commit ?r)))"
    unfolding Let_def by blast
  with c show ?thesis by (simp only: Let_def simp_thms)
qed

section \<open>Compaction\<close>

text \<open>
  C27: compaction is invisible to the protocol.  It leaves every entry and epoch
  at or above the new snapshot point, the last position, the marks and (while the
  log reaches the applied mark) the point a shipped snapshot declares as they
  were, drops only applied entries, and keeps at least the requested tail.
\<close>

theorem compact_transparent:
  assumes "raft_ok r"
  shows "let r' = fst (raft_compact r k) in
    (\<forall>n > base_seq r'. entry_at r' n = entry_at r n) \<and> (\<forall>n \<ge> base_seq r'. epoch_at r' n = epoch_at r n)
    \<and> last_entry r' = last_entry r \<and> (applied r \<le> last_seq r \<longrightarrow> snapshot_point r' = snapshot_point r)
    \<and> base_seq r \<le> base_seq r' \<and> base_seq r' \<le> applied r \<and> (snd (raft_compact r k) \<longrightarrow> base_seq r' + k \<le> applied r)
    \<and> commit r' = commit r \<and> applied r' = applied r \<and> epoch r' = epoch r \<and> role r' = role r"
proof (cases "applied r - k \<le> base_seq r \<or> entry_at r (applied r - k) = None")
  case True
  then have "raft_compact r k = (r, False)" by (auto simp: raft_compact_def Let_def split: option.splits)
  with assms show ?thesis by (simp add: raft_ok_def)
next
  case False
  let ?b = "applied r - k"
  from False obtain e where e: "entry_at r ?b = Some e" and b: "base_seq r < ?b" by auto
  have l: "log_ok r" using assms by (simp add: raft_ok_def)
  let ?r = "r\<lparr>log := drop (?b - base_seq r) (log r), base_seq := ?b, base_epoch := en_epoch e\<rparr>"
  have c: "raft_compact r k = (?r, True)" using e b by (simp add: raft_compact_def Let_def)
  have len: "?b - base_seq r \<le> length (log r)" "e = log r ! (?b - base_seq r - 1)"
    using e b by (auto simp: entry_at_def split: if_splits)
  have at: "entry_at ?r n = entry_at r n" if "?b < n" for n
    using that b len(1) by (auto simp: entry_at_def intro!: arg_cong [where f = "nth (log r)"])
  have ep: "epoch_at ?r n = epoch_at r n" if "?b \<le> n" for n
    using that at [of n] e b by (auto simp: epoch_at_def)
  have "last_entry ?r = last_entry r"
  proof (cases "?b - base_seq r = length (log r)")
    case True
    then have "log r \<noteq> []" using b by auto
    moreover have "last (log r) = e" using True len(2) \<open>log r \<noteq> []\<close> by (simp add: last_conv_nth)
    moreover have "en_seq e = ?b" using e entry_at_Some [OF l] by blast
    ultimately show ?thesis using True by (simp add: last_entry_def)
  next
    case False
    with len(1) have "?b - base_seq r < length (log r)" by simp
    then show ?thesis by (auto simp: last_entry_def)
  qed
  moreover have "snapshot_point ?r = snapshot_point r" if "applied r \<le> last_seq r"
  proof -
    from that b obtain x where x: "entry_at r (applied r) = Some x"
      using entry_at_range [OF l, of "applied r"] by force
    moreover have "applied r \<noteq> base_seq r" using b by auto
    ultimately show ?thesis
      using at [of "applied r"] e b by (cases "?b = applied r") (simp_all add: snapshot_point_def)
  qed
  ultimately show ?thesis using at ep b by (auto simp: c Let_def)
qed

theorem compact_transparent_witness:
  "let a = \<lparr>en_epoch = 1, en_seq = 1, en_cmd = [7]\<rparr>; b = \<lparr>en_epoch = 2, en_seq = 2, en_cmd = [8]\<rparr>;
       r = (raft_new [1] [[1], [2], [3]])\<lparr>epoch := 2, log := [a, b], commit := 2, applied := 2\<rparr>
   in raft_ok r \<and> log (fst (raft_compact r 1)) = [b] \<and> last_entry (fst (raft_compact r 1)) = last_entry r"
proof -
  let ?a = "\<lparr>en_epoch = 1, en_seq = 1, en_cmd = [7]\<rparr>" and ?b = "\<lparr>en_epoch = 2, en_seq = 2, en_cmd = [8]\<rparr>"
  let ?r = "(raft_new [1] [[1], [2], [3]])\<lparr>epoch := 2, log := [?a, ?b], commit := 2, applied := 2\<rparr>"
  have ok: "raft_ok ?r"
    by (auto simp: raft_ok_def raft_new_def role_ok_def log_ok_iff less_Suc_eq numeral_2_eq_2)
  have "log (fst (raft_compact ?r 1)) = [?b]" by code_simp
  with ok compact_transparent [OF ok, of 1] show ?thesis by (simp only: Let_def simp_thms)
qed

section \<open>Rendezvous hashing\<close>

lemma top_of_sort:
  fixes xs :: "'a::linorder list"
  assumes "distinct xs"
  shows "set (take k (rev (sort xs))) = {x \<in> set xs. card {y \<in> set xs. x < y} < k}"
proof -
  let ?zs = "rev (sort xs)"
  have d: "distinct ?zs" and s: "set ?zs = set xs" using assms by simp_all
  have desc: "sorted_wrt (>) ?zs"
    using assms by (simp add: sorted_wrt_rev strict_sorted_iff)
  have above: "{y \<in> set xs. ?zs ! i < y} = set (take i ?zs)" if i: "i < length ?zs" for i
  proof -
    have lt: "?zs ! i < ?zs ! j \<longleftrightarrow> j < i" if j: "j < length ?zs" for j
    proof
      assume less: "?zs ! i < ?zs ! j"
      show "j < i"
      proof (rule ccontr)
        assume "\<not> j < i"
        then consider "j = i" | "i < j" by linarith
        then show False using less sorted_wrt_nth_less [OF desc _ j, of i] by cases auto
      qed
    qed (use sorted_wrt_nth_less [OF desc _ i] in simp)
    show ?thesis
    proof (intro set_eqI iffI)
      fix y assume "y \<in> {y \<in> set xs. ?zs ! i < y}"
      then obtain j where "j < length ?zs" "y = ?zs ! j" "?zs ! i < y"
        unfolding s [symmetric] in_set_conv_nth by blast
      moreover from this have "j < i" using lt by simp
      ultimately show "y \<in> set (take i ?zs)" unfolding in_set_conv_nth by (intro exI [of _ j]) simp
    next
      fix y assume "y \<in> set (take i ?zs)"
      then obtain j where "j < i" "y = ?zs ! j" unfolding in_set_conv_nth by auto
      moreover from this i have "j < length ?zs" by simp
      ultimately show "y \<in> {y \<in> set xs. ?zs ! i < y}"
        using lt [of j] nth_mem [of j ?zs] unfolding s by simp
    qed
  qed
  have card: "card {y \<in> set xs. ?zs ! i < y} = i" if "i < length ?zs" for i
    using that d by (simp only: above [OF that]) (simp add: distinct_card)
  show ?thesis
  proof (intro set_eqI iffI)
    fix x assume "x \<in> set (take k ?zs)"
    then obtain i where "i < length ?zs" "i < k" "x = ?zs ! i" by (auto simp: in_set_conv_nth)
    then show "x \<in> {x \<in> set xs. card {y \<in> set xs. x < y} < k}"
      using card [of i] s nth_mem [of i ?zs] by simp
  next
    fix x assume x: "x \<in> {x \<in> set xs. card {y \<in> set xs. x < y} < k}"
    then have "x \<in> set ?zs" by simp
    then obtain i where i: "i < length ?zs" "x = ?zs ! i" unfolding in_set_conv_nth by blast
    with x card [of i] have "i < k" by simp
    with i show "x \<in> set (take k ?zs)" by (auto simp: in_set_conv_nth intro!: exI [of _ i])
  qed
qed

text \<open>
  The replica group is a function of the set of nodes and barely moves.  It
  has the requested size (or all nodes, if fewer), its members are distinct nodes
  of the universe, it does not depend on the order in which the nodes are
  listed, and adding a node brings in no member but that node.
\<close>

theorem rendezvous_stable:
  assumes "distinct universe" and "mset universe' = mset universe" and "node \<notin> set universe"
  shows "length (rendezvous_group sha object universe k) = min k (length universe)
    \<and> distinct (rendezvous_group sha object universe k)
    \<and> set (rendezvous_group sha object universe k) \<subseteq> set universe
    \<and> rendezvous_group sha object universe' k = rendezvous_group sha object universe k
    \<and> set (rendezvous_group sha object (node # universe) k) \<subseteq> insert node (set (rendezvous_group sha object universe k))"
proof -
  let ?p = "\<lambda>n. (node_score sha object n, n)"
  let ?U = "map ?p universe" and ?V = "map ?p (node # universe)"
  have d: "distinct ?U" "distinct ?V" using assms(1,3) by (auto simp: distinct_map inj_on_def)
  have dz: "distinct (rev (sort ?U))" using d by simp
  have sz: "set (rev (sort ?U)) = set ?U" by simp
  have "length (rendezvous_group sha object universe k) = min k (length universe)"
    by (simp add: rendezvous_group_def min.commute)
  moreover have "distinct (rendezvous_group sha object universe k)"
    unfolding rendezvous_group_def distinct_map
  proof
    show "distinct (take k (rev (sort ?U)))" using dz by (rule distinct_take)
    show "inj_on snd (set (take k (rev (sort ?U))))"
      by (rule inj_on_subset [of _ "set ?U"]) (auto simp: inj_on_def dest: in_set_takeD)
  qed
  moreover have "set (rendezvous_group sha object universe k) \<subseteq> set universe"
    by (auto simp: rendezvous_group_def dest!: in_set_takeD)
  moreover have "rendezvous_group sha object universe' k = rendezvous_group sha object universe k"
  proof -
    have "sort (map ?p universe') = sort ?U"
      by (rule properties_for_sort) (simp_all add: assms(2))
    then show ?thesis by (simp add: rendezvous_group_def)
  qed
  moreover have "set (rendezvous_group sha object (node # universe) k)
      \<subseteq> insert node (set (rendezvous_group sha object universe k))"
  proof
    fix n
    assume "n \<in> set (rendezvous_group sha object (node # universe) k)"
    then obtain x where x: "x \<in> set (take k (rev (sort ?V)))" and n: "n = snd x"
      unfolding rendezvous_group_def by auto
    then have xv: "x \<in> set ?V" "card {y \<in> set ?V. x < y} < k" unfolding top_of_sort [OF d(2)] by auto
    show "n \<in> insert node (set (rendezvous_group sha object universe k))"
    proof (cases "x = ?p node")
      case False
      have "card {y \<in> set ?U. x < y} \<le> card {y \<in> set ?V. x < y}" by (rule card_mono) auto
      with xv False have "x \<in> set (take k (rev (sort ?U)))" unfolding top_of_sort [OF d(1)] by auto
      then show ?thesis unfolding n rendezvous_group_def by (simp del: set_take_subset)
    qed (simp add: n)
  qed
  ultimately show ?thesis by blast
qed

theorem rendezvous_stable_witness:
  "distinct [[1], [5], [3 :: u8]] \<and> mset [[3], [1], [5]] = mset [[1], [5], [3 :: u8]] \<and> [4] \<notin> set [[1], [5], [3 :: u8]]
   \<and> rendezvous_group (\<lambda>m. drop 3 m) ''db'' [[1], [5], [3]] 2 = [[5], [3]]
   \<and> rendezvous_group (\<lambda>m. drop 3 m) ''db'' [[3], [1], [5]] 2 = [[5], [3]]"
proof -
  have a: "distinct [[1], [5], [3 :: u8]]" "mset [[3], [1], [5]] = mset [[1], [5], [3 :: u8]]"
    "[4] \<notin> set [[1], [5], [3 :: u8]]" by simp_all
  have g: "rendezvous_group (\<lambda>m. drop 3 m) ''db'' [[1], [5], [3]] 2 = [[5], [3]]" by code_simp
  from rendezvous_stable [OF a, of "\<lambda>m. drop 3 m" "''db''" 2] a g show ?thesis by simp
qed

end
