(* ===== verification/Raft_Cluster.thy ===== *)
theory Raft_Cluster
  imports Raft_Node
begin

text \<open>
  A replica group as a whole: its members, every message ever sent, and the steps
  the group can take.  A message may be delivered any number of times, in any
  order, or never; a member may restart from what it has persisted.  Three
  auxiliary components record the past: the ballots cast, the elections won, and
  the entries each member has applied.

  The theory proves election safety and that an entry is determined by its epoch
  and sequence number, and gives a run in which two members apply different
  entries at the same sequence number.
\<close>

section \<open>Quorums\<close>

locale quorum_system =
  fixes quorum :: "'p set \<Rightarrow> bool"
  assumes quorums_meet: "quorum A \<Longrightarrow> quorum B \<Longrightarrow> A \<inter> B \<noteq> {}"
begin

lemma unique_winner:
  assumes "quorum A" and "quorum B" and "\<forall>v \<in> A. cast v x" and "\<forall>v \<in> B. cast v y"
    and "\<And>v x y. cast v x \<Longrightarrow> cast v y \<Longrightarrow> x = y"
  shows "x = y"
  using quorums_meet [OF assms(1,2)] assms(3-5) by blast

end

definition group_quorum :: "public_id list \<Rightarrow> public_id set \<Rightarrow> bool" where
  "group_quorum G A \<longleftrightarrow> A \<subseteq> set G \<and> length G div 2 + 1 \<le> card A"

interpretation group: quorum_system "group_quorum G" for G
proof
  fix A B
  assume "group_quorum G A" and "group_quorum G B"
  then have s: "A \<subseteq> set G" "B \<subseteq> set G" and c: "length G div 2 + 1 \<le> card A" "length G div 2 + 1 \<le> card B"
    by (simp_all add: group_quorum_def)
  show "A \<inter> B \<noteq> {}"
  proof
    assume "A \<inter> B = {}"
    then have "card A + card B = card (A \<union> B)"
      using s by (simp add: card_Un_disjoint finite_subset [OF _ finite_set])
    also have "\<dots> \<le> card (set G)" using s by (intro card_mono) auto
    also have "\<dots> \<le> length G" by (rule card_length)
    finally show False using c by linarith
  qed
qed

section \<open>Steps\<close>

record cluster =
  nodes :: "public_id \<Rightarrow> raft"
  net :: "(public_id \<times> public_id \<times> msg) set"
  ballots :: "(nat \<times> public_id \<times> public_id) set"
  won :: "(nat \<times> public_id) set"
  history :: "public_id \<Rightarrow> entry list"

definition sends :: "action list \<Rightarrow> (public_id \<times> msg) set" where
  "sends acts = set (concat (map (\<lambda>a. case a of Send p m \<Rightarrow> [(p, m)] | _ \<Rightarrow> []) acts))"

lemma sends_iff [simp]: "(p, m) \<in> sends acts \<longleftrightarrow> Send p m \<in> set acts"
  by (force simp: sends_def split: action.splits)

definition applies :: "action list \<Rightarrow> entry list" where
  "applies acts = concat (map (\<lambda>a. case a of Apply e \<Rightarrow> [e] | _ \<Rightarrow> []) acts)"

definition grants :: "public_id \<Rightarrow> action list \<Rightarrow> (nat \<times> public_id \<times> public_id) set" where
  "grants t acts = set (concat (map (\<lambda>a. case a of Send p (VoteResp e True) \<Rightarrow> [(e, t, p)] | _ \<Rightarrow> []) acts))"

text \<open>Member \<open>t\<close> moves to \<open>r\<close> and its actions are carried out.\<close>

definition after :: "cluster \<Rightarrow> public_id \<Rightarrow> raft \<Rightarrow> action list \<Rightarrow> (nat \<times> public_id \<times> public_id) set \<Rightarrow> cluster" where
  "after c t r acts B =
     \<lparr>nodes = (nodes c)(t := r),
      net = net c \<union> (\<lambda>(p, m). (t, p, m)) ` sends acts,
      ballots = ballots c \<union> grants t acts \<union> B,
      won = won c \<union> (if BecameLeader \<in> set acts then {(epoch r, t)} else {}),
      history = (history c)(t := history c t @ applies acts)\<rparr>"

datatype event =
    Deliver public_id public_id msg
  | Tick public_id
  | Beat public_id
  | Propose public_id bytes
  | Compact public_id nat
  | Ship public_id public_id bytes
  | Restart public_id

text \<open>What a member comes back with after a crash: everything that was persisted.\<close>

definition restart_node :: "raft \<Rightarrow> raft" where
  "restart_node r =
     raft_restore (me r) (group r) (epoch r) (voted_for r) (base_seq r) (base_epoch r) (log r) (applied r)"

fun actor :: "event \<Rightarrow> public_id" where
  "actor (Deliver f t m) = t"
| "actor (Tick t) = t"
| "actor (Beat t) = t"
| "actor (Propose t cmd) = t"
| "actor (Compact t k) = t"
| "actor (Ship t p d) = t"
| "actor (Restart t) = t"

fun local_step :: "raft \<Rightarrow> event \<Rightarrow> raft \<times> action list" where
  "local_step r (Deliver f t m) = handle r f m"
| "local_step r (Tick t) = tick_election r"
| "local_step r (Beat t) = heartbeat r"
| "local_step r (Propose t cmd) =
     (case propose r cmd of (r', Inl _) \<Rightarrow> (r', []) | (r', Inr (_, acts)) \<Rightarrow> (r', acts))"
| "local_step r (Compact t k) = (fst (raft_compact r k), [])"
| "local_step r (Ship t p d) = (r, if is_leader r then [Send p (ship_snapshot r d)] else [])"
| "local_step r (Restart t) = (restart_node r, [])"

text \<open>A member that stands for election votes for itself.\<close>

fun own_ballot :: "raft \<Rightarrow> event \<Rightarrow> (nat \<times> public_id \<times> public_id) set" where
  "own_ballot r (Tick t) = (if is_leader r then {} else {(epoch r + 1, t, t)})"
| "own_ballot r _ = {}"

definition perform :: "cluster \<Rightarrow> event \<Rightarrow> cluster" where
  "perform c ev =
     (let t = actor ev; r = nodes c t in
      case local_step r ev of (r', acts) \<Rightarrow> after c t r' acts (own_ballot r ev))"

fun deliverable :: "(public_id \<times> public_id \<times> msg) set \<Rightarrow> event \<Rightarrow> bool" where
  "deliverable N (Deliver f t m) \<longleftrightarrow> (f, t, m) \<in> N"
| "deliverable N _ \<longleftrightarrow> True"

definition enabled :: "public_id list \<Rightarrow> cluster \<Rightarrow> event \<Rightarrow> bool" where
  "enabled G c ev \<longleftrightarrow> actor ev \<in> set G \<and> deliverable (net c) ev"

definition cluster_new :: "public_id list \<Rightarrow> cluster" where
  "cluster_new G = \<lparr>nodes = (\<lambda>i. raft_new i G), net = {}, ballots = {}, won = {}, history = (\<lambda>i. [])\<rparr>"

inductive reach :: "public_id list \<Rightarrow> cluster \<Rightarrow> bool" for G where
  init: "reach G (cluster_new G)"
| step: "reach G c \<Longrightarrow> enabled G c ev \<Longrightarrow> reach G (perform c ev)"

inductive_cases reachE: "reach G c"

text \<open>A run is a list of events, each enabled when its turn comes.\<close>

fun run_cluster :: "public_id list \<Rightarrow> cluster \<Rightarrow> event list \<Rightarrow> cluster option" where
  "run_cluster G c [] = Some c"
| "run_cluster G c (ev # evs) = (if enabled G c ev then run_cluster G (perform c ev) evs else None)"

lemma run_cluster_reach: "reach G c \<Longrightarrow> run_cluster G c evs = Some d \<Longrightarrow> reach G d"
  by (induction evs arbitrary: c) (auto split: if_splits intro: reach.step)

section \<open>A run that breaks state machine safety\<close>

definition trio :: "public_id list" where
  "trio = [[1], [2], [3]]"

definition unsafe_run :: "event list" where
  "unsafe_run =
    (let x = \<lparr>en_epoch = 1, en_seq = 1, en_cmd = [10]\<rparr>; z = \<lparr>en_epoch = 3, en_seq = 2, en_cmd = [30]\<rparr> in
     [Tick [1], Deliver [1] [2] (VoteReq 1 0 0), Deliver [2] [1] (VoteResp 1 True), Propose [1] [10],
      Tick [2], Deliver [2] [3] (VoteReq 2 0 0), Deliver [3] [2] (VoteResp 2 True),
      Deliver [2] [1] (Append 2 0 0 [] 0), Deliver [1] [2] (AppendResp 2 1 True), Propose [2] [20],
      Tick [1], Deliver [1] [3] (VoteReq 3 1 1), Deliver [3] [1] (VoteResp 3 True), Propose [1] [30],
      Deliver [1] [3] (Append 3 1 1 [z] 0), Deliver [3] [1] (AppendResp 3 0 False),
      Deliver [1] [3] (Append 3 0 0 [x, z] 0), Deliver [3] [1] (AppendResp 3 2 True)])"

text \<open>The same run on finite tables, which evaluate quickly.\<close>

type_synonym table =
  "(public_id \<times> raft) list \<times> (public_id \<times> public_id \<times> msg) list \<times> (public_id \<times> entry list) list"

fun table_step :: "public_id list \<Rightarrow> table \<Rightarrow> event \<Rightarrow> table option" where
  "table_step G (ns, ms, hs) ev =
     (if actor ev \<in> set G \<and> deliverable (set ms) ev then
        (case (map_of ns (actor ev), map_of hs (actor ev)) of
           (Some r, Some h) \<Rightarrow>
             (case local_step r ev of (r', acts) \<Rightarrow>
                Some (AList.update (actor ev) r' ns,
                      ms @ concat (map (\<lambda>a. case a of Send p m \<Rightarrow> [(actor ev, p, m)] | _ \<Rightarrow> []) acts),
                      AList.update (actor ev) (h @ applies acts) hs))
         | _ \<Rightarrow> None)
      else None)"

fun table_run :: "public_id list \<Rightarrow> table \<Rightarrow> event list \<Rightarrow> table option" where
  "table_run G s [] = Some s"
| "table_run G s (ev # evs) = (case table_step G s ev of None \<Rightarrow> None | Some s' \<Rightarrow> table_run G s' evs)"

definition tabulates :: "cluster \<Rightarrow> table \<Rightarrow> bool" where
  "tabulates c = (\<lambda>(ns, ms, hs).
     (\<forall>t r. map_of ns t = Some r \<longrightarrow> nodes c t = r) \<and> set ms \<subseteq> net c \<and>
     (\<forall>t h. map_of hs t = Some h \<longrightarrow> history c t = h))"

lemma tabulates_step:
  assumes "tabulates c s" and "table_step G s ev = Some s'"
  shows "enabled G c ev \<and> tabulates (perform c ev) s'"
proof -
  obtain ns ms hs where s: "s = (ns, ms, hs)" by (cases s)
  from assms(2) obtain r h r' acts where
    e: "actor ev \<in> set G" "deliverable (set ms) ev" and
    r: "map_of ns (actor ev) = Some r" and h: "map_of hs (actor ev) = Some h" and
    l: "local_step r ev = (r', acts)" and
    s': "s' = (AList.update (actor ev) r' ns,
               ms @ concat (map (\<lambda>a. case a of Send p m \<Rightarrow> [(actor ev, p, m)] | _ \<Rightarrow> []) acts),
               AList.update (actor ev) (h @ applies acts) hs)"
    by (auto simp: s split: if_splits option.splits prod.splits)
  from assms(1) r h have n: "nodes c (actor ev) = r" "history c (actor ev) = h" and m: "set ms \<subseteq> net c"
    by (auto simp: tabulates_def s)
  from e m have "enabled G c ev" by (cases ev) (auto simp: enabled_def)
  then show ?thesis
    using assms(1) m
    by (auto simp: tabulates_def s s' perform_def n l after_def update_conv' Let_def image_iff
          split: if_splits action.splits)
qed

lemma tabulates_run:
  "tabulates c s \<Longrightarrow> table_run G s evs = Some s' \<Longrightarrow> \<exists>c'. run_cluster G c evs = Some c' \<and> tabulates c' s'"
proof (induction evs arbitrary: c s)
  case (Cons ev evs)
  from Cons.prems(2) obtain s1 where s1: "table_step G s ev = Some s1" "table_run G s1 evs = Some s'"
    by (auto split: option.splits)
  from tabulates_step [OF Cons.prems(1) s1(1)] Cons.IH [OF _ s1(2)] show ?case by auto
qed simp

definition trio_start :: table where
  "trio_start = (map (\<lambda>i. (i, raft_new i trio)) trio, [], map (\<lambda>i. (i, [])) trio)"

lemma trio_run:
  assumes "table_run trio trio_start evs = Some s"
  shows "\<exists>c. reach trio c \<and> tabulates c s"
proof -
  have "tabulates (cluster_new trio) trio_start"
    by (auto simp: tabulates_def cluster_new_def trio_start_def trio_def split: if_splits)
  from tabulates_run [OF this assms] run_cluster_reach [OF reach.init] show ?thesis by blast
qed

lemma unsafe_table:
  "map_option (\<lambda>(ns, ms, hs). hs)
     (table_run trio trio_start unsafe_run)
   = Some [([1], [\<lparr>en_epoch = 1, en_seq = 1, en_cmd = [10]\<rparr>, \<lparr>en_epoch = 3, en_seq = 2, en_cmd = [30]\<rparr>]),
           ([2], [\<lparr>en_epoch = 2, en_seq = 1, en_cmd = [20]\<rparr>]), ([3], [])]"
  by code_simp

text \<open>
  C19: state machine safety fails.  There is a reachable state of a group of three
  in which two members have applied different entries at sequence number 1.  A
  follower with a leftover entry of an old leader acknowledges an empty append
  with its own last sequence number, so the new leader counts an entry as
  replicated that only it holds, applies it, and is gone; the follower is elected
  with the third member's vote and applies the leftover entry instead.
\<close>

theorem state_machine_safety_violated:
  "\<exists>c. reach [[1], [2], [3]] c \<and>
     (\<exists>x \<in> set (history c [1]). \<exists>y \<in> set (history c [2]). en_seq x = en_seq y \<and> en_cmd x \<noteq> en_cmd y)"
proof -
  obtain ns ms where "table_run trio trio_start unsafe_run = Some (ns, ms,
      [([1], [\<lparr>en_epoch = 1, en_seq = 1, en_cmd = [10]\<rparr>, \<lparr>en_epoch = 3, en_seq = 2, en_cmd = [30]\<rparr>]),
       ([2], [\<lparr>en_epoch = 2, en_seq = 1, en_cmd = [20]\<rparr>]), ([3], [])])"
    using unsafe_table by (auto simp: map_option_eq_Some)
  from trio_run [OF this] obtain c where c: "reach trio c"
    and "history c [1] = [\<lparr>en_epoch = 1, en_seq = 1, en_cmd = [10]\<rparr>, \<lparr>en_epoch = 3, en_seq = 2, en_cmd = [30]\<rparr>]"
    and "history c [2] = [\<lparr>en_epoch = 2, en_seq = 1, en_cmd = [20]\<rparr>]"
    by (auto simp: tabulates_def)
  then show ?thesis by (intro exI [of _ c]) (simp add: trio_def)
qed

section \<open>What a step does to ballots and leadership\<close>

text \<open>
  A step of one member, as the election sees it: \<open>V\<close> are the voters known to
  have voted for it in epoch \<open>E\<close>.
\<close>

definition election_step :: "nat \<Rightarrow> public_id set \<Rightarrow> raft \<Rightarrow> raft \<Rightarrow> action list \<Rightarrow> bool" where
  "election_step E V r r' acts \<longleftrightarrow>
     me r' = me r \<and> group r' = group r \<and> epoch r \<le> epoch r' \<and>
     (epoch r' = epoch r \<and> voted_for r \<noteq> None \<longrightarrow> voted_for r' = voted_for r) \<and>
     (\<forall>p e. Send p (VoteResp e True) \<in> set acts \<longrightarrow> e = epoch r' \<and> voted_for r' = Some p) \<and>
     (\<forall>vs. role r' = Candidate vs \<longrightarrow> epoch r' = E \<and> set vs \<subseteq> V \<and> BecameLeader \<notin> set acts) \<and>
     (BecameLeader \<in> set acts \<longrightarrow>
        epoch r' = E \<and> (\<exists>vs. distinct vs \<and> majority r \<le> length vs \<and> set vs \<subseteq> V \<and> set vs \<subseteq> set (group r))) \<and>
     (is_leader r' \<longrightarrow> is_leader r \<and> epoch r' = epoch r \<or> BecameLeader \<in> set acts)"

lemma replicate_all_acts [simp]:
  "BecameLeader \<notin> set (replicate_all r)" "Send p (VoteResp e g) \<notin> set (replicate_all r)"
  by (auto simp: replicate_all_def replicate_one_def Let_def split: role.splits if_splits prod.splits)

lemma apply_committed_acts [simp]:
  "BecameLeader \<notin> set (snd (apply_committed r))" "Send p m \<notin> set (snd (apply_committed r))"
  by (auto simp: apply_committed_def split: option.splits)

lemma become_follower_acts [simp]:
  "BecameLeader \<notin> set (snd (become_follower r e))" "Send p m \<notin> set (snd (become_follower r e))"
  by (auto simp: become_follower_def Let_def)

lemma accept_leader_acts [simp]:
  "BecameLeader \<notin> set (snd (accept_leader r f e))" "Send p m \<notin> set (snd (accept_leader r f e))"
  by (auto simp: accept_leader_def Let_def split_def)


lemma advance_commit_acts [simp]:
  "BecameLeader \<notin> set (snd (advance_commit r))" "Send p (VoteResp e g) \<notin> set (snd (advance_commit r))"
  by (cases "role r"; auto simp: advance_commit_def Let_def split_def)+

lemma is_leader_iff: "is_leader r \<longleftrightarrow> (\<exists>nx mt. role r = Leader nx mt)"
  by (auto simp: is_leader_def split: role.splits)

lemma advance_commit_fields [simp]:
  "me (fst (advance_commit r)) = me r" "group (fst (advance_commit r)) = group r"
  "epoch (fst (advance_commit r)) = epoch r" "voted_for (fst (advance_commit r)) = voted_for r"
  "role (fst (advance_commit r)) = role r" "log (fst (advance_commit r)) = log r"
  "base_seq (fst (advance_commit r)) = base_seq r" "base_epoch (fst (advance_commit r)) = base_epoch r"
  by (cases "role r"; simp add: advance_commit_def Let_def split_def)+

lemma election_follower:
  "election_step E V r (fst (become_follower r e)) (snd (become_follower r e))"
  by (auto simp: election_step_def become_follower_simps is_leader_def)

lemma election_try_win:
  assumes "raft_ok q" and "role q = Candidate vs \<Longrightarrow> epoch q = E \<and> set vs \<subseteq> V"
    and "me q = me r" "group q = group r" "epoch r \<le> epoch q"
    and "epoch q = epoch r \<and> voted_for r \<noteq> None \<longrightarrow> voted_for q = voted_for r"
    and "is_leader q \<longrightarrow> is_leader r \<and> epoch q = epoch r"
    and "\<And>us. role q = Candidate us \<Longrightarrow> us = vs"
  shows "election_step E V r (fst (try_win q)) (snd (try_win q))"
proof (cases "role q")
  case (Candidate us)
  with assms(8) have c: "role q = Candidate vs" by blast
  have "distinct vs" "set vs \<subseteq> set (group r)"
    using assms(1,4) c by (simp_all add: raft_ok_def role_ok_def)
  moreover have m: "majority q = majority r" using assms(4) by (simp add: majority_def)
  moreover note v = assms(2) [OF c]
  ultimately show ?thesis
  proof (cases "length vs < majority r")
    case True
    then have "try_win q = (q, [])" by (simp add: try_win_def c m)
    with c v show ?thesis using assms(3-6) by (simp add: election_step_def is_leader_def)
  next
    case False
    define l where "l = Leader (map (\<lambda>p. (p, snd (last_entry q) + 1)) (others q)) (map (\<lambda>p. (p, 0)) (others q))"
    have w: "try_win q = (q\<lparr>role := l\<rparr>, BecameLeader # replicate_all (q\<lparr>role := l\<rparr>))"
      using False by (simp add: try_win_def c m Let_def l_def)
    have l: "l \<noteq> Candidate us" for us by (simp add: l_def)
    have "\<exists>vs. distinct vs \<and> majority r \<le> length vs \<and> set vs \<subseteq> V \<and> set vs \<subseteq> set (group r)"
      using False v \<open>distinct vs\<close> \<open>set vs \<subseteq> set (group r)\<close> by (intro exI [of _ vs]) simp
    with v l show ?thesis using assms(3-6) unfolding w by (simp add: election_step_def)
  qed
next
  case Follower
  then have "try_win q = (q, [])" by (simp add: try_win_def)
  with Follower show ?thesis using assms(3-7) by (simp add: election_step_def)
next
  case (Leader nx mt)
  then have "try_win q = (q, [])" by (simp add: try_win_def)
  with Leader show ?thesis using assms(3-7) by (simp add: election_step_def)
qed

lemma election_tick:
  assumes "raft_ok r" and "\<not> is_leader r"
  shows "election_step (epoch r + 1) {me r} r (fst (tick_election r)) (snd (tick_election r))"
    and "epoch (fst (tick_election r)) = epoch r + 1" and "voted_for (fst (tick_election r)) = Some (me r)"
proof -
  let ?q = "r\<lparr>epoch := epoch r + 1, voted_for := Some (me r), leader := None, role := Candidate [me r]\<rparr>"
  have ok: "raft_ok ?q" using assms by (auto simp: raft_ok_def role_ok_def)
  have t: "fst (tick_election r) = fst (try_win ?q)"
    "snd (tick_election r) = PersistMeta # map (\<lambda>p. Send p (VoteReq (epoch r + 1) (fst (last_entry r)) (snd (last_entry r)))) (others r)
       @ snd (try_win ?q)"
    using assms(2) by (simp_all add: tick_election_def Let_def split_def others_def)
  have "election_step (epoch r + 1) {me r} r (fst (try_win ?q)) (snd (try_win ?q))"
    by (rule election_try_win [OF ok, where vs = "[me r]"]) (simp_all add: is_leader_def)
  then show "election_step (epoch r + 1) {me r} r (fst (tick_election r)) (snd (tick_election r))"
    by (auto simp: election_step_def t)
  show "epoch (fst (tick_election r)) = epoch r + 1" "voted_for (fst (tick_election r)) = Some (me r)"
    by (simp_all add: t try_win_def Let_def)
qed

lemma election_same:
  assumes "me r' = me r" "group r' = group r" "epoch r' = epoch r" "voted_for r' = voted_for r"
    and "role r' = role r \<or> (is_leader r \<and> is_leader r')"
    and "\<And>vs. role r = Candidate vs \<Longrightarrow> set vs \<subseteq> V"
    and "BecameLeader \<notin> set acts" "\<And>p e. Send p (VoteResp e True) \<notin> set acts"
  shows "election_step (epoch r) V r r' acts"
  using assms unfolding election_step_def is_leader_def by (auto split: role.splits)

lemma election_vote_req:
  assumes "\<And>vs. role r = Candidate vs \<Longrightarrow> set vs \<subseteq> V"
  shows "election_step (epoch r) V r (fst (handle_vote_req r f e le ls)) (snd (handle_vote_req r f e le ls))"
proof -
  define p where "p = (if epoch r < e then become_follower r e else (r, []))"
  define g where "g \<longleftrightarrow> e = epoch (fst p) \<and> last_entry (fst p) \<le> (le, ls)
      \<and> (voted_for (fst p) = None \<or> voted_for (fst p) = Some f)"
  define q where "q = (if g \<and> voted_for (fst p) = None then (fst p)\<lparr>voted_for := Some f\<rparr> else fst p)"
  have h: "handle_vote_req r f e le ls =
     (q, snd p @ (if g \<and> voted_for (fst p) = None then [PersistMeta] else []) @ [Send f (VoteResp (epoch q) g)])"
    unfolding handle_vote_req_def Let_def p_def [symmetric] split_def g_def [symmetric] q_def [symmetric] by simp
  have step: "election_step (epoch r) V r (fst p) (snd p)"
    using assms election_follower by (auto simp: p_def intro!: election_same)
  have q: "me q = me (fst p)" "group q = group (fst p)" "epoch q = epoch (fst p)" "role q = role (fst p)"
    "voted_for (fst p) \<noteq> None \<Longrightarrow> voted_for q = voted_for (fst p)" "g \<Longrightarrow> voted_for q = Some f"
    "is_leader q = is_leader (fst p)"
    by (auto simp: q_def g_def is_leader_def)
  have ns: "Send x m \<notin> set (snd p)" for x m by (simp add: p_def)
  have nb: "BecameLeader \<notin> set (snd p)" by (simp add: p_def)
  have vf: "voted_for q = voted_for r" if "epoch (fst p) = epoch r" "voted_for r \<noteq> None"
    using that step q(5) unfolding election_step_def by metis
  have cand: "epoch (fst p) = epoch r \<and> set vs \<subseteq> V" if "role (fst p) = Candidate vs" for vs
    using that step unfolding election_step_def by metis
  have ld: "is_leader r \<and> epoch (fst p) = epoch r" if "is_leader (fst p)"
    using that step nb unfolding election_step_def by metis
  have fr: "me (fst p) = me r" "group (fst p) = group r" "epoch r \<le> epoch (fst p)"
    using step unfolding election_step_def by simp_all
  show ?thesis
    unfolding h election_step_def using q(1-4,6,7) vf cand ld fr ns nb by auto
qed

lemma election_vote_resp:
  assumes "raft_ok r" and "f \<in> set (group r)"
    and "\<And>vs. role r = Candidate vs \<Longrightarrow> set vs \<subseteq> V" and "e = epoch r \<Longrightarrow> g \<Longrightarrow> f \<in> V"
  shows "election_step (epoch r) V r (fst (handle_vote_resp r f e g)) (snd (handle_vote_resp r f e g))"
proof -
  define q where "q = (case role r of
           Candidate vs \<Rightarrow> if f \<in> set vs then r else r\<lparr>role := Candidate (vs @ [f])\<rparr>
         | _ \<Rightarrow> r)"
  consider "epoch r < e" | "\<not> epoch r < e" "e \<noteq> epoch r \<or> \<not> g" | "e = epoch r" g by linarith
  then show ?thesis
  proof cases
    case 1
    then show ?thesis by (simp add: handle_vote_resp_def election_follower)
  next
    case 2
    then have "handle_vote_resp r f e g = (r, [])" by (simp add: handle_vote_resp_def)
    with assms(3) show ?thesis by (simp add: election_same)
  next
    case 3
    then have h: "handle_vote_resp r f e g = try_win q" by (simp add: handle_vote_resp_def q_def)
    have ok: "raft_ok q" using assms(1,2) by (auto simp: q_def raft_ok_def role_ok_def split: role.splits)
    have q: "me q = me r" "group q = group r" "epoch q = epoch r" "voted_for q = voted_for r" "is_leader q = is_leader r"
      by (auto simp: q_def is_leader_def split: role.splits)
    have f: "f \<in> V" using assms(4) 3 by simp
    have vs: "set vs \<subseteq> V" if "role q = Candidate vs" for vs
      using that assms(3) f by (auto simp: q_def split: role.splits if_splits)
    show ?thesis unfolding h
      by (rule election_try_win [OF ok, where vs = "votes (role q)"]) (use q vs in auto)
  qed
qed

lemma election_accept:
  assumes "epoch r \<le> e" and "me q = me r" "group q = group r" "role q = Follower" "epoch q = e"
    and "voted_for q = voted_for (fst (accept_leader r f e))"
    and "BecameLeader \<notin> set acts" "\<And>p e. Send p (VoteResp e True) \<notin> set acts"
  shows "election_step (epoch r) V r q acts"
  using assms by (auto simp: election_step_def accept_leader_simps become_follower_simps is_leader_def split: option.splits)

lemma accept_leader_fields [simp]:
  "me (fst (accept_leader r f e)) = me r" "group (fst (accept_leader r f e)) = group r"
  "log (fst (accept_leader r f e)) = log r" "base_seq (fst (accept_leader r f e)) = base_seq r"
  by (simp_all add: accept_leader_simps become_follower_simps)

lemma fold_append_log: "fold append_one es (r, pf) = (r', pf') \<Longrightarrow> \<exists>L. r' = r\<lparr>log := L\<rparr>"
proof (induction es arbitrary: r pf)
  case (Cons e es)
  obtain r1 pf1 where r1: "append_one e (r, pf) = (r1, pf1)" by force
  obtain L where "r1 = r\<lparr>log := L\<rparr>" using append_one_log [OF r1] by blast
  with Cons.IH [of r1 pf1] Cons.prems r1 show ?case by auto
qed (auto intro!: exI [of _ "log r'"])

lemma handle_append_cases:
  assumes "epoch r \<le> e"
  obtains (nack) k where "handle_append r f e p pe es c = (fst (accept_leader r f e),
        snd (accept_leader r f e) @ [Send f (AppendResp e k False)])"
    | (ack) r2 pf k xs where "fold append_one es (fst (accept_leader r f e), None) = (r2, pf)"
        and "prev_ok (fst (accept_leader r f e)) p pe"
        and "fst (handle_append r f e p pe es c) = r2\<lparr>commit := commit (fst (handle_append r f e p pe es c)),
               applied := applied (fst (handle_append r f e p pe es c))\<rparr>"
        and "snd (handle_append r f e p pe es c) = snd (accept_leader r f e) @ xs @ [Send f (AppendResp e k True)]"
        and "BecameLeader \<notin> set xs" and "\<And>q m. Send q m \<notin> set xs"
proof (cases "prev_ok (fst (accept_leader r f e)) p pe")
  case False
  with assms accept_leader_epoch [OF assms] show ?thesis
    by (intro nack) (simp add: handle_append_def split_def Let_def)
next
  case True
  obtain r2 pf where r2: "fold append_one es (fst (accept_leader r f e), None) = (r2, pf)" by force
  obtain L where L: "r2 = (fst (accept_leader r f e))\<lparr>log := L\<rparr>" using fold_append_log [OF r2] by blast
  then have ep: "epoch r2 = e" using accept_leader_epoch [OF assms] by simp
  define xs where "xs = (case pf of Some n \<Rightarrow> [PersistLog n] | None \<Rightarrow> []) @
     snd (if commit r2 < c then apply_committed (r2\<lparr>commit := min c (last_seq r2)\<rparr>) else (r2, []))"
  show ?thesis
  proof (rule ack [OF r2 True])
    show "fst (handle_append r f e p pe es c) = r2\<lparr>commit := commit (fst (handle_append r f e p pe es c)),
               applied := applied (fst (handle_append r f e p pe es c))\<rparr>"
      using assms True by (simp add: handle_append_def split_def Let_def r2)
    show "snd (handle_append r f e p pe es c) = snd (accept_leader r f e) @ xs @ [Send f (AppendResp e (last_seq r2) True)]"
      using assms True ep by (simp add: handle_append_def split_def Let_def r2 xs_def)
    show "BecameLeader \<notin> set xs" "\<And>q m. Send q m \<notin> set xs"
      by (auto simp: xs_def split: option.splits if_splits)
  qed
qed

lemma election_append:
  assumes "\<And>vs. role r = Candidate vs \<Longrightarrow> set vs \<subseteq> V"
  shows "election_step (epoch r) V r (fst (handle_append r f e p pe es c)) (snd (handle_append r f e p pe es c))"
proof (cases "epoch r \<le> e")
  case False
  then show ?thesis using assms by (auto simp: handle_append_def intro!: election_same)
next
  case True
  note ae = accept_leader_epoch [OF True, of f]
  show ?thesis
  proof (rule handle_append_cases [OF True, of f p pe es c])
    fix k
    assume h: "handle_append r f e p pe es c = (fst (accept_leader r f e),
        snd (accept_leader r f e) @ [Send f (AppendResp e k False)])"
    show ?thesis unfolding h by (rule election_accept [OF True]) (use ae in auto)
  next
    fix r2 pf k xs
    assume r2: "fold append_one es (fst (accept_leader r f e), None) = (r2, pf)"
      and f: "fst (handle_append r f e p pe es c) = r2\<lparr>commit := commit (fst (handle_append r f e p pe es c)),
               applied := applied (fst (handle_append r f e p pe es c))\<rparr>"
      and s: "snd (handle_append r f e p pe es c) = snd (accept_leader r f e) @ xs @ [Send f (AppendResp e k True)]"
      and xs: "BecameLeader \<notin> set xs" "\<And>q m. Send q m \<notin> set xs"
    obtain L where L: "r2 = (fst (accept_leader r f e))\<lparr>log := L\<rparr>" using fold_append_log [OF r2] by blast
    define q where "q = fst (handle_append r f e p pe es c)"
    have "\<exists>c a. q = r2\<lparr>commit := c, applied := a\<rparr>" using f unfolding q_def by blast
    then obtain cc a where q: "q = r2\<lparr>commit := cc, applied := a\<rparr>" by blast
    show ?thesis unfolding s q_def [symmetric]
      by (rule election_accept [OF True]) (use ae xs in \<open>auto simp: q L\<close>)
  qed
qed


lemma election_install:
  assumes "\<And>vs. role r = Candidate vs \<Longrightarrow> set vs \<subseteq> V"
  shows "election_step (epoch r) V r (fst (handle_install r f e ls le d)) (snd (handle_install r f e ls le d))"
proof (cases "epoch r \<le> e")
  case False
  then show ?thesis using assms by (auto simp: handle_install_def intro!: election_same)
next
  case True
  note ae = accept_leader_epoch [OF True, of f]
  show ?thesis
    by (rule election_accept [OF True, where f = f])
       (use True ae in \<open>auto simp: handle_install_def Let_def split_def\<close>)
qed

lemma election_append_resp:
  assumes "\<And>vs. role r = Candidate vs \<Longrightarrow> set vs \<subseteq> V"
  shows "election_step (epoch r) V r (fst (handle_append_resp r f e k b)) (snd (handle_append_resp r f e k b))"
proof (cases "epoch r < e")
  case True
  then show ?thesis by (simp add: handle_append_resp_def election_follower)
next
  case False
  then show ?thesis using assms
    by (intro election_same) (auto simp: handle_append_resp_def Let_def is_leader_def split: role.splits)
qed

lemma election_handle:
  assumes "raft_ok r" and "f \<in> set (group r)"
    and "\<And>vs. role r = Candidate vs \<Longrightarrow> set vs \<subseteq> V" and "m = VoteResp (epoch r) True \<Longrightarrow> f \<in> V"
  shows "election_step (epoch r) V r (fst (handle r f m)) (snd (handle r f m))"
  using assms election_vote_req election_vote_resp election_append election_install election_append_resp
  by (cases m) (simp_all add: handle_def)

text \<open>The epoch in which a step can win, and the voters it may count.\<close>

fun step_epoch :: "raft \<Rightarrow> event \<Rightarrow> nat" where
  "step_epoch r (Tick t) = (if is_leader r then epoch r else epoch r + 1)"
| "step_epoch r _ = epoch r"

lemma raft_compact_fields [simp]:
  "me (fst (raft_compact r k)) = me r" "group (fst (raft_compact r k)) = group r"
  "epoch (fst (raft_compact r k)) = epoch r" "voted_for (fst (raft_compact r k)) = voted_for r"
  "role (fst (raft_compact r k)) = role r"
  by (auto simp: raft_compact_def Let_def split: option.splits)

lemma propose_step:
  "local_step r (Propose t cmd) =
     (if \<not> is_leader r then (r, [])
      else let q = r\<lparr>log := log r @ [\<lparr>en_epoch = epoch r, en_seq = last_seq r + 1, en_cmd = cmd\<rparr>]\<rparr>
           in (fst (advance_commit q), PersistLog (last_seq r + 1) # replicate_all q @ snd (advance_commit q)))"
  by (simp add: propose_def Let_def split_def)

lemma election_local:
  assumes ok: "raft_ok r" and g: "me r \<in> set (group r)" "sort (group r) = group r" and t: "actor ev = me r"
    and cand: "\<And>vs. role r = Candidate vs \<Longrightarrow> (\<lambda>v. (epoch r, v, me r)) ` set vs \<subseteq> B"
    and resp: "\<And>f t m. ev = Deliver f t m \<Longrightarrow> f \<in> set (group r) \<and> (\<forall>e. m = VoteResp e True \<longrightarrow> (e, f, t) \<in> B)"
  shows "election_step (step_epoch r ev) {v. (step_epoch r ev, v, me r) \<in> B \<union> own_ballot r ev} r
           (fst (local_step r ev)) (snd (local_step r ev))"
proof (cases ev)
  case (Deliver f u m)
  have "election_step (epoch r) {v. (epoch r, v, me r) \<in> B} r (fst (handle r f m)) (snd (handle r f m))"
    by (rule election_handle) (use ok cand resp [OF Deliver] t Deliver in auto)
  then show ?thesis by (simp add: Deliver)
next
  case (Tick u)
  show ?thesis
  proof (cases "is_leader r")
    case True
    then show ?thesis by (auto simp: Tick tick_election_def is_leader_iff intro!: election_same)
  next
    case False
    from election_tick(1) [OF ok False] t show ?thesis
      by (auto simp: Tick False election_step_def)
  qed
next
  case (Beat u)
  then show ?thesis using cand by (auto simp: heartbeat_def intro!: election_same)
next
  case (Propose u cmd)
  then show ?thesis using cand unfolding Propose propose_step by (auto simp: Let_def is_leader_def intro!: election_same)
next
  case (Compact u k)
  then show ?thesis using cand by (auto intro!: election_same)
next
  case (Ship u p d)
  then show ?thesis using cand by (auto simp: ship_snapshot_def split: prod.splits intro!: election_same)
next
  case (Restart u)
  then show ?thesis using g by (auto simp: election_step_def restart_node_def raft_restore_def raft_new_def is_leader_def)
qed


section \<open>Election safety\<close>

definition members_ok :: "public_id list \<Rightarrow> cluster \<Rightarrow> bool" where
  "members_ok G c \<longleftrightarrow>
     (\<forall>i \<in> set G. me (nodes c i) = i \<and> group (nodes c i) = sort G \<and> raft_ok (nodes c i)) \<and>
     (\<forall>f t m. (f, t, m) \<in> net c \<longrightarrow> f \<in> set G \<and> msg_ok m)"

definition ballots_ok :: "public_id list \<Rightarrow> cluster \<Rightarrow> bool" where
  "ballots_ok G c \<longleftrightarrow>
     (\<forall>e v x. (e, v, x) \<in> ballots c \<longrightarrow>
        v \<in> set G \<and> e \<le> epoch (nodes c v) \<and> (e = epoch (nodes c v) \<longrightarrow> voted_for (nodes c v) = Some x)) \<and>
     (\<forall>e v x y. (e, v, x) \<in> ballots c \<longrightarrow> (e, v, y) \<in> ballots c \<longrightarrow> x = y) \<and>
     (\<forall>v x e. (v, x, VoteResp e True) \<in> net c \<longrightarrow> (e, v, x) \<in> ballots c)"

definition leaders_ok :: "public_id list \<Rightarrow> cluster \<Rightarrow> bool" where
  "leaders_ok G c \<longleftrightarrow>
     (\<forall>i \<in> set G. \<forall>vs. role (nodes c i) = Candidate vs \<longrightarrow> (\<lambda>v. (epoch (nodes c i), v, i)) ` set vs \<subseteq> ballots c) \<and>
     (\<forall>i \<in> set G. is_leader (nodes c i) \<longrightarrow> (epoch (nodes c i), i) \<in> won c) \<and>
     (\<forall>e i. (e, i) \<in> won c \<longrightarrow> (\<exists>A. group_quorum G A \<and> (\<forall>v \<in> A. (e, v, i) \<in> ballots c)))"

lemma raft_ok_restart:
  assumes "raft_ok r" and "sort (group r) = group r"
  shows "raft_ok (restart_node r)"
  using assms by (auto simp: raft_ok_def restart_node_def raft_restore_def raft_new_def role_ok_def log_ok_def)

lemma members_local:
  assumes ok: "raft_ok r" and g: "sort (group r) = group r"
    and m: "\<And>f t m. ev = Deliver f t m \<Longrightarrow> f \<in> set (group r) \<and> msg_ok m"
  shows "raft_ok (fst (local_step r ev)) \<and> acts_ok r (snd (local_step r ev))"
proof (cases ev)
  case (Propose t cmd)
  then show ?thesis
    using raft_ok_propose [OF ok, of cmd] by (auto split: prod.splits sum.splits)
next
  case (Ship t p d)
  have "msg_ok (ship_snapshot r d)"
    using ok by (auto simp: ship_snapshot_def snapshot_point_def msg_ok_def raft_ok_def entry_at_Some split: option.splits)
  with ok show ?thesis by (simp add: Ship)
qed (use ok m raft_ok_handle raft_ok_tick [OF ok] acts_ok_replicate [OF ok] raft_ok_compact [OF ok] raft_ok_restart [OF ok g]
     in \<open>auto simp: heartbeat_def\<close>)

lemma perform_simps:
  assumes "local_step (nodes c (actor ev)) ev = (r', acts)"
  shows "nodes (perform c ev) = (nodes c)(actor ev := r')"
    "net (perform c ev) = net c \<union> (\<lambda>(p, m). (actor ev, p, m)) ` sends acts"
    "ballots (perform c ev) = ballots c \<union> grants (actor ev) acts \<union> own_ballot (nodes c (actor ev)) ev"
    "won (perform c ev) = won c \<union> (if BecameLeader \<in> set acts then {(epoch r', actor ev)} else {})"
    "history (perform c ev) = (history c)(actor ev := history c (actor ev) @ applies acts)"
  using assms by (simp_all add: perform_def Let_def after_def)

lemma grants_iff [simp]: "(e, v, x) \<in> grants t acts \<longleftrightarrow> v = t \<and> Send x (VoteResp e True) \<in> set acts"
  by (force simp: grants_def split: action.splits msg.splits bool.splits)


definition election_ok :: "public_id list \<Rightarrow> cluster \<Rightarrow> bool" where
  "election_ok G c \<longleftrightarrow> members_ok G c \<and> ballots_ok G c \<and> leaders_ok G c"

lemma step_facts:
  assumes inv: "election_ok G c" and en: "enabled G c ev"
    and l: "local_step (nodes c (actor ev)) ev = (r', acts)"
  shows "election_step (step_epoch (nodes c (actor ev)) ev)
           {v. (step_epoch (nodes c (actor ev)) ev, v, actor ev) \<in> ballots c \<union> own_ballot (nodes c (actor ev)) ev}
           (nodes c (actor ev)) r' acts"
    and "raft_ok r'" and "\<And>p m. Send p m \<in> set acts \<Longrightarrow> msg_ok m"
proof -
  let ?t = "actor ev" and ?r = "nodes c (actor ev)"
  have t: "?t \<in> set G" using en by (simp add: enabled_def)
  with inv have r: "me ?r = ?t" "group ?r = sort G" "raft_ok ?r" by (auto simp: election_ok_def members_ok_def)
  have idem: "sort (sort G) = sort G" by (simp add: sorted_sort_id)
  have d: "f \<in> set (group ?r) \<and> msg_ok m \<and> (\<forall>e. m = VoteResp e True \<longrightarrow> (e, f, u) \<in> ballots c)"
    if "ev = Deliver f u m" for f u m
    using that en inv r by (auto simp: enabled_def election_ok_def members_ok_def ballots_ok_def)
  have cand: "(\<lambda>v. (epoch ?r, v, me ?r)) ` set vs \<subseteq> ballots c" if "role ?r = Candidate vs" for vs
    using that inv t r by (auto simp: election_ok_def leaders_ok_def)
  have "election_step (step_epoch ?r ev) {v. (step_epoch ?r ev, v, me ?r) \<in> ballots c \<union> own_ballot ?r ev} ?r
           (fst (local_step ?r ev)) (snd (local_step ?r ev))"
    using r d cand t idem by (intro election_local) auto
  then show "election_step (step_epoch ?r ev) {v. (step_epoch ?r ev, v, ?t) \<in> ballots c \<union> own_ballot ?r ev} ?r r' acts"
    by (simp add: r l)
  have "raft_ok (fst (local_step ?r ev)) \<and> acts_ok ?r (snd (local_step ?r ev))"
    using r d idem by (intro members_local) auto
  then show "raft_ok r'" "\<And>p m. Send p m \<in> set acts \<Longrightarrow> msg_ok m" by (auto simp: l acts_ok_def)
qed

lemma members_step:
  assumes inv: "election_ok G c" and en: "enabled G c ev"
  shows "members_ok G (perform c ev)"
proof -
  let ?t = "actor ev"
  obtain r' acts where l: "local_step (nodes c ?t) ev = (r', acts)" by force
  note f = step_facts [OF inv en l]
  have t: "?t \<in> set G" using en by (simp add: enabled_def)
  have m: "me r' = me (nodes c ?t)" "group r' = group (nodes c ?t)"
    using f(1) unfolding election_step_def by simp_all
  show ?thesis
    using inv t m f(2,3) by (auto simp: members_ok_def election_ok_def perform_simps [OF l])
qed

lemma own_ballot_new:
  assumes "raft_ok r" and "me r = actor ev" and "(e, v, x) \<in> own_ballot r ev"
  shows "v = actor ev \<and> x = actor ev \<and> epoch r < e
    \<and> e = epoch (fst (local_step r ev)) \<and> voted_for (fst (local_step r ev)) = Some x"
  using assms election_tick(2,3) [of r] by (cases ev) (auto split: if_splits)

lemma new_ballot:
  assumes inv: "election_ok G c" and en: "enabled G c ev"
    and l: "local_step (nodes c (actor ev)) ev = (r', acts)"
    and b: "(e, v, x) \<in> grants (actor ev) acts \<union> own_ballot (nodes c (actor ev)) ev"
  shows "v = actor ev \<and> e = epoch r' \<and> voted_for r' = Some x"
proof -
  let ?t = "actor ev"
  have t: "?t \<in> set G" using en by (simp add: enabled_def)
  with inv have r: "me (nodes c ?t) = ?t" "raft_ok (nodes c ?t)" by (auto simp: election_ok_def members_ok_def)
  have g: "v = ?t \<and> e = epoch r' \<and> voted_for r' = Some x" if "(e, v, x) \<in> grants ?t acts"
    using that step_facts(1) [OF inv en l] unfolding election_step_def grants_iff by blast
  have "v = ?t \<and> e = epoch r' \<and> voted_for r' = Some x" if "(e, v, x) \<in> own_ballot (nodes c ?t) ev"
    using own_ballot_new [OF r(2,1) that] by (simp add: l)
  with g b show ?thesis by blast
qed

lemma ballots_step:
  assumes inv: "election_ok G c" and en: "enabled G c ev"
  shows "ballots_ok G (perform c ev)"
proof -
  let ?t = "actor ev" and ?r = "nodes c (actor ev)"
  obtain r' acts where l: "local_step ?r ev = (r', acts)" by force
  note p = perform_simps [OF l]
  have t: "?t \<in> set G" using en by (simp add: enabled_def)
  from step_facts(1) [OF inv en l] have ep: "epoch ?r \<le> epoch r'"
    and vf: "epoch r' = epoch ?r \<Longrightarrow> voted_for ?r \<noteq> None \<Longrightarrow> voted_for r' = voted_for ?r"
    unfolding election_step_def by simp_all
  have old: "v \<in> set G \<and> e \<le> epoch (nodes c v) \<and> (e = epoch (nodes c v) \<longrightarrow> voted_for (nodes c v) = Some x)"
    if "(e, v, x) \<in> ballots c" for e v x
    using inv that by (auto simp: election_ok_def ballots_ok_def)
  have A: "v \<in> set G \<and> e \<le> epoch (nodes (perform c ev) v) \<and>
      (e = epoch (nodes (perform c ev) v) \<longrightarrow> voted_for (nodes (perform c ev) v) = Some x)"
    if "(e, v, x) \<in> ballots (perform c ev)" for e v x
  proof (cases "(e, v, x) \<in> ballots c")
    case True
    from old [OF True] ep vf show ?thesis by (cases "v = ?t") (auto simp: p)
  next
    case False
    with that have "(e, v, x) \<in> grants ?t acts \<union> own_ballot ?r ev" by (simp add: p)
    from new_ballot [OF inv en l this] t show ?thesis by (simp add: p)
  qed
  have B: "x = y" if a: "(e, v, x) \<in> ballots (perform c ev)" "(e, v, y) \<in> ballots (perform c ev)" for e v x y
  proof (cases "(e, v, x) \<in> ballots c \<and> (e, v, y) \<in> ballots c")
    case True
    with inv show ?thesis unfolding election_ok_def ballots_ok_def by blast
  next
    case False
    with a have "(e, v, x) \<in> grants ?t acts \<union> own_ballot ?r ev \<or> (e, v, y) \<in> grants ?t acts \<union> own_ballot ?r ev"
      by (auto simp: p)
    then have "v = ?t \<and> e = epoch r'" using new_ballot [OF inv en l] by blast
    with A [OF a(1)] A [OF a(2)] show ?thesis by (simp add: p)
  qed
  have C: "(e, v, x) \<in> ballots (perform c ev)" if "(v, x, VoteResp e True) \<in> net (perform c ev)" for v x e
    using that inv by (auto simp: p election_ok_def ballots_ok_def)
  show ?thesis unfolding ballots_ok_def using A B C by blast
qed

lemma leaders_step:
  assumes inv: "election_ok G c" and en: "enabled G c ev"
  shows "leaders_ok G (perform c ev)"
proof -
  let ?t = "actor ev" and ?r = "nodes c (actor ev)"
  obtain r' acts where l: "local_step ?r ev = (r', acts)" by force
  note p = perform_simps [OF l]
  let ?V = "{v. (step_epoch ?r ev, v, ?t) \<in> ballots c \<union> own_ballot ?r ev}"
  note s = step_facts(1) [OF inv en l, unfolded election_step_def]
  have t: "?t \<in> set G" using en by (simp add: enabled_def)
  with inv have r: "group ?r = sort G" by (auto simp: election_ok_def members_ok_def)
  from inv have L: "leaders_ok G c" by (simp add: election_ok_def)
  have A: "(\<lambda>v. (epoch (nodes (perform c ev) i), v, i)) ` set vs \<subseteq> ballots (perform c ev)"
    if "i \<in> set G" "role (nodes (perform c ev) i) = Candidate vs" for i vs
  proof (cases "i = ?t")
    case True
    with that s have "epoch r' = step_epoch ?r ev" "set vs \<subseteq> ?V" by (auto simp: p)
    then show ?thesis by (auto simp: p True)
  next
    case False
    with that L show ?thesis by (auto simp: p leaders_ok_def)
  qed
  have B: "(epoch (nodes (perform c ev) i), i) \<in> won (perform c ev)"
    if "i \<in> set G" "is_leader (nodes (perform c ev) i)" for i
    using that L s t by (cases "i = ?t") (auto simp: p leaders_ok_def)
  have C: "\<exists>A. group_quorum G A \<and> (\<forall>v \<in> A. (e, v, i) \<in> ballots (perform c ev))"
    if "(e, i) \<in> won (perform c ev)" for e i
  proof (cases "(e, i) \<in> won c")
    case True
    with L obtain A where "group_quorum G A" "\<forall>v \<in> A. (e, v, i) \<in> ballots c"
      unfolding leaders_ok_def by blast
    then show ?thesis by (intro exI [of _ A]) (auto simp: p)
  next
    case False
    with that have b: "BecameLeader \<in> set acts" "e = epoch r'" "i = ?t" by (auto simp: p split: if_splits)
    with s obtain vs where vs: "epoch r' = step_epoch ?r ev" "distinct vs" "majority ?r \<le> length vs" "set vs \<subseteq> ?V"
      "set vs \<subseteq> set (group ?r)" by blast
    then have "group_quorum G (set vs)" by (simp add: group_quorum_def majority_def r distinct_card)
    with vs b show ?thesis by (intro exI [of _ "set vs"]) (auto simp: p)
  qed
  show ?thesis unfolding leaders_ok_def using A B C by blast
qed

lemma reach_election:
  assumes "reach G c" and "distinct G"
  shows "election_ok G c"
  using assms(1)
proof induction
  case init
  have "raft_ok (raft_new i G)" "me (raft_new i G) = i" "role (raft_new i G) = Follower" for i
    by (rule raft_ok_new [OF assms(2)]) (simp_all add: raft_new_def)
  moreover have "group (raft_new i G) = sort G" if "i \<in> set G" for i using that by (simp add: raft_new_def)
  ultimately show ?case
    by (auto simp: election_ok_def members_ok_def ballots_ok_def leaders_ok_def cluster_new_def is_leader_def)
next
  case (step c ev)
  then show ?case using members_step ballots_step leaders_step by (simp add: election_ok_def)
qed

lemma winner_unique:
  assumes "election_ok G c" and "(e, i) \<in> won c" and "(e, j) \<in> won c"
  shows "i = j"
proof -
  from assms obtain A B where "group_quorum G A" "\<forall>v \<in> A. (e, v, i) \<in> ballots c"
    "group_quorum G B" "\<forall>v \<in> B. (e, v, j) \<in> ballots c" unfolding election_ok_def leaders_ok_def by metis
  then show ?thesis
    using group.unique_winner [of G A B "\<lambda>v x. (e, v, x) \<in> ballots c" i j] assms(1)
    unfolding election_ok_def ballots_ok_def by blast
qed

text \<open>
  C1: election safety.  In every reachable state of a group of distinct members,
  whatever the messages lost, repeated or reordered and whoever restarts, an epoch
  has been won by at most one member, and two members that lead at the same epoch
  are the same member.
\<close>

theorem election_safety:
  assumes "reach G c" and "distinct G"
  shows "((e, i) \<in> won c \<longrightarrow> (e, j) \<in> won c \<longrightarrow> i = j) \<and>
    (i \<in> set G \<longrightarrow> j \<in> set G \<longrightarrow> is_leader (nodes c i) \<longrightarrow> is_leader (nodes c j) \<longrightarrow>
       epoch (nodes c i) = epoch (nodes c j) \<longrightarrow> i = j)"
proof -
  note ok = reach_election [OF assms]
  then have "leaders_ok G c" by (simp add: election_ok_def)
  with winner_unique [OF ok] show ?thesis unfolding leaders_ok_def by metis
qed


lemma first_leader:
  "map_option (\<lambda>(ns, ms, hs). map_option (\<lambda>r. (is_leader r, epoch r, map en_cmd (log r))) (map_of ns [1]))
     (table_run trio trio_start (take 4 unsafe_run)) = Some (Some (True, 1, [[10]]))"
  by code_simp

lemma first_leader_reached:
  "\<exists>c. reach trio c \<and> is_leader (nodes c [1]) \<and> epoch (nodes c [1]) = 1 \<and> map en_cmd (log (nodes c [1])) = [[10]]"
proof -
  obtain ns ms hs r where "table_run trio trio_start (take 4 unsafe_run) = Some (ns, ms, hs)"
    "map_of ns [1] = Some r" "is_leader r" "epoch r = 1" "map en_cmd (log r) = [[10]]"
    using first_leader by (auto simp: map_option_eq_Some)
  from trio_run [OF this(1)] this(2-) show ?thesis by (auto simp: tabulates_def)
qed

theorem election_safety_witness:
  "\<exists>c. reach trio c \<and> distinct trio \<and> is_leader (nodes c [1]) \<and> (1, [1]) \<in> won c \<and> (1, [2]) \<notin> won c"
proof -
  obtain c where c: "reach trio c" "is_leader (nodes c [1])" "epoch (nodes c [1]) = 1"
    using first_leader_reached by blast
  have d: "distinct trio" by (simp add: trio_def)
  have "[1] \<in> set trio" by (simp add: trio_def)
  with reach_election [OF c(1) d] c have w: "(1, [1]) \<in> won c" by (auto simp: election_ok_def leaders_ok_def)
  from election_safety [OF c(1) d, of 1 "[1]" "[2]"] w have "(1, [2]) \<notin> won c" by auto
  with c d w show ?thesis by blast
qed

section \<open>An entry is determined by its epoch and number\<close>

definition sent_entries :: "cluster \<Rightarrow> entry set" where
  "sent_entries c = {x. \<exists>f t e p pe es k. (f, t, Append e p pe es k) \<in> net c \<and> x \<in> set es}"

definition entries_of :: "public_id list \<Rightarrow> cluster \<Rightarrow> entry set" where
  "entries_of G c = (\<Union>i \<in> set G. set (log (nodes c i))) \<union> sent_entries c"

fun brought :: "event \<Rightarrow> entry set" where
  "brought (Deliver f t (Append e p pe es k)) = set es"
| "brought _ = {}"

fun proposed :: "raft \<Rightarrow> event \<Rightarrow> entry set" where
  "proposed r (Propose t cmd) =
     (if is_leader r then {\<lparr>en_epoch = epoch r, en_seq = last_seq r + 1, en_cmd = cmd\<rparr>} else {})"
| "proposed r _ = {}"

definition log_step :: "entry set \<Rightarrow> raft \<Rightarrow> raft \<Rightarrow> action list \<Rightarrow> bool" where
  "log_step K r r' acts \<longleftrightarrow>
     set (log r') \<subseteq> set (log r) \<union> K \<and>
     (\<forall>p e a b es k. Send p (Append e a b es k) \<in> set acts \<longrightarrow> set es \<subseteq> set (log r')) \<and>
     (is_leader r' \<longrightarrow> last_seq r \<le> last_seq r')"

lemma replicate_all_entries:
  "Send p (Append e a b es k) \<in> set (replicate_all r) \<Longrightarrow> set es \<subseteq> set (log r)"
  by (auto simp: replicate_all_def replicate_one_def Let_def split: role.splits if_splits)

lemma advance_commit_entries:
  "Send p (Append e a b es k) \<in> set (snd (advance_commit r)) \<Longrightarrow> set es \<subseteq> set (log r)"
proof (cases "role r")
  case (Leader nx mt)
  assume "Send p (Append e a b es k) \<in> set (snd (advance_commit r))"
  with Leader show ?thesis
    by (auto simp: advance_commit_def Let_def split_def split: if_splits
        dest!: replicate_all_entries)
qed (simp_all add: advance_commit_def)

lemma try_win_entries:
  "log (fst (try_win r)) = log r" "last_entry (fst (try_win r)) = last_entry r"
  "Send p (Append e a b es k) \<in> set (snd (try_win r)) \<Longrightarrow> set es \<subseteq> set (log r)"
  using replicate_all_entries
  by (force simp: try_win_def Let_def split: role.splits if_splits)+


lemma fold_append_entries:
  "fold append_one es (r, pf) = (r', pf') \<Longrightarrow> set (log r') \<subseteq> set (log r) \<union> set es"
proof (induction es arbitrary: r pf)
  case (Cons e es)
  obtain r1 pf1 where r1: "append_one e (r, pf) = (r1, pf1)" by force
  then have "set (log r1) \<subseteq> insert e (set (log r))"
    by (auto simp: append_one_def split: if_splits option.splits dest: in_set_takeD)
  with Cons.IH [of r1 pf1] Cons.prems r1 show ?case by auto
qed simp

lemma log_same:
  assumes "log r' = log r" and "is_leader r' \<Longrightarrow> base_seq r' = base_seq r \<and> base_epoch r' = base_epoch r"
    and "\<And>p e a b es k. Send p (Append e a b es k) \<in> set acts \<Longrightarrow> set es \<subseteq> set (log r)"
  shows "log_step K r r' acts"
  using assms by (auto simp: log_step_def last_entry_def)

lemma log_handle:
  assumes ok: "raft_ok r"
  shows "log_step (brought (Deliver f t m)) r (fst (handle r f m)) (snd (handle r f m))"
proof (cases m)
  case (VoteReq e le ls)
  show ?thesis unfolding VoteReq
    by (rule log_same) (auto simp: handle_def handle_vote_req_def Let_def split_def become_follower_simps split: if_splits)
next
  case (VoteResp e g)
  define q where "q = (case role r of
           Candidate vs \<Rightarrow> if f \<in> set vs then r else r\<lparr>role := Candidate (vs @ [f])\<rparr>
         | _ \<Rightarrow> r)"
  have q: "log q = log r" "last_entry q = last_entry r"
    by (auto simp: q_def last_entry_def split: role.splits)
  have "log_step {} r (fst (try_win q)) (snd (try_win q))"
    by (auto simp: log_step_def try_win_entries(1,2) q dest!: try_win_entries(3))
  then show ?thesis
    by (auto simp: VoteResp handle_def handle_vote_resp_def q_def [symmetric] become_follower_simps intro!: log_same)
next
  case (Append e p pe es k)
  show ?thesis
  proof (cases "epoch r \<le> e")
    case False
    then show ?thesis by (auto simp: Append handle_def handle_append_def intro!: log_same)
  next
    case True
    show ?thesis unfolding Append handle_def msg.case brought.simps
    proof (rule handle_append_cases [OF True, of f p pe es k])
      fix j
      assume h: "handle_append r f e p pe es k = (fst (accept_leader r f e),
          snd (accept_leader r f e) @ [Send f (AppendResp e j False)])"
      show "log_step (set es) r (fst (handle_append r f e p pe es k)) (snd (handle_append r f e p pe es k))"
        unfolding h by (rule log_same) (auto simp: is_leader_def)
    next
      fix r2 pf j xs
      assume r2: "fold append_one es (fst (accept_leader r f e), None) = (r2, pf)"
        and h: "fst (handle_append r f e p pe es k) = r2\<lparr>commit := commit (fst (handle_append r f e p pe es k)),
               applied := applied (fst (handle_append r f e p pe es k))\<rparr>"
        and s: "snd (handle_append r f e p pe es k) = snd (accept_leader r f e) @ xs @ [Send f (AppendResp e j True)]"
        and xs: "\<And>q m. Send q m \<notin> set xs"
      obtain L where L: "r2 = (fst (accept_leader r f e))\<lparr>log := L\<rparr>" using fold_append_log [OF r2] by blast
      obtain cc a where q: "fst (handle_append r f e p pe es k) = r2\<lparr>commit := cc, applied := a\<rparr>" using h by blast
      have "\<not> is_leader (r2\<lparr>commit := cc, applied := a\<rparr>)" by (simp add: L is_leader_def)
      with fold_append_entries [OF r2] xs
      show "log_step (set es) r (fst (handle_append r f e p pe es k)) (snd (handle_append r f e p pe es k))"
        unfolding s q by (auto simp: log_step_def)
    qed
  qed
next
  case (InstallSnapshot e ls le d)
  show ?thesis unfolding InstallSnapshot
    by (auto simp: log_step_def handle_def handle_install_def Let_def split_def is_leader_def
        accept_leader_simps become_follower_simps split: role.splits)
next
  case (AppendResp e j b)
  have "log_step {} r (fst (handle_append_resp r f e j b)) (snd (handle_append_resp r f e j b))"
    by (rule log_same)
       (auto simp: handle_append_resp_def Let_def become_follower_simps split: role.splits if_splits
         dest!: replicate_all_entries advance_commit_entries)
  then show ?thesis by (simp add: AppendResp handle_def)
qed

lemma log_local:
  assumes ok: "raft_ok r"
  shows "log_step (brought ev \<union> proposed r ev) r (fst (local_step r ev)) (snd (local_step r ev))"
proof (cases ev)
  case (Deliver f t m)
  then show ?thesis using log_handle [OF ok, of f t m] by simp
next
  case (Tick t)
  show ?thesis
  proof (cases "is_leader r")
    case False
    then show ?thesis
      by (auto simp: Tick tick_election_def Let_def split_def log_step_def try_win_entries(1,2) dest!: try_win_entries(3))
  qed (auto simp: Tick tick_election_def intro!: log_same)
next
  case (Beat t)
  then show ?thesis by (auto simp: heartbeat_def intro!: log_same dest!: replicate_all_entries)
next
  case (Propose t cmd)
  show ?thesis
  proof (cases "is_leader r")
    case True
    let ?q = "r\<lparr>log := log r @ [\<lparr>en_epoch = epoch r, en_seq = last_seq r + 1, en_cmd = cmd\<rparr>]\<rparr>"
    have "last_entry (fst (advance_commit ?q)) = last_entry ?q" by (simp add: last_entry_def)
    moreover have "last_seq ?q = last_seq r + 1" by (simp add: last_entry_def)
    ultimately show ?thesis
      using True unfolding Propose propose_step
      by (auto simp: log_step_def Let_def dest!: replicate_all_entries advance_commit_entries)
  next
    case False
    then show ?thesis unfolding Propose propose_step by (auto intro!: log_same)
  qed
next
  case (Compact t k)
  have l: "log_ok r" "log_ok (fst (raft_compact r k))" using ok raft_ok_compact [OF ok] by (simp_all add: raft_ok_def)
  have "set (log (fst (raft_compact r k))) \<subseteq> set (log r)"
    by (auto simp: raft_compact_def Let_def split: option.splits if_splits dest: in_set_dropD)
  moreover have "last_seq r \<le> last_seq (fst (raft_compact r k))"
    using last_seq_length [OF l(1)] last_seq_length [OF l(2)] by (auto simp: raft_compact_def Let_def split: option.splits)
  ultimately show ?thesis by (simp add: Compact log_step_def)
next
  case (Ship t p d)
  then show ?thesis by (auto simp: ship_snapshot_def split: prod.splits intro!: log_same)
next
  case (Restart t)
  then show ?thesis
    by (auto simp: restart_node_def raft_restore_def raft_new_def intro!: log_same)
qed

lemma append_follows:
  assumes "epoch r \<le> e"
  shows "role (fst (handle_append r f e p pe es k)) = Follower" and "BecameLeader \<notin> set (snd (handle_append r f e p pe es k))"
proof -
  have "role (fst (handle_append r f e p pe es k)) = Follower \<and> BecameLeader \<notin> set (snd (handle_append r f e p pe es k))"
  proof (rule handle_append_cases [OF assms, of f p pe es k])
    fix r2 pf j xs
    assume r2: "fold append_one es (fst (accept_leader r f e), None) = (r2, pf)"
      and h: "fst (handle_append r f e p pe es k) = r2\<lparr>commit := commit (fst (handle_append r f e p pe es k)),
               applied := applied (fst (handle_append r f e p pe es k))\<rparr>"
      and s: "snd (handle_append r f e p pe es k) = snd (accept_leader r f e) @ xs @ [Send f (AppendResp e j True)]"
      and xs: "BecameLeader \<notin> set xs"
    obtain L where L: "r2 = (fst (accept_leader r f e))\<lparr>log := L\<rparr>" using fold_append_log [OF r2] by blast
    obtain cc a where q: "fst (handle_append r f e p pe es k) = r2\<lparr>commit := cc, applied := a\<rparr>" using h by blast
    show ?thesis unfolding s q using xs by (simp add: L)
  qed simp
  then show "role (fst (handle_append r f e p pe es k)) = Follower"
    and "BecameLeader \<notin> set (snd (handle_append r f e p pe es k))" by simp_all
qed

lemma role_local:
  assumes "\<not> (\<exists>t. ev = Tick t \<and> \<not> is_leader r)"
    and "role (fst (local_step r ev)) = Candidate us \<or> BecameLeader \<in> set (snd (local_step r ev))"
  shows "\<exists>vs. role r = Candidate vs"
proof (cases ev)
  case (Deliver f t m)
  show ?thesis
  proof (cases m)
    case (Append e p pe es k)
    show ?thesis
    proof (cases "epoch r \<le> e")
      case True
      with append_follows [OF True] show ?thesis using assms(2) by (simp add: Deliver Append handle_def)
    qed (use assms(2) in \<open>auto simp: Deliver Append handle_def handle_append_def\<close>)
  qed (use assms(2) in \<open>auto simp: Deliver handle_def handle_vote_req_def handle_vote_resp_def handle_install_def
        handle_append_resp_def try_win_def Let_def split_def become_follower_simps split: if_splits role.splits\<close>)
qed (use assms in \<open>auto simp: tick_election_def heartbeat_def propose_def Let_def split_def
      restart_node_def raft_restore_def raft_new_def split: if_splits\<close>)


definition wins_ok :: "public_id list \<Rightarrow> cluster \<Rightarrow> bool" where
  "wins_ok G c \<longleftrightarrow>
     (\<forall>e i. (e, i) \<in> won c \<longrightarrow>
        e \<le> epoch (nodes c i) \<and> (e = epoch (nodes c i) \<longrightarrow> (\<forall>vs. role (nodes c i) \<noteq> Candidate vs)))"

definition entries_ok :: "public_id list \<Rightarrow> cluster \<Rightarrow> bool" where
  "entries_ok G c \<longleftrightarrow>
     (\<forall>x \<in> entries_of G c. \<forall>y \<in> entries_of G c. en_epoch x = en_epoch y \<longrightarrow> en_seq x = en_seq y \<longrightarrow> x = y) \<and>
     (\<forall>x \<in> entries_of G c. \<exists>j. (en_epoch x, j) \<in> won c) \<and>
     (\<forall>i \<in> set G. is_leader (nodes c i) \<longrightarrow>
        (\<forall>x \<in> entries_of G c. en_epoch x = epoch (nodes c i) \<longrightarrow> en_seq x \<le> last_seq (nodes c i)))"

lemma wins_step:
  assumes inv: "election_ok G c" and w: "wins_ok G c" and en: "enabled G c ev"
  shows "wins_ok G (perform c ev)"
proof -
  let ?t = "actor ev" and ?r = "nodes c (actor ev)"
  obtain r' acts where l: "local_step ?r ev = (r', acts)" by force
  note p = perform_simps [OF l]
  note s = step_facts(1) [OF inv en l, unfolded election_step_def]
  have ep: "epoch ?r \<le> epoch r'" using s by simp
  have c: "epoch r' = step_epoch ?r ev" "BecameLeader \<notin> set acts" if "role r' = Candidate vs" for vs using s that by simp_all
  have old: "e \<le> epoch ?r" "e = epoch ?r \<Longrightarrow> role ?r \<noteq> Candidate vs" if "(e, ?t) \<in> won c" for e vs
    using w that by (auto simp: wins_ok_def)
  have N: "e \<le> epoch r' \<and> (e = epoch r' \<longrightarrow> (\<forall>vs. role r' \<noteq> Candidate vs))" if "(e, ?t) \<in> won (perform c ev)" for e
  proof (cases "(e, ?t) \<in> won c")
    case True
    note o = old [OF True]
    have "role r' \<noteq> Candidate vs" if "e = epoch r'" for vs
    proof
      assume r: "role r' = Candidate vs"
      have e: "e = epoch ?r" using o(1) ep that by simp
      have "\<not> (\<exists>t. ev = Tick t \<and> \<not> is_leader ?r)" using c(1) [OF r] e that by auto
      from role_local [OF this, of vs] r o(2) [OF e] show False by (auto simp: l)
    qed
    with o(1) ep show ?thesis by auto
  next
    case False
    with that have "BecameLeader \<in> set acts" "e = epoch r'" by (auto simp: p split: if_splits)
    then show ?thesis using c(2) by blast
  qed
  show ?thesis unfolding wins_ok_def
  proof (intro allI impI)
    fix e i
    assume i: "(e, i) \<in> won (perform c ev)"
    show "e \<le> epoch (nodes (perform c ev) i) \<and>
        (e = epoch (nodes (perform c ev) i) \<longrightarrow> (\<forall>vs. role (nodes (perform c ev) i) \<noteq> Candidate vs))"
    proof (cases "i = ?t")
      case True
      with N i show ?thesis by (simp add: p(1))
    next
      case False
      with i have "(e, i) \<in> won c" by (auto simp: p split: if_splits)
      with w False show ?thesis by (simp add: wins_ok_def p(1))
    qed
  qed
qed

lemma entries_step_subset:
  assumes inv: "election_ok G c" and en: "enabled G c ev"
  shows "entries_of G (perform c ev) \<subseteq> entries_of G c \<union> proposed (nodes c (actor ev)) ev"
proof -
  let ?t = "actor ev" and ?r = "nodes c (actor ev)"
  obtain r' acts where l: "local_step ?r ev = (r', acts)" by force
  note p = perform_simps [OF l]
  have t: "?t \<in> set G" using en by (simp add: enabled_def)
  with inv have "raft_ok ?r" by (auto simp: election_ok_def members_ok_def)
  note s = log_local [OF this, of ev, unfolded l log_step_def fst_conv snd_conv]
  have "brought ev \<subseteq> sent_entries c"
    using en by (cases ev rule: brought.cases) (auto simp: enabled_def sent_entries_def, blast)
  with s have r': "set (log r') \<subseteq> entries_of G c \<union> proposed ?r ev" using t by (auto simp: entries_of_def)
  moreover have "sent_entries (perform c ev) \<subseteq> sent_entries c \<union> set (log r')"
    using s by (fastforce simp: sent_entries_def p)
  moreover have "(\<Union>i \<in> set G. set (log (nodes (perform c ev) i))) \<subseteq> set (log r') \<union> entries_of G c"
    by (auto simp: p entries_of_def split: if_splits)
  moreover have "sent_entries c \<subseteq> entries_of G c" by (auto simp: entries_of_def)
  ultimately show ?thesis unfolding entries_of_def [of G "perform c ev"] by blast
qed


lemma proposed_end:
  assumes "x \<in> proposed r ev"
  shows "is_leader r \<and> en_epoch x = epoch r \<and> en_seq x = last_seq r + 1
      \<and> epoch (fst (local_step r ev)) = epoch r \<and> last_seq (fst (local_step r ev)) = last_seq r + 1 \<and> proposed r ev = {x}"
proof (cases ev)
  case (Propose t cmd)
  let ?q = "r\<lparr>log := log r @ [\<lparr>en_epoch = epoch r, en_seq = last_seq r + 1, en_cmd = cmd\<rparr>]\<rparr>"
  have "last_seq (fst (advance_commit ?q)) = last_seq r + 1" by (simp add: last_entry_def)
  with assms show ?thesis unfolding Propose propose_step by (auto simp: Let_def split: if_splits)
qed (use assms in auto)

text \<open>Once a step has won an epoch, no entry of that epoch was there before it.\<close>

lemma fresh_epoch:
  assumes inv: "election_ok G c" and inv': "election_ok G (perform c ev)" and w: "wins_ok G c" and e: "entries_ok G c"
    and en: "enabled G c ev" and l: "local_step (nodes c (actor ev)) ev = (r', acts)"
    and b: "BecameLeader \<in> set acts" and x: "x \<in> entries_of G c"
  shows "en_epoch x \<noteq> epoch r'" and "proposed (nodes c (actor ev)) ev = {}"
proof -
  let ?t = "actor ev" and ?r = "nodes c (actor ev)"
  note p = perform_simps [OF l]
  note s = step_facts(1) [OF inv en l, unfolded election_step_def]
  have role: "(\<exists>t. ev = Tick t \<and> \<not> is_leader ?r) \<or> (\<exists>vs. role ?r = Candidate vs)"
    using role_local [of ev ?r] b by (auto simp: l)
  then show "proposed ?r ev = {}" by (cases ev) (auto simp: is_leader_def)
  show "en_epoch x \<noteq> epoch r'"
  proof
    assume x': "en_epoch x = epoch r'"
    from e x obtain j where j: "(epoch r', j) \<in> won c" unfolding entries_ok_def x' [symmetric] by blast
    then have "(epoch r', j) \<in> won (perform c ev)" "(epoch r', ?t) \<in> won (perform c ev)" using b by (simp_all add: p)
    then have "j = ?t" using winner_unique [OF inv'] by blast
    with j w have "epoch r' \<le> epoch ?r" "epoch r' = epoch ?r \<Longrightarrow> role ?r \<noteq> Candidate vs" for vs
      by (auto simp: wins_ok_def)
    moreover have "epoch r' = step_epoch ?r ev" "epoch ?r \<le> epoch r'" using s b by simp_all
    ultimately show False using role by auto
  qed
qed

lemma entries_step:
  assumes inv: "election_ok G c" and inv': "election_ok G (perform c ev)" and w: "wins_ok G c" and e: "entries_ok G c"
    and en: "enabled G c ev"
  shows "entries_ok G (perform c ev)"
proof -
  let ?t = "actor ev" and ?r = "nodes c (actor ev)" and ?E = "entries_of G c" and ?E' = "entries_of G (perform c ev)"
  obtain r' acts where l: "local_step ?r ev = (r', acts)" by force
  note p = perform_simps [OF l]
  note s = step_facts(1) [OF inv en l, unfolded election_step_def]
  note fresh = fresh_epoch [OF inv inv' w e en l]
  have t: "?t \<in> set G" using en by (simp add: enabled_def)
  with inv have rok: "raft_ok ?r" by (auto simp: election_ok_def members_ok_def)
  have ls: "last_seq ?r \<le> last_seq r'" if "is_leader r'"
    using log_local [OF rok, of ev] that by (simp add: l log_step_def)
  have new: "x \<in> ?E \<or> (x \<in> proposed ?r ev \<and> is_leader ?r \<and> en_epoch x = epoch ?r \<and> en_seq x = last_seq ?r + 1
      \<and> epoch r' = epoch ?r \<and> last_seq r' = last_seq ?r + 1 \<and> proposed ?r ev = {x})" if "x \<in> ?E'" for x
    using that entries_step_subset [OF inv en] l proposed_end [of x ?r ev] by auto
  have top: "en_seq x \<le> last_seq ?r" if "x \<in> ?E" "is_leader ?r" "en_epoch x = epoch ?r" for x
    using e t that by (auto simp: entries_ok_def)
  have same: "x = y" if "x \<in> ?E" "y \<in> ?E" "en_epoch x = en_epoch y" "en_seq x = en_seq y" for x y
    using e that unfolding entries_ok_def by blast
  have apart: "\<not> (en_epoch x = en_epoch y \<and> en_seq x = en_seq y)" if "x \<in> ?E" "y \<in> ?E'" "y \<notin> ?E" for x y
    using new [OF that(2)] that(3) top [OF that(1)] by fastforce
  have A: "x = y" if a: "x \<in> ?E'" "y \<in> ?E'" "en_epoch x = en_epoch y" "en_seq x = en_seq y" for x y
  proof (cases "x \<in> ?E"; cases "y \<in> ?E")
    assume "x \<notin> ?E" "y \<notin> ?E"
    with new [OF a(1)] new [OF a(2)] have "proposed ?r ev = {x}" "y \<in> proposed ?r ev" by blast+
    then show ?thesis by simp
  qed (use same [OF _ _ a(3,4)] apart [of x y] apart [of y x] a in metis)+
  have lead: "(epoch ?r, ?t) \<in> won c" if "is_leader ?r"
    using inv t that by (auto simp: election_ok_def leaders_ok_def)
  have B: "\<exists>j. (en_epoch x, j) \<in> won (perform c ev)" if "x \<in> ?E'" for x
  proof (cases "x \<in> ?E")
    case True
    with e obtain j where "(en_epoch x, j) \<in> won c" unfolding entries_ok_def by blast
    then show ?thesis by (auto simp: p)
  next
    case False
    with new [OF that] lead show ?thesis by (auto simp: p)
  qed
  have C: "en_seq x \<le> last_seq (nodes (perform c ev) i)"
    if i: "i \<in> set G" "is_leader (nodes (perform c ev) i)" "x \<in> ?E'" "en_epoch x = epoch (nodes (perform c ev) i)" for i x
  proof (cases "i = ?t")
    case True
    show ?thesis
    proof (cases "BecameLeader \<in> set acts")
      case True
      with new [OF i(3)] fresh i \<open>i = ?t\<close> show ?thesis by (auto simp: p)
    next
      case False
      with s i \<open>i = ?t\<close> have "is_leader ?r" "epoch r' = epoch ?r" by (auto simp: p)
      with new [OF i(3)] top [of x] ls i \<open>i = ?t\<close> show ?thesis by (auto simp: p)
    qed
  next
    case False
    then have n: "nodes (perform c ev) i = nodes c i" by (simp add: p)
    have "x \<in> ?E"
    proof (rule ccontr)
      assume "x \<notin> ?E"
      with new [OF i(3)] have "is_leader ?r" "en_epoch x = epoch ?r" by auto
      with i n lead have "(epoch ?r, ?t) \<in> won c" "(epoch ?r, i) \<in> won c"
        using inv by (auto simp: election_ok_def leaders_ok_def)
      with winner_unique [OF inv] False show False by blast
    qed
    with e i n show ?thesis by (auto simp: entries_ok_def)
  qed
  show ?thesis unfolding entries_ok_def using A B C by blast
qed


lemma reach_entries:
  assumes "reach G c" and "distinct G"
  shows "wins_ok G c \<and> entries_ok G c"
  using assms(1)
proof induction
  case init
  have "log (raft_new i G) = []" "role (raft_new i G) = Follower" for i by (simp_all add: raft_new_def)
  then show ?case
    by (simp add: wins_ok_def entries_ok_def entries_of_def sent_entries_def cluster_new_def)
next
  case (step c ev)
  note ok = reach_election [OF step.hyps(1) assms(2)]
    reach_election [OF reach.step [OF step.hyps(1,2)] assms(2)]
  from step.IH step.hyps(2) wins_step [OF ok(1)] entries_step [OF ok] show ?case by blast
qed

text \<open>
  C20: an entry is determined by its epoch and sequence number.  In every
  reachable state two entries with the same epoch and number, in the logs of any
  two members or under way in an append, are the same entry; and the epoch of
  every entry was won by some member.
\<close>

theorem entry_identity:
  assumes "reach G c" and "distinct G" and "x \<in> entries_of G c" and "y \<in> entries_of G c"
    and "en_epoch x = en_epoch y" and "en_seq x = en_seq y"
  shows "x = y \<and> (\<exists>j. (en_epoch x, j) \<in> won c)"
  using reach_entries [OF assms(1,2)] assms(3-6) unfolding entries_ok_def by blast

lemma two_copies:
  "map_option (\<lambda>(ns, ms, hs). map (\<lambda>i. map_option (\<lambda>r. map (\<lambda>e. (en_epoch e, en_seq e)) (log r)) (map_of ns i)) [[1], [2]])
     (table_run trio trio_start (take 4 unsafe_run @
        [Deliver [1] [2] (Append 1 0 0 [\<lparr>en_epoch = 1, en_seq = 1, en_cmd = [10]\<rparr>] 0)]))
   = Some [Some [(1, 1)], Some [(1, 1)]]"
  by code_simp

theorem entry_identity_witness:
  "\<exists>c x y. reach trio c \<and> distinct trio \<and> x \<in> set (log (nodes c [1])) \<and> y \<in> set (log (nodes c [2]))
     \<and> en_epoch x = 1 \<and> en_epoch y = 1 \<and> en_seq x = 1 \<and> en_seq y = 1 \<and> x = y"
proof -
  obtain ns ms hs r q where run: "table_run trio trio_start (take 4 unsafe_run @
        [Deliver [1] [2] (Append 1 0 0 [\<lparr>en_epoch = 1, en_seq = 1, en_cmd = [10]\<rparr>] 0)]) = Some (ns, ms, hs)"
    and r: "map_of ns [1] = Some r" "map (\<lambda>e. (en_epoch e, en_seq e)) (log r) = [(1, 1)]"
    and q: "map_of ns [2] = Some q" "map (\<lambda>e. (en_epoch e, en_seq e)) (log q) = [(1, 1)]"
    using two_copies by (auto simp: map_option_eq_Some)
  from trio_run [OF run] obtain c where c: "reach trio c" and n: "nodes c [1] = r" "nodes c [2] = q"
    using r(1) q(1) by (auto simp: tabulates_def)
  from r(2) q(2) obtain x y where x: "x \<in> set (log (nodes c [1]))" "en_epoch x = 1" "en_seq x = 1"
    and y: "y \<in> set (log (nodes c [2]))" "en_epoch y = 1" "en_seq y = 1"
    unfolding n by (auto simp: map_eq_Cons_conv)
  have d: "distinct trio" by (simp add: trio_def)
  have m: "x \<in> entries_of trio c" "y \<in> entries_of trio c" using x(1) y(1) by (auto simp: entries_of_def trio_def)
  from entry_identity [OF c d m] x y have "x = y" by simp
  with c d x y show ?thesis by blast
qed

end
