(* ===== verification/Rf_Net.thy ===== *)
theory Rf_Net
  imports Rf_Str
begin

text \<open>
  Internet addresses as the Rust standard library has them: the address type,
  the parser behind \<open>str::parse::<IpAddr>\<close> and prefix masks.
\<close>

unbundle bit_operations_syntax

datatype ip_addr = V4 u32 | V6 u128

section \<open>Parsing\<close>

definition to_digit :: "int \<Rightarrow> char \<Rightarrow> int option" where
  "to_digit radix c = (case hex_val c of Some n \<Rightarrow> if int n < radix then Some (int n) else None | None \<Rightarrow> None)"

text \<open>
  \<open>read_number\<close>: the longest run of digits, refused when it is empty, longer than
  \<open>max_digits\<close>, zero-prefixed where that is not allowed, or not below \<open>lim\<close>.
\<close>

definition read_number :: "int \<Rightarrow> nat \<Rightarrow> bool \<Rightarrow> int \<Rightarrow> string \<Rightarrow> (int \<times> string) option" where
  "read_number radix max_digits allow_zero_prefix lim s =
     (let ds = takeWhile (\<lambda>c. to_digit radix c \<noteq> None) s;
          v = foldl (\<lambda>n c. radix * n + (case to_digit radix c of Some d \<Rightarrow> d | None \<Rightarrow> 0)) 0 ds
      in if max_digits < length ds \<or> ds = [] \<or> (\<not> allow_zero_prefix \<and> hd ds = CHR ''0'' \<and> 1 < length ds) \<or> lim \<le> v
         then None
         else Some (v, drop (length ds) s))"

definition read_separator :: "char \<Rightarrow> nat \<Rightarrow> (string \<Rightarrow> 'a option) \<Rightarrow> string \<Rightarrow> 'a option" where
  "read_separator sep i inner s =
     (if i = 0 then inner s else case s of [] \<Rightarrow> None | c # r \<Rightarrow> if c = sep then inner r else None)"

fun read_octets :: "nat \<Rightarrow> nat \<Rightarrow> string \<Rightarrow> (int list \<times> string) option" where
  "read_octets 0 i s = Some ([], s)"
| "read_octets (Suc k) i s =
     (case read_separator (CHR ''.'') i (read_number 10 3 False 256) s of
        None \<Rightarrow> None
      | Some (n, r) \<Rightarrow> map_option (\<lambda>(ns, r'). (n # ns, r')) (read_octets k (Suc i) r))"

text \<open>
  The groups of an IPv6 address; while at least two are left, a trailing IPv4
  address stands for two.  The flag says whether it did.
\<close>

fun read_groups :: "nat \<Rightarrow> nat \<Rightarrow> string \<Rightarrow> int list \<times> bool \<times> string" where
  "read_groups 0 i s = ([], False, s)"
| "read_groups (Suc k) i s =
     (case (if k = 0 then None else read_separator (CHR '':'') i (read_octets 4 0) s) of
        Some (os, r) \<Rightarrow> ([256 * os ! 0 + os ! 1, 256 * os ! 2 + os ! 3], True, r)
      | None \<Rightarrow>
          (case read_separator (CHR '':'') i (read_number 16 4 True 65536) s of
             None \<Rightarrow> ([], False, s)
           | Some (g, r) \<Rightarrow> (case read_groups k (Suc i) r of (gs, v4, r') \<Rightarrow> (g # gs, v4, r'))))"

definition of_digits :: "int \<Rightarrow> int list \<Rightarrow> 'a::len word" where
  "of_digits b ns = word_of_int (foldl (\<lambda>a d. b * a + d) 0 ns)"

definition read_ipv6 :: "string \<Rightarrow> (int list \<times> string) option" where
  "read_ipv6 s =
     (case read_groups 8 0 s of (head, v4, r) \<Rightarrow>
        if length head = 8 then Some (head, r)
        else if v4 then None
        else case strip_prefix r ''::'' of
          None \<Rightarrow> None
        | Some r1 \<Rightarrow>
            (case read_groups (8 - (length head + 1)) 0 r1 of (tail, _, r2) \<Rightarrow>
               Some (head @ replicate (8 - length head - length tail) 0 @ tail, r2)))"

definition parse_ip :: "string \<Rightarrow> ip_addr option" where
  "parse_ip s =
     (case read_octets 4 0 s of
        Some (os, r) \<Rightarrow> if r = [] then Some (V4 (of_digits 256 os)) else None
      | None \<Rightarrow>
          (case read_ipv6 s of
             Some (gs, r) \<Rightarrow> if r = [] then Some (V6 (of_digits 65536 gs)) else None
           | None \<Rightarrow> None))"

lemma parse_ip_examples:
  "parse_ip ''10.1.2.3'' = Some (V4 0x0A010203)" "parse_ip ''10.01.2.3'' = None"
  "parse_ip ''2001:db8::1'' = Some (V6 0x20010db8000000000000000000000001)" "parse_ip ''1.2.3.4::'' = None"
  by code_simp+

section \<open>Prefixes\<close>

definition prefix_mask :: "nat \<Rightarrow> 'a::len word" where
  "prefix_mask p = (if p = 0 then 0 else push_bit (LENGTH('a) - p) (- 1))"

lemma bit_prefix_mask: "p \<le> LENGTH('a) \<Longrightarrow> bit (prefix_mask p :: 'a::len word) n \<longleftrightarrow> LENGTH('a) - p \<le> n \<and> n < LENGTH('a)"
  by (auto simp: prefix_mask_def bit_simps)

text \<open>Two words agree under a prefix mask exactly when their top bits agree.\<close>

lemma prefix_mask_eq_iff:
  fixes a b :: "'a::len word"
  assumes "p \<le> LENGTH('a)"
  shows "a AND prefix_mask p = b AND prefix_mask p \<longleftrightarrow> (\<forall>n. LENGTH('a) - p \<le> n \<and> n < LENGTH('a) \<longrightarrow> bit a n = bit b n)"
  using assms by (auto simp: bit_eq_iff bit_and_iff bit_prefix_mask)

lemma prefix_mask_idem: "(a AND prefix_mask p) AND prefix_mask p = a AND prefix_mask p"
  by (simp add: and.assoc)

end
