(* ===== verification/Exit_Rules.thy ===== *)
theory Exit_Rules
  imports Rf_Net Rf_Map Identity
begin

text \<open>
  Split-routing rules, the first half of \<^verbatim>\<open>crates/rf/src/exit.rs\<close>: the rule
  record and its validation, the compiler for Surge and Clash rule files with
  signed rule-set snapshots, the indexed matcher, its cache, and the decision for
  a host.

  The recursion through \<open>RULE-SET\<close> snapshots has no bound in the code.  The
  compiler here takes the depth of calls it may use; \<open>None\<close> means that it needs
  more.  Sizes are compared as integers.
\<close>

section \<open>Rule records\<close>

datatype rule_format = AutoFormat | Surge | Clash

datatype exit_target = ExitDirect | ExitReject | ExitNearest | ExitNode string

record exit_rule_spec =
  er_schema :: nat
  er_description :: string
  er_enabled :: bool
  er_priority :: int
  er_format :: rule_format
  er_config :: string
  er_providers :: "(string, string) btree_map"
  er_policy_exits :: "(string, exit_target) btree_map"

datatype exit_error =
    UnsupportedRule | BadDescription | ConfigTooLong | TooManyProviders | BadProvider string
  | ProviderTooLong string | ProvidersTooLong | TooManyPolicies | BadPolicyName | BadExitNode string
  | UnboundPolicy string | TooManyRules | NoRulesSection | BareRule | NoPolicy | NoSnapshot string
  | BadKeyword | BadHost string | BadCidr

definition nul :: char where "nul = CHR 0x00"
definition newline :: char where "newline = CHR 0x0A"
definition carriage :: char where "carriage = CHR 0x0D"

abbreviation str_len :: "string \<Rightarrow> int" where
  "str_len s \<equiv> int (length s)"

definition valid_provider_name :: "string \<Rightarrow> bool" where
  "valid_provider_name value =
     (case strip_prefix value ''geoip:'' of
        Some cc \<Rightarrow> length cc = 2 \<and> list_all is_ascii_alphabetic cc
      | None \<Rightarrow>
          starts_with value ''https://'' \<and> str_len value \<le> 2048 \<and>
          \<not> list_ex (\<lambda>c. c \<in> set [carriage, newline, nul, CHR '' '']) value)"

section \<open>Addresses\<close>

datatype ip_cidr = IpCidr (cidr_network: ip_addr) (cidr_prefix: nat)

definition mask_ip :: "ip_addr \<Rightarrow> nat \<Rightarrow> ip_addr" where
  "mask_ip address p =
     (case address of V4 bits \<Rightarrow> V4 (bits AND prefix_mask p) | V6 bits \<Rightarrow> V6 (bits AND prefix_mask p))"

definition ip_width :: "ip_addr \<Rightarrow> nat" where
  "ip_width address = (case address of V4 _ \<Rightarrow> 32 | V6 _ \<Rightarrow> 128)"

definition cidr_parse :: "string \<Rightarrow> exit_error + ip_cidr" where
  "cidr_parse value =
     (case split_once (CHR ''/'') value of
        None \<Rightarrow> Inl BadCidr
      | Some (address, p) \<Rightarrow>
          (case parse_ip address of
             None \<Rightarrow> Inl BadCidr
           | Some ip \<Rightarrow>
               (case parse_uint 256 p of
                  None \<Rightarrow> Inl BadCidr
                | Some n \<Rightarrow> if ip_width ip < n then Inl BadCidr else Inr (IpCidr (mask_ip ip n) n))))"

definition cidr_contains :: "ip_cidr \<Rightarrow> ip_addr \<Rightarrow> bool" where
  "cidr_contains cidr address =
     ((case (cidr_network cidr, address) of (V4 _, V4 _) \<Rightarrow> True | (V6 _, V6 _) \<Rightarrow> True | _ \<Rightarrow> False)
      \<and> mask_ip address (cidr_prefix cidr) = cidr_network cidr)"

section \<open>Lines\<close>

fun comment_start :: "char option \<Rightarrow> string \<Rightarrow> nat option" where
  "comment_start prev (a # b # s) =
     (if a = CHR ''/'' \<and> b = CHR ''/'' \<and> prev \<noteq> Some (CHR '':'') then Some 0
      else map_option Suc (comment_start (Some a) (b # s)))"
| "comment_start prev s = None"

definition strip_comment :: "string \<Rightarrow> string" where
  "strip_comment value =
     (let cut = (case comment_start None value of Some i \<Rightarrow> take i value | None \<Rightarrow> value)
      in takeWhile (\<lambda>c. c \<noteq> CHR ''#'') cut)"

definition normalized_line :: "string \<Rightarrow> bool \<Rightarrow> string option" where
  "normalized_line raw clash =
     (let line = trim (strip_comment raw) in
      if line = [] then None
      else if clash then
        (case strip_prefix (trim line) ''- '' of
           None \<Rightarrow> None
         | Some item \<Rightarrow>
             (let l = trim_matches [CHR 0x27, CHR 0x22] (trim item) in if l = [] then None else Some l))
      else Some line)"

definition indent_of :: "string \<Rightarrow> nat" where
  "indent_of raw = length raw - length (trim_start raw)"

fun clash_scan :: "nat option \<Rightarrow> string list \<Rightarrow> nat option \<times> string list" where
  "clash_scan sec [] = (sec, [])"
| "clash_scan sec (raw # rest) =
     (let trimmed = trim (strip_comment raw) in
      if trimmed = [] then clash_scan sec rest
      else case sec of
        None \<Rightarrow>
          clash_scan (if trimmed = ''rules:'' \<or> trimmed = ''payload:'' then Some (indent_of raw) else None) rest
      | Some k \<Rightarrow>
          if indent_of raw \<le> k \<and> \<not> starts_with trimmed ''-'' \<and> ends_with trimmed '':'' then (sec, [])
          else case strip_prefix trimmed ''-'' of
            None \<Rightarrow> clash_scan sec rest
          | Some item0 \<Rightarrow>
              (let item = trim (trim_matches [CHR 0x27, CHR 0x22] (trim item0))
               in case clash_scan sec rest of (s, out) \<Rightarrow> (s, if item = [] then out else item # out)))"

definition clash_rule_lines :: "string \<Rightarrow> exit_error + string list" where
  "clash_rule_lines config =
     (case clash_scan None (lines config) of (None, _) \<Rightarrow> Inl NoRulesSection | (Some _, out) \<Rightarrow> Inr out)"

section \<open>The compiler\<close>

datatype rule_matcher =
    Domain string
  | DomainSuffix string
  | DomainKeyword string
  | IpRange ip_cidr
  | MatchAll

record compiled_rule =
  cr_matcher :: rule_matcher
  cr_policy :: string

definition normalize_host :: "string \<Rightarrow> exit_error + string" where
  "normalize_host value =
     (let host = to_ascii_lowercase (trim_end_matches ''.'' (trim value)) in
      if host = [] \<or> length host > 253 \<or> starts_with host ''.'' \<or> ends_with host ''.''
         \<or> list_ex (\<lambda>c. \<not> (is_ascii_alphanumeric c \<or> c \<in> set ''.-_'')) host
      then Inl (BadHost value) else Inr host)"

definition one_rule :: "rule_matcher \<Rightarrow> string \<Rightarrow> exit_error + compiled_rule list" where
  "one_rule mt policy = Inr [\<lparr>cr_matcher = mt, cr_policy = policy\<rparr>]"

text \<open>A line without a comma.\<close>

definition bare_rule :: "string \<Rightarrow> string option \<Rightarrow> exit_error + compiled_rule list" where
  "bare_rule line inherited =
     (case inherited of
        None \<Rightarrow> Inl BareRule
      | Some policy \<Rightarrow>
          (case cidr_parse line of
             Inr cidr \<Rightarrow> one_rule (IpRange cidr) policy
           | Inl _ \<Rightarrow>
               (case (case strip_prefix line ''+.'' of Some s \<Rightarrow> Some s | None \<Rightarrow> strip_prefix line ''.'') of
                  Some s \<Rightarrow> (case normalize_host s of Inl e \<Rightarrow> Inl e | Inr h \<Rightarrow> one_rule (DomainSuffix h) policy)
                | None \<Rightarrow> (case normalize_host line of Inl e \<Rightarrow> Inl e | Inr h \<Rightarrow> one_rule (Domain h) policy))))"

definition nth_or_empty :: "string list \<Rightarrow> nat \<Rightarrow> string" where
  "nth_or_empty parts i = (if i < length parts then parts ! i else [])"

definition rule_policy :: "string list \<Rightarrow> string option \<Rightarrow> string" where
  "rule_policy parts inherited =
     (case find (\<lambda>p. p \<noteq> [] \<and> \<not> eq_ignore_ascii_case p ''no-resolve'') (drop 2 parts) of
        Some p \<Rightarrow> p
      | None \<Rightarrow> (case inherited of Some p \<Rightarrow> p | None \<Rightarrow> []))"

definition provider_lines :: "string \<Rightarrow> exit_error + string list" where
  "provider_lines content =
     (if list_ex (\<lambda>l. trim l = ''payload:'') (lines content) then clash_rule_lines content
      else Inr (filter (\<lambda>l. l \<noteq> []) (map (\<lambda>raw. trim (strip_comment raw)) (lines content))))"

fun geoip_rules :: "string \<Rightarrow> string list \<Rightarrow> exit_error + compiled_rule list" where
  "geoip_rules policy [] = Inr []"
| "geoip_rules policy (raw # rest) =
     (let cidr = trim (strip_comment raw) in
      if cidr = [] then geoip_rules policy rest
      else case cidr_parse cidr of
        Inl e \<Rightarrow> Inl e
      | Inr c \<Rightarrow>
          (case geoip_rules policy rest of
             Inl e \<Rightarrow> Inl e
           | Inr rs \<Rightarrow> Inr (\<lparr>cr_matcher = IpRange c, cr_policy = policy\<rparr> # rs)))"

text \<open>The kinds of rule that stand for themselves; others are skipped.\<close>

definition plain_rule :: "string \<Rightarrow> string \<Rightarrow> string \<Rightarrow> exit_error + compiled_rule list" where
  "plain_rule kind value policy =
     (if policy = [] then Inl NoPolicy
      else if kind = ''DOMAIN'' then
        (case normalize_host value of Inl e \<Rightarrow> Inl e | Inr h \<Rightarrow> one_rule (Domain h) policy)
      else if kind = ''DOMAIN-SUFFIX'' then
        (case normalize_host value of Inl e \<Rightarrow> Inl e | Inr h \<Rightarrow> one_rule (DomainSuffix h) policy)
      else if kind = ''DOMAIN-KEYWORD'' then
        (if value = [] \<or> length value > 253 then Inl BadKeyword
         else one_rule (DomainKeyword (to_ascii_lowercase value)) policy)
      else if kind = ''IP-CIDR'' \<or> kind = ''IP-CIDR6'' then
        (case cidr_parse value of Inl e \<Rightarrow> Inl e | Inr c \<Rightarrow> one_rule (IpRange c) policy)
      else Inr [])"

fun parse_all :: "(string \<Rightarrow> (exit_error + compiled_rule list) option) \<Rightarrow> string list
    \<Rightarrow> (exit_error + compiled_rule list) option" where
  "parse_all f [] = Some (Inr [])"
| "parse_all f (l # ls) =
     (case f l of
        None \<Rightarrow> None
      | Some (Inl e) \<Rightarrow> Some (Inl e)
      | Some (Inr rs) \<Rightarrow>
          (case parse_all f ls of
             None \<Rightarrow> None
           | Some (Inl e) \<Rightarrow> Some (Inl e)
           | Some (Inr ss) \<Rightarrow> Some (Inr (rs @ ss))))"

fun parse_rule_line ::
  "nat \<Rightarrow> exit_rule_spec \<Rightarrow> string option \<Rightarrow> string \<Rightarrow> (exit_error + compiled_rule list) option" where
  "parse_rule_line 0 spec inherited line = None"
| "parse_rule_line (Suc depth) spec inherited line =
     (if CHR '','' \<notin> set line then Some (bare_rule line inherited)
      else
        (let parts = map trim (split (CHR '','') line);
             kind = to_ascii_uppercase (nth_or_empty parts 0);
             value = nth_or_empty parts 1;
             policy = rule_policy parts inherited
         in if kind = ''RULE-SET'' then
              (if policy = [] then Some (Inl NoPolicy)
               else case map_of (er_providers spec) value of
                 None \<Rightarrow> Some (Inl (NoSnapshot value))
               | Some content \<Rightarrow>
                   (case provider_lines content of
                      Inl e \<Rightarrow> Some (Inl e)
                    | Inr ls \<Rightarrow> parse_all (parse_rule_line depth spec (Some policy)) ls))
            else if kind = ''GEOIP'' then
              Some (if policy = [] then Inl NoPolicy
               else case map_of (er_providers spec) (''geoip:'' @ to_ascii_uppercase value) of
                 None \<Rightarrow> Inl (NoSnapshot (''geoip:'' @ to_ascii_uppercase value))
               | Some content \<Rightarrow> geoip_rules policy (lines content))
            else if kind = ''FINAL'' \<or> kind = ''MATCH'' then
              Some (if value = [] then Inl NoPolicy else one_rule MatchAll value)
            else Some (plain_rule kind value policy)))"

definition is_clash :: "exit_rule_spec \<Rightarrow> bool" where
  "is_clash spec =
     (er_format spec = Clash \<or>
      (er_format spec = AutoFormat \<and>
       (contains_str (er_config spec) ''payload:'' \<or> contains_str (er_config spec) (newline # ''rules:'')
        \<or> starts_with (trim_start (er_config spec)) ''rules:'')))"

definition config_lines :: "exit_rule_spec \<Rightarrow> exit_error + string list" where
  "config_lines spec =
     (if is_clash spec then clash_rule_lines (er_config spec)
      else Inr (List.map_filter (\<lambda>raw. normalized_line raw False) (lines (er_config spec))))"

definition compile :: "nat \<Rightarrow> exit_rule_spec \<Rightarrow> (exit_error + compiled_rule list) option" where
  "compile depth spec =
     (case config_lines spec of
        Inl e \<Rightarrow> Some (Inl e)
      | Inr ls \<Rightarrow>
          (case parse_all (parse_rule_line depth spec None) ls of
             None \<Rightarrow> None
           | Some (Inl e) \<Rightarrow> Some (Inl e)
           | Some (Inr rules) \<Rightarrow> Some (if int (length rules) > 200000 then Inl TooManyRules else Inr rules)))"

section \<open>Validation\<close>

definition is_builtin_policy :: "string \<Rightarrow> bool" where
  "is_builtin_policy policy =
     (to_ascii_uppercase policy = ''DIRECT'' \<or> to_ascii_uppercase policy = ''REJECT''
      \<or> starts_with (to_ascii_uppercase policy) ''REJECT-'')"

fun check_providers :: "(string \<times> string) list \<Rightarrow> int \<Rightarrow> exit_error + int" where
  "check_providers [] acc = Inr acc"
| "check_providers ((source, content) # rest) acc =
     (if \<not> valid_provider_name source then Inl (BadProvider source)
      else if str_len content > 2 * 1024 * 1024 \<or> nul \<in> set content then Inl (ProviderTooLong source)
      else check_providers rest (acc + str_len content))"

fun check_policy_exits :: "(string \<times> exit_target) list \<Rightarrow> exit_error + unit" where
  "check_policy_exits [] = Inr ()"
| "check_policy_exits ((policy, target) # rest) =
     (if trim policy = [] \<or> length policy > 200 \<or> list_ex (\<lambda>c. c \<in> set [carriage, newline, nul]) policy
      then Inl BadPolicyName
      else case target of
        ExitNode node_id \<Rightarrow>
          if public_id_parse node_id = None then Inl (BadExitNode node_id) else check_policy_exits rest
      | _ \<Rightarrow> check_policy_exits rest)"

fun check_bound :: "exit_rule_spec \<Rightarrow> compiled_rule list \<Rightarrow> exit_error + unit" where
  "check_bound spec [] = Inr ()"
| "check_bound spec (r # rs) =
     (if \<not> is_builtin_policy (cr_policy r) \<and> map_of (er_policy_exits spec) (cr_policy r) = None
      then Inl (UnboundPolicy (cr_policy r)) else check_bound spec rs)"

definition rule_validate :: "nat \<Rightarrow> exit_rule_spec \<Rightarrow> (exit_error + unit) option" where
  "rule_validate depth spec =
     (if er_schema spec \<noteq> 1 then Some (Inl UnsupportedRule)
      else if str_len (er_description spec) > 1000 \<or> list_ex (\<lambda>c. c \<in> set [carriage, nul]) (er_description spec)
      then Some (Inl BadDescription)
      else if str_len (er_config spec) > 200000 \<or> nul \<in> set (er_config spec) then Some (Inl ConfigTooLong)
      else if length (er_providers spec) > 64 then Some (Inl TooManyProviders)
      else case check_providers (er_providers spec) 0 of
        Inl e \<Rightarrow> Some (Inl e)
      | Inr acc \<Rightarrow>
          if acc > 8 * 1024 * 1024 then Some (Inl ProvidersTooLong)
          else if length (er_policy_exits spec) > 256 then Some (Inl TooManyPolicies)
          else case check_policy_exits (er_policy_exits spec) of
            Inl e \<Rightarrow> Some (Inl e)
          | Inr _ \<Rightarrow>
              (case compile depth spec of
                 None \<Rightarrow> None
               | Some (Inl e) \<Rightarrow> Some (Inl e)
               | Some (Inr rules) \<Rightarrow> Some (check_bound spec rules)))"

fun distinct_policies :: "string list \<Rightarrow> compiled_rule list \<Rightarrow> string list" where
  "distinct_policies seen [] = []"
| "distinct_policies seen (r # rs) =
     (if is_builtin_policy (cr_policy r) \<or> cr_policy r \<in> set seen then distinct_policies seen rs
      else cr_policy r # distinct_policies (cr_policy r # seen) rs)"

definition extract_policies :: "nat \<Rightarrow> exit_rule_spec \<Rightarrow> (exit_error + string list) option" where
  "extract_policies depth spec =
     (case compile depth spec of
        None \<Rightarrow> None
      | Some (Inl e) \<Rightarrow> Some (Inl e)
      | Some (Inr rules) \<Rightarrow> Some (Inr (distinct_policies [] rules)))"

section \<open>The indexed matcher\<close>

type_synonym rule_ref = "nat \<times> string"   \<comment> \<open>position and policy\<close>

record indexed_matcher =
  im_count :: nat
  im_exact :: "(string, rule_ref) hash_map"
  im_suffix :: "(string, rule_ref) hash_map"
  im_keywords :: "(string \<times> rule_ref) list"
  im_cidrs :: "(ip_cidr \<times> rule_ref) list"
  im_match_all :: "rule_ref option"

definition or_insert :: "'k \<Rightarrow> 'v \<Rightarrow> ('k, 'v) hash_map \<Rightarrow> ('k, 'v) hash_map" where
  "or_insert k v m = (case map_of m k of None \<Rightarrow> hm_insert k v m | Some _ \<Rightarrow> m)"

definition index_rule :: "indexed_matcher \<Rightarrow> nat \<times> compiled_rule \<Rightarrow> indexed_matcher" where
  "index_rule im = (\<lambda>(i, rule).
     (let r = (i, cr_policy rule) in
      case cr_matcher rule of
        Domain d \<Rightarrow> im\<lparr>im_exact := or_insert d r (im_exact im)\<rparr>
      | DomainSuffix s \<Rightarrow> im\<lparr>im_suffix := or_insert s r (im_suffix im)\<rparr>
      | DomainKeyword k \<Rightarrow> im\<lparr>im_keywords := im_keywords im @ [(k, r)]\<rparr>
      | IpRange c \<Rightarrow> im\<lparr>im_cidrs := im_cidrs im @ [(c, r)]\<rparr>
      | MatchAll \<Rightarrow> if im_match_all im = None then im\<lparr>im_match_all := Some r\<rparr> else im))"

definition matcher_build :: "compiled_rule list \<Rightarrow> indexed_matcher" where
  "matcher_build rules =
     foldl index_rule
       \<lparr>im_count = length rules, im_exact = [], im_suffix = [], im_keywords = [], im_cidrs = [], im_match_all = None\<rparr>
       (enumerate 0 rules)"

definition consider_ref :: "rule_ref option \<Rightarrow> rule_ref option \<Rightarrow> rule_ref option" where
  "consider_ref best cand =
     (case cand of
        None \<Rightarrow> best
      | Some c \<Rightarrow> (case best of None \<Rightarrow> Some c | Some b \<Rightarrow> if fst c < fst b then Some c else best))"

function suffix_scan :: "(string, rule_ref) hash_map \<Rightarrow> string \<Rightarrow> rule_ref option \<Rightarrow> rule_ref option" where
  "suffix_scan m s best =
     (let best1 = consider_ref best (map_of m s) in
      case split_once (CHR ''.'') s of None \<Rightarrow> best1 | Some (_, parent) \<Rightarrow> suffix_scan m parent best1)"
  by pat_completeness auto
termination
  by (relation "measure (\<lambda>(_, s, _). length s)") (auto dest: split_once_length)

declare suffix_scan.simps [simp del]

definition matcher_policy :: "indexed_matcher \<Rightarrow> string \<Rightarrow> ip_addr option \<Rightarrow> string option" where
  "matcher_policy im host ip =
     (let b0 = im_match_all im;
          b1 = consider_ref b0 (map_of (im_exact im) host);
          b2 = suffix_scan (im_suffix im) host b1;
          b3 = foldl (\<lambda>b (k, r). if contains_str host k then consider_ref b (Some r) else b) b2 (im_keywords im);
          b4 = (case ip of
                  None \<Rightarrow> b3
                | Some a \<Rightarrow> foldl (\<lambda>b (c, r). if cidr_contains c a then consider_ref b (Some r) else b) b3 (im_cidrs im))
      in map_option snd b4)"

section \<open>The matcher cache\<close>

record matcher_cache =
  mc_entries :: "(bytes, indexed_matcher) hash_map"
  mc_order :: "bytes list"
  mc_total :: int

definition cache_new :: matcher_cache where
  "cache_new = \<lparr>mc_entries = [], mc_order = [], mc_total = 0\<rparr>"

text \<open>\<open>pop_front\<close> until there is room; \<open>saturating_sub\<close> is truncated at 0.\<close>

fun cache_evict :: "nat \<Rightarrow> (bytes, indexed_matcher) hash_map \<Rightarrow> bytes list \<Rightarrow> int \<Rightarrow> matcher_cache" where
  "cache_evict n es [] acc = \<lparr>mc_entries = es, mc_order = [], mc_total = acc\<rparr>"
| "cache_evict n es (oldest # order) acc =
     (if length es \<ge> 32 \<or> acc + int n > 400000 then
        (case map_of es oldest of
           None \<Rightarrow> cache_evict n es order acc
         | Some m \<Rightarrow> cache_evict n (AList.delete oldest es) order (max 0 (acc - int (im_count m))))
      else \<lparr>mc_entries = es, mc_order = oldest # order, mc_total = acc\<rparr>)"

text \<open>What happens under the second lock, once a matcher has been built.\<close>

definition cache_put :: "matcher_cache \<Rightarrow> bytes \<Rightarrow> indexed_matcher \<Rightarrow> matcher_cache \<times> indexed_matcher" where
  "cache_put cache key mt =
     (case map_of (mc_entries cache) key of
        Some existing \<Rightarrow> (cache, existing)
      | None \<Rightarrow>
          (let c = cache_evict (im_count mt) (mc_entries cache) (mc_order cache) (mc_total cache) in
           if int (im_count mt) > 400000 then (c, mt)
           else (\<lparr>mc_entries = hm_insert key mt (mc_entries c), mc_order = mc_order c @ [key],
                  mc_total = mc_total c + int (im_count mt)\<rparr>, mt)))"

definition indexed_matcher_of ::
  "(exit_rule_spec \<Rightarrow> bytes) \<Rightarrow> nat \<Rightarrow> matcher_cache \<Rightarrow> exit_rule_spec
     \<Rightarrow> (matcher_cache \<times> (exit_error + indexed_matcher)) option" where
  "indexed_matcher_of digest depth cache spec =
     (case map_of (mc_entries cache) (digest spec) of
        Some mt \<Rightarrow> Some (cache, Inr mt)
      | None \<Rightarrow>
          (case compile depth spec of
             None \<Rightarrow> None
           | Some (Inl e) \<Rightarrow> Some (cache, Inl e)
           | Some (Inr rules) \<Rightarrow>
               (case cache_put cache (digest spec) (matcher_build rules) of (c, mt) \<Rightarrow> Some (c, Inr mt))))"

section \<open>Classification\<close>

datatype decision = Direct | Reject | Nearest | Node string

definition decide :: "exit_rule_spec \<Rightarrow> string \<Rightarrow> exit_error + decision" where
  "decide spec policy =
     (case map_of (er_policy_exits spec) policy of
        Some ExitDirect \<Rightarrow> Inr Direct
      | Some ExitReject \<Rightarrow> Inr Reject
      | Some ExitNearest \<Rightarrow> Inr Nearest
      | Some (ExitNode n) \<Rightarrow> Inr (Node n)
      | None \<Rightarrow>
          if eq_ignore_ascii_case policy ''REJECT'' \<or> starts_with (to_ascii_uppercase policy) ''REJECT-'' then Inr Reject
          else if eq_ignore_ascii_case policy ''DIRECT'' then Inr Direct
          else Inl (UnboundPolicy policy))"

definition classify ::
  "(exit_rule_spec \<Rightarrow> bytes) \<Rightarrow> nat \<Rightarrow> matcher_cache \<Rightarrow> exit_rule_spec \<Rightarrow> string \<Rightarrow> ip_addr option
     \<Rightarrow> (matcher_cache \<times> (exit_error + decision option)) option" where
  "classify digest depth cache spec host0 ip =
     (let host = to_ascii_lowercase (trim_end_matches ''.'' host0) in
      case indexed_matcher_of digest depth cache spec of
        None \<Rightarrow> None
      | Some (c, Inl e) \<Rightarrow> Some (c, Inl e)
      | Some (c, Inr mt) \<Rightarrow>
          Some (c, case matcher_policy mt host ip of
                     None \<Rightarrow> Inr None
                   | Some policy \<Rightarrow> (case decide spec policy of Inl e \<Rightarrow> Inl e | Inr d \<Rightarrow> Inr (Some d))))"


section \<open>The matcher finds the first rule that matches\<close>

text \<open>The reference: when one matcher hits.\<close>

definition hits :: "string \<Rightarrow> ip_addr option \<Rightarrow> rule_matcher \<Rightarrow> bool" where
  "hits host ip mt =
     (case mt of
        Domain d \<Rightarrow> host = d
      | DomainSuffix s \<Rightarrow> host = s \<or> suffix (CHR ''.'' # s) host
      | DomainKeyword k \<Rightarrow> contains_str host k
      | IpRange c \<Rightarrow> (case ip of None \<Rightarrow> False | Some a \<Rightarrow> cidr_contains c a)
      | MatchAll \<Rightarrow> True)"

definition refs :: "(rule_matcher \<Rightarrow> bool) \<Rightarrow> compiled_rule list \<Rightarrow> rule_ref set" where
  "refs P rs = (\<lambda>(i, r). (i, cr_policy r)) ` {x \<in> set (enumerate 0 rs). P (cr_matcher (snd x))}"

definition is_best :: "rule_ref option \<Rightarrow> rule_ref set \<Rightarrow> bool" where
  "is_best b C = (case b of None \<Rightarrow> C = {} | Some r \<Rightarrow> r \<in> C \<and> (\<forall>c \<in> C. fst r \<le> fst c))"

definition first_ref :: "(rule_matcher \<Rightarrow> bool) \<Rightarrow> compiled_rule list \<Rightarrow> rule_ref option" where
  "first_ref P rs = map_option (\<lambda>(i, r). (i, cr_policy r)) (find (\<lambda>(i, r). P (cr_matcher r)) (enumerate 0 rs))"

lemma find_append: "find P (xs @ ys) = (case find P xs of None \<Rightarrow> find P ys | Some x \<Rightarrow> Some x)"
  by (induction xs) auto

lemma first_ref_simps [simp]:
  "first_ref P [] = None"
  "first_ref P (rs @ [r]) =
     (case first_ref P rs of None \<Rightarrow> if P (cr_matcher r) then Some (length rs, cr_policy r) else None | Some x \<Rightarrow> Some x)"
  by (auto simp: first_ref_def enumerate_append_eq find_append split: option.splits)

lemma refs_simps [simp]:
  "refs P [] = {}"
  "refs P (rs @ [r]) = refs P rs \<union> (if P (cr_matcher r) then {(length rs, cr_policy r)} else {})"
  by (auto simp: refs_def enumerate_append_eq)

lemma refs_iff: "(i, p) \<in> refs P rs \<longleftrightarrow> i < length rs \<and> P (cr_matcher (rs ! i)) \<and> p = cr_policy (rs ! i)"
  by (force simp: refs_def in_set_enumerate_eq)

lemma refs_index: "x \<in> refs P rs \<Longrightarrow> fst x < length rs"
  by (cases x) (simp add: refs_iff)

lemma best_first_ref: "is_best (first_ref P rs) (refs P rs)"
proof (induction rs rule: rev_induct)
  case (snoc r rs)
  then show ?case using refs_index [of _ P rs] by (fastforce simp: is_best_def split: option.splits)
qed (simp add: is_best_def)

lemma first_ref_find: "map_option snd (first_ref P rs) = map_option cr_policy (find (\<lambda>r. P (cr_matcher r)) rs)"
  by (induction rs rule: rev_induct) (auto simp: find_append split: option.splits)

lemma best_unique:
  assumes "is_best b (refs P rs)" and "is_best b' (refs P rs)"
  shows "b = b'"
proof (cases b; cases b')
  fix x y
  assume xy: "b = Some x" "b' = Some y"
  with assms have m: "x \<in> refs P rs" "y \<in> refs P rs" and "fst x = fst y"
    by (auto simp: is_best_def intro: le_antisym)
  then have "x = y" by (cases x; cases y) (simp add: refs_iff)
  with xy show ?thesis by simp
qed (use assms in \<open>auto simp: is_best_def\<close>)

lemma best_consider: "is_best b C \<Longrightarrow> is_best (consider_ref b cand) (C \<union> set_option cand)"
  by (auto simp: is_best_def consider_ref_def split: option.splits)

lemma best_fold:
  assumes "is_best b C"
  shows "is_best (foldl (\<lambda>b (k, r). if Q k then consider_ref b (Some r) else b) b xs) (C \<union> {r. \<exists>k. (k, r) \<in> set xs \<and> Q k})"
  using assms
proof (induction xs arbitrary: b C)
  case (Cons x xs)
  obtain k r where x: "x = (k, r)" by (cases x)
  have "is_best (if Q k then consider_ref b (Some r) else b) (C \<union> (if Q k then {r} else {}))"
    using best_consider [OF Cons.prems, of "Some r"] Cons.prems by simp
  from Cons.IH [OF this] have "is_best (foldl (\<lambda>b (k, r). if Q k then consider_ref b (Some r) else b) b (x # xs))
      ((C \<union> (if Q k then {r} else {})) \<union> {r. \<exists>k. (k, r) \<in> set xs \<and> Q k})" by (simp add: x)
  moreover have "(C \<union> (if Q k then {r} else {})) \<union> {r. \<exists>k. (k, r) \<in> set xs \<and> Q k} = C \<union> {r. \<exists>k. (k, r) \<in> set (x # xs) \<and> Q k}"
    by (auto simp: x)
  ultimately show ?case by simp
qed simp

lemma suffix_dot_cases:
  "split_once (CHR ''.'') host = None \<Longrightarrow> \<not> suffix (CHR ''.'' # s) host"
  "split_once (CHR ''.'') host = Some (a, parent) \<Longrightarrow>
     suffix (CHR ''.'' # s) host \<longleftrightarrow> s = parent \<or> suffix (CHR ''.'' # s) parent"
proof -
  show "\<not> suffix (CHR ''.'' # s) host" if "split_once (CHR ''.'') host = None"
    using that by (auto simp: split_once_None suffix_def)
  assume "split_once (CHR ''.'') host = Some (a, parent)"
  then have h: "host = a @ CHR ''.'' # parent" and a: "CHR ''.'' \<notin> set a" by (simp_all add: split_once_Some)
  show "suffix (CHR ''.'' # s) host \<longleftrightarrow> s = parent \<or> suffix (CHR ''.'' # s) parent"
  proof
    assume "suffix (CHR ''.'' # s) host"
    then obtain zs where z: "a @ CHR ''.'' # parent = zs @ CHR ''.'' # s" by (auto simp: suffix_def h)
    then show "s = parent \<or> suffix (CHR ''.'' # s) parent"
      using a by (auto simp: append_eq_append_conv2 Cons_eq_append_conv suffix_def append_eq_Cons_conv)
  qed (auto simp: h suffix_def)
qed

lemma best_suffix_scan:
  assumes "is_best b C"
  shows "is_best (suffix_scan m host b) (C \<union> {r. \<exists>s. map_of m s = Some r \<and> (host = s \<or> suffix (CHR ''.'' # s) host)})"
  using assms
proof (induction m host b arbitrary: C rule: suffix_scan.induct)
  case (1 m host b)
  let ?S = "\<lambda>h. {r. \<exists>s. map_of m s = Some r \<and> (h = s \<or> suffix (CHR ''.'' # s) h)}"
  have b1: "is_best (consider_ref b (map_of m host)) (C \<union> set_option (map_of m host))"
    by (rule best_consider [OF 1(2)])
  show ?case
  proof (cases "split_once (CHR ''.'') host")
    case None
    then have "?S host = set_option (map_of m host)" by (auto simp: suffix_dot_cases(1))
    with b1 None show ?thesis by (subst suffix_scan.simps) (simp add: Let_def)
  next
    case (Some ap)
    obtain a parent where ap: "ap = (a, parent)" by (cases ap)
    have "?S host = set_option (map_of m host) \<union> ?S parent"
      using suffix_dot_cases(2) [OF Some [unfolded ap]] by auto
    then have "C \<union> ?S host = C \<union> set_option (map_of m host) \<union> ?S parent" by blast
    with 1(1) [OF refl Some ap [symmetric] b1] Some ap show ?thesis
      by (subst suffix_scan.simps) (simp add: Let_def)
  qed
qed

lemma best_superset:
  assumes "is_best b C" and "C \<subseteq> R" and "\<And>r. r \<in> R \<Longrightarrow> \<exists>c \<in> C. fst c \<le> fst r"
  shows "is_best b R"
  using assms by (fastforce simp: is_best_def split: option.splits)


text \<open>What the index holds after a list of rules.\<close>

definition indexes :: "compiled_rule list \<Rightarrow> indexed_matcher \<Rightarrow> bool" where
  "indexes rs im \<longleftrightarrow>
     (\<forall>d. map_of (im_exact im) d = first_ref (\<lambda>m. m = Domain d) rs) \<and>
     (\<forall>s. map_of (im_suffix im) s = first_ref (\<lambda>m. m = DomainSuffix s) rs) \<and>
     (\<forall>k r. (k, r) \<in> set (im_keywords im) \<longleftrightarrow> r \<in> refs (\<lambda>m. m = DomainKeyword k) rs) \<and>
     (\<forall>c r. (c, r) \<in> set (im_cidrs im) \<longleftrightarrow> r \<in> refs (\<lambda>m. m = IpRange c) rs) \<and>
     im_match_all im = first_ref (\<lambda>m. m = MatchAll) rs"

lemma map_of_or_insert:
  "map_of (or_insert k v m) k' = (case map_of m k' of None \<Rightarrow> if k' = k then Some v else None | Some x \<Rightarrow> Some x)"
  by (auto simp: or_insert_def update_conv' split: option.splits)

lemma indexes_snoc:
  assumes "indexes rs im"
  shows "indexes (rs @ [r]) (index_rule im (length rs, r))"
proof (cases "cr_matcher r")
  case (IpRange c)
  with assms show ?thesis by (auto simp: indexes_def index_rule_def split: option.splits)
qed (use assms in \<open>auto simp: indexes_def index_rule_def map_of_or_insert split: option.splits\<close>)

lemma indexes_build: "indexes rules (matcher_build rules)"
proof -
  have "indexes rs (foldl index_rule
       \<lparr>im_count = n, im_exact = [], im_suffix = [], im_keywords = [], im_cidrs = [], im_match_all = None\<rparr>
       (enumerate 0 rs))" for n rs
  proof (induction rs rule: rev_induct)
    case Nil
    show ?case by (simp add: indexes_def)
  next
    case (snoc r rs)
    from indexes_snoc [OF this, of r] show ?case by (simp add: enumerate_append_eq)
  qed
  then show ?thesis by (simp add: matcher_build_def)
qed

text \<open>The rules the lookup considers: the first of each name and suffix, every keyword and range.\<close>

definition candidates :: "string \<Rightarrow> ip_addr option \<Rightarrow> compiled_rule list \<Rightarrow> rule_ref set" where
  "candidates host ip rs =
     {r. \<exists>x. hits host ip x \<and>
        (case x of
           DomainKeyword _ \<Rightarrow> r \<in> refs (\<lambda>m. m = x) rs
         | IpRange _ \<Rightarrow> r \<in> refs (\<lambda>m. m = x) rs
         | _ \<Rightarrow> first_ref (\<lambda>m. m = x) rs = Some r)}"

lemma best_of_candidates:
  assumes "is_best b (candidates host ip rs)"
  shows "b = first_ref (hits host ip) rs"
proof -
  have first: "r \<in> refs P rs" if "first_ref P rs = Some r" for P r
    using best_first_ref [of P rs] that by (simp add: is_best_def)
  have hit: "r \<in> refs (hits host ip) rs" if "hits host ip x" "r \<in> refs (\<lambda>m. m = x) rs" for r x
    using that by (cases r) (auto simp: refs_iff)
  have sub: "candidates host ip rs \<subseteq> refs (hits host ip) rs"
  proof
    fix r
    assume "r \<in> candidates host ip rs"
    then obtain x where x: "hits host ip x" "case x of
           DomainKeyword _ \<Rightarrow> r \<in> refs (\<lambda>m. m = x) rs
         | IpRange _ \<Rightarrow> r \<in> refs (\<lambda>m. m = x) rs
         | _ \<Rightarrow> first_ref (\<lambda>m. m = x) rs = Some r" unfolding candidates_def by blast
    have "r \<in> refs (\<lambda>m. m = x) rs" using x(2) first [of "\<lambda>m. m = x" r] by (cases x) simp_all
    with hit [OF x(1)] show "r \<in> refs (hits host ip) rs" .
  qed
  have "\<exists>c \<in> candidates host ip rs. fst c \<le> fst r" if "r \<in> refs (hits host ip) rs" for r
  proof -
    obtain i p where r: "r = (i, p)" by (cases r)
    define x where "x = cr_matcher (rs ! i)"
    have x: "r \<in> refs (\<lambda>m. m = x) rs" "hits host ip x" using that by (simp_all add: r refs_iff x_def)
    from x(1) best_first_ref [of "\<lambda>m. m = x" rs] obtain c where c: "first_ref (\<lambda>m. m = x) rs = Some c" "fst c \<le> fst r"
      by (auto simp: is_best_def split: option.splits)
    have "c \<in> candidates host ip rs \<or> r \<in> candidates host ip rs"
      using x c(1) by (cases x) (auto simp: candidates_def intro!: exI [of _ x])
    with c(2) show ?thesis by blast
  qed
  from best_superset [OF assms sub this] show ?thesis by (rule best_unique [OF _ best_first_ref])
qed

lemma candidates_split:
  "candidates host ip rs =
     set_option (first_ref (\<lambda>m. m = MatchAll) rs) \<union> set_option (first_ref (\<lambda>m. m = Domain host) rs)
     \<union> {r. \<exists>s. first_ref (\<lambda>m. m = DomainSuffix s) rs = Some r \<and> (host = s \<or> suffix (CHR ''.'' # s) host)}
     \<union> {r. \<exists>k. r \<in> refs (\<lambda>m. m = DomainKeyword k) rs \<and> contains_str host k}
     \<union> {r. \<exists>c a. r \<in> refs (\<lambda>m. m = IpRange c) rs \<and> ip = Some a \<and> cidr_contains c a}"
  (is "_ = ?A \<union> ?B \<union> ?C \<union> ?D \<union> ?E")
proof
  show "candidates host ip rs \<subseteq> ?A \<union> ?B \<union> ?C \<union> ?D \<union> ?E"
  proof
    fix r
    assume "r \<in> candidates host ip rs"
    then obtain x where x: "hits host ip x" "case x of
           DomainKeyword _ \<Rightarrow> r \<in> refs (\<lambda>m. m = x) rs
         | IpRange _ \<Rightarrow> r \<in> refs (\<lambda>m. m = x) rs
         | _ \<Rightarrow> first_ref (\<lambda>m. m = x) rs = Some r" unfolding candidates_def by blast
    then show "r \<in> ?A \<union> ?B \<union> ?C \<union> ?D \<union> ?E"
      by (cases x) (auto simp: hits_def split: option.splits)
  qed
  have "r \<in> candidates host ip rs" if "hits host ip x" "case x of
           DomainKeyword _ \<Rightarrow> r \<in> refs (\<lambda>m. m = x) rs
         | IpRange _ \<Rightarrow> r \<in> refs (\<lambda>m. m = x) rs
         | _ \<Rightarrow> first_ref (\<lambda>m. m = x) rs = Some r" for r x
    using that unfolding candidates_def by blast
  note i = this [of MatchAll, simplified] this [of "Domain host", simplified] this [of "DomainSuffix s" for s, simplified]
    this [of "DomainKeyword k" for k, simplified] this [of "IpRange c" for c, simplified]
  have "?A \<subseteq> candidates host ip rs" by (auto intro: i(1) simp: hits_def)
  moreover have "?B \<subseteq> candidates host ip rs" by (auto intro: i(2) simp: hits_def)
  moreover have "?C \<subseteq> candidates host ip rs" by (auto intro: i(3) simp: hits_def)
  moreover have "?D \<subseteq> candidates host ip rs" by (auto intro: i(4) simp: hits_def)
  moreover have "r \<in> candidates host ip rs" if "r \<in> ?E" for r
    using that i(5) [of _ r] by (auto simp: hits_def split: option.splits)
  ultimately show "?A \<union> ?B \<union> ?C \<union> ?D \<union> ?E \<subseteq> candidates host ip rs" by blast
qed

lemma matcher_best:
  assumes "indexes rs im"
  shows "matcher_policy im host ip = map_option snd (first_ref (hits host ip) rs)"
proof -
  from assms have ix: "map_of (im_exact im) host = first_ref (\<lambda>m. m = Domain host) rs"
    "\<And>s. map_of (im_suffix im) s = first_ref (\<lambda>m. m = DomainSuffix s) rs"
    "\<And>k r. (k, r) \<in> set (im_keywords im) \<longleftrightarrow> r \<in> refs (\<lambda>m. m = DomainKeyword k) rs"
    "\<And>c r. (c, r) \<in> set (im_cidrs im) \<longleftrightarrow> r \<in> refs (\<lambda>m. m = IpRange c) rs"
    "im_match_all im = first_ref (\<lambda>m. m = MatchAll) rs"
    unfolding indexes_def by (blast, blast, blast, blast, blast)
  define b0 where "b0 = suffix_scan (im_suffix im) host (consider_ref (im_match_all im) (map_of (im_exact im) host))"
  define b3 where "b3 = foldl (\<lambda>b (k, r). if contains_str host k then consider_ref b (Some r) else b) b0 (im_keywords im)"
  define b4 where "b4 = (case ip of None \<Rightarrow> b3
     | Some a \<Rightarrow> foldl (\<lambda>b (c, r). if cidr_contains c a then consider_ref b (Some r) else b) b3 (im_cidrs im))"
  have "is_best (im_match_all im) (set_option (im_match_all im))" by (auto simp: is_best_def split: option.splits)
  note b = best_fold [OF best_suffix_scan [OF best_consider [OF this, of "map_of (im_exact im) host"],
      of "im_suffix im" host], of "contains_str host" "im_keywords im", folded b0_def, folded b3_def, unfolded ix]
  have "is_best b4 (candidates host ip rs)"
  proof (cases ip)
    case None
    with b show ?thesis by (simp add: candidates_split b4_def)
  next
    case (Some a)
    with best_fold [OF b, of "\<lambda>c. cidr_contains c a" "im_cidrs im"] show ?thesis
      by (simp add: candidates_split b4_def ix)
  qed
  from best_of_candidates [OF this] show ?thesis
    unfolding matcher_policy_def Let_def b4_def b3_def b0_def by simp
qed

text \<open>
  C7: the index changes nothing.  The indexed matcher, with its hash tables for
  exact names and suffixes, answers for every host and address with the policy of
  the first rule, in the order of the compiled list, that matches: the host
  itself, a suffix at a label boundary, a keyword, an address range or a
  catch-all.
\<close>

theorem matcher_first_match:
  "matcher_policy (matcher_build rules) host ip
   = map_option cr_policy (find (\<lambda>r. hits host ip (cr_matcher r)) rules)"
  by (simp add: matcher_best [OF indexes_build] first_ref_find)


section \<open>When the compiler returns\<close>

lemma parse_all_mono:
  assumes "\<And>l r. l \<in> set ls \<Longrightarrow> f l = Some r \<Longrightarrow> g l = Some r" and "parse_all f ls = Some r"
  shows "parse_all g ls = Some r"
  using assms
proof (induction ls arbitrary: r)
  case (Cons l ls)
  have IH: "parse_all g ls = Some s" if "parse_all f ls = Some s" for s
    by (rule Cons.IH) (use Cons.prems(1) that in auto)
  from Cons.prems(2) obtain x where x: "f l = Some x" by (auto split: option.splits)
  then have "g l = Some x" using Cons.prems(1) by simp
  with x Cons.prems(2) IH show ?case by (auto split: option.splits sum.splits)
qed simp

lemma parse_all_returns: "(\<And>l. l \<in> set ls \<Longrightarrow> f l \<noteq> None) \<Longrightarrow> parse_all f ls \<noteq> None"
proof (induction ls)
  case (Cons l ls)
  then have "parse_all f ls \<noteq> None" "f l \<noteq> None" by simp_all
  then show ?case by (auto split: option.splits sum.splits)
qed simp

lemma parse_rule_line_mono:
  "parse_rule_line n spec inherited line = Some r \<Longrightarrow> n \<le> m \<Longrightarrow> parse_rule_line m spec inherited line = Some r"
proof (induction n arbitrary: m inherited line r)
  case (Suc n)
  then obtain k where m: "m = Suc k" and "n \<le> k" by (cases m) auto
  then have "parse_all (parse_rule_line k spec p) ls = Some s"
    if "parse_all (parse_rule_line n spec p) ls = Some s" for p ls s
    using parse_all_mono [OF _ that, of "parse_rule_line k spec p"] Suc.IH by blast
  with Suc.prems(1) show ?case
    by (auto simp: m Let_def split: if_splits option.splits sum.splits)
qed simp

lemma compile_mono: "compile n spec = Some r \<Longrightarrow> n \<le> m \<Longrightarrow> compile m spec = Some r"
proof -
  assume c: "compile n spec = Some r" and "n \<le> m"
  then have "parse_all (parse_rule_line m spec None) ls = Some s"
    if "parse_all (parse_rule_line n spec None) ls = Some s" for ls s
    using parse_all_mono [OF _ that, of "parse_rule_line m spec None"] parse_rule_line_mono by blast
  with c show ?thesis by (auto simp: compile_def split: sum.splits option.splits)
qed

lemma compile_unique:
  assumes "compile n spec = Some r" and "compile m spec = Some s"
  shows "r = s"
  using compile_mono [OF assms(1), of "max n m"] compile_mono [OF assms(2), of "max n m"] by simp

text \<open>The lines that refer to another snapshot, and what they refer to.\<close>

definition is_rule_set :: "string \<Rightarrow> bool" where
  "is_rule_set line \<longleftrightarrow> CHR '','' \<in> set line
     \<and> to_ascii_uppercase (nth_or_empty (map trim (split (CHR '','') line)) 0) = ''RULE-SET''"

definition rule_set_source :: "string \<Rightarrow> string" where
  "rule_set_source line = nth_or_empty (map trim (split (CHR '','') line)) 1"

text \<open>Snapshots refer only to snapshots of lower rank.\<close>

definition layered :: "exit_rule_spec \<Rightarrow> (string \<Rightarrow> nat) \<Rightarrow> bool" where
  "layered spec rank \<longleftrightarrow>
     (\<forall>(k, content) \<in> set (er_providers spec).
        case provider_lines content of
          Inl _ \<Rightarrow> True
        | Inr ls \<Rightarrow> (\<forall>l \<in> set ls. is_rule_set l \<longrightarrow> rank (rule_set_source l) < rank k))"

lemma parse_rule_line_returns:
  assumes "layered spec rank" and "is_rule_set line \<Longrightarrow> rank (rule_set_source line) < n"
  shows "parse_rule_line (Suc n) spec inherited line \<noteq> None"
  using assms(2)
proof (induction n arbitrary: inherited line)
  case 0
  then show ?case by (auto simp: Let_def is_rule_set_def)
next
  case (Suc n)
  have "parse_all (parse_rule_line (Suc n) spec p) ls \<noteq> None"
    if "is_rule_set line" "map_of (er_providers spec) (rule_set_source line) = Some content"
      "provider_lines content = Inr ls" for p content ls
  proof (rule parse_all_returns, rule Suc.IH)
    fix l
    assume "l \<in> set ls" "is_rule_set l"
    with assms(1) that(3) map_of_SomeD [OF that(2)] have "rank (rule_set_source l) < rank (rule_set_source line)"
      by (fastforce simp: layered_def)
    with Suc.prems [OF that(1)] show "rank (rule_set_source l) < n" by simp
  qed
  then show ?case
    by (subst parse_rule_line.simps) (auto simp: Let_def is_rule_set_def rule_set_source_def split: option.splits sum.splits)
qed

text \<open>
  C34: the compiler returns whenever the snapshots are layered.  If every RULE-SET
  line inside a signed snapshot refers to a snapshot of lower rank, a depth of one
  more than the ranks in use is enough, and any greater depth gives the same
  result.
\<close>

theorem compile_terminates:
  assumes "layered spec rank" and "\<forall>k. rank k < n"
  shows "\<exists>r. \<forall>m \<ge> Suc n. compile m spec = Some r"
proof -
  have p: "parse_all (parse_rule_line (Suc n) spec None) ls \<noteq> None" for ls
    by (rule parse_all_returns, rule parse_rule_line_returns [OF assms(1)]) (use assms(2) in simp)
  have "compile (Suc n) spec \<noteq> None"
  proof (cases "config_lines spec")
    case (Inr ls)
    with p [of ls] show ?thesis by (auto simp: compile_def split: sum.splits option.splits)
  qed (simp add: compile_def)
  then obtain r where "compile (Suc n) spec = Some r" by blast
  with compile_mono show ?thesis by blast
qed

definition snapshot_spec :: "string \<Rightarrow> exit_rule_spec" where
  "snapshot_spec content =
     \<lparr>er_schema = 1, er_description = [], er_enabled = True, er_priority = 0, er_format = Surge,
      er_config = ''RULE-SET,https://r/l,P'', er_providers = [(''https://r/l'', content)],
      er_policy_exits = [(''P'', ExitNearest)]\<rparr>"

theorem compile_terminates_witness:
  "layered (snapshot_spec ''+.example.net'') (\<lambda>_. 0)
   \<and> compile 2 (snapshot_spec ''+.example.net'') = Some (Inr [\<lparr>cr_matcher = DomainSuffix ''example.net'', cr_policy = ''P''\<rparr>])
   \<and> compile 3 (snapshot_spec ''+.example.net'') = compile 2 (snapshot_spec ''+.example.net'')"
proof -
  have l: "layered (snapshot_spec ''+.example.net'') (\<lambda>_. 0)" by code_simp
  from compile_terminates [OF this, of 1] obtain r where r: "\<forall>m \<ge> 2. compile m (snapshot_spec ''+.example.net'') = Some r"
    by (auto simp: numeral_2_eq_2)
  moreover have "compile 2 (snapshot_spec ''+.example.net'') =
      Some (Inr [\<lparr>cr_matcher = DomainSuffix ''example.net'', cr_policy = ''P''\<rparr>])" by code_simp
  ultimately show ?thesis using l by simp
qed


definition loop_spec :: exit_rule_spec where
  "loop_spec = snapshot_spec ''RULE-SET,https://r/l''"

lemma loop_line:
  "CHR '','' \<in> set ''RULE-SET,https://r/l''"
  "map trim (split (CHR '','') ''RULE-SET,https://r/l'') = [''RULE-SET'', ''https://r/l'']"
  "to_ascii_uppercase ''RULE-SET'' = ''RULE-SET''"
  "provider_lines ''RULE-SET,https://r/l'' = Inr [''RULE-SET,https://r/l'']"
  by code_simp+

lemma loop_config:
  "CHR '','' \<in> set ''RULE-SET,https://r/l,P''"
  "map trim (split (CHR '','') ''RULE-SET,https://r/l,P'') = [''RULE-SET'', ''https://r/l'', ''P'']"
  "rule_policy [''RULE-SET'', ''https://r/l'', ''P''] None = ''P''"
  "config_lines loop_spec = Inr [''RULE-SET,https://r/l,P'']"
  by code_simp+

lemma loop_checks:
  "check_providers (er_providers loop_spec) 0 = Inr 20" "check_policy_exits (er_policy_exits loop_spec) = Inr ()"
  by code_simp+

lemma loop_never_returns: "parse_rule_line n loop_spec (Some ''P'') ''RULE-SET,https://r/l'' = None"
proof (induction n)
  case (Suc n)
  have "er_providers loop_spec = [(''https://r/l'', ''RULE-SET,https://r/l'')]"
    by (simp add: loop_spec_def snapshot_spec_def)
  with Suc show ?case
    by (simp only: parse_rule_line.simps loop_line Let_def) (simp add: nth_or_empty_def rule_policy_def loop_line loop_line(3) [simplified])
qed simp

text \<open>
  C35: a snapshot that refers to itself hangs validation.  The record passes every
  size and name check, but no depth is enough to compile it, so validation (and
  admission, which calls it) never returns a result.
\<close>

theorem self_reference_diverges:
  "(\<forall>n. rule_validate n loop_spec = None)
   \<and> check_providers (er_providers loop_spec) 0 = Inr 20 \<and> check_policy_exits (er_policy_exits loop_spec) = Inr ()"
proof -
  have p: "er_providers loop_spec = [(''https://r/l'', ''RULE-SET,https://r/l'')]"
    by (simp add: loop_spec_def snapshot_spec_def)
  have "parse_rule_line n loop_spec None ''RULE-SET,https://r/l,P'' = None" for n
  proof (cases n)
    case (Suc k)
    show ?thesis unfolding Suc
      by (simp only: parse_rule_line.simps loop_config Let_def)
         (simp add: nth_or_empty_def loop_config loop_line loop_line(3) [simplified] p loop_never_returns)
  qed simp
  then have "compile n loop_spec = None" for n by (simp add: compile_def loop_config)
  moreover have "er_schema loop_spec = 1" "er_description loop_spec = []" "str_len (er_config loop_spec) \<le> 200000"
    "nul \<notin> set (er_config loop_spec)" "length (er_providers loop_spec) \<le> 64" "length (er_policy_exits loop_spec) \<le> 256"
    by (simp_all add: loop_spec_def snapshot_spec_def nul_def)
  ultimately have "rule_validate n loop_spec = None" for n
    unfolding rule_validate_def loop_checks by simp
  then show ?thesis using loop_checks by blast
qed

end
