(* ===== verification/Exit_Cache.thy ===== *)
theory Exit_Cache
  imports Exit_Rules
begin

text \<open>
  What the matcher cache of \<^verbatim>\<open>crates/rf/src/exit.rs\<close> keeps, and what a node decides
  for a host under a validated rule record: the cache stays within its limits and
  is invisible, and a validated record always yields the decision of its first
  matching rule.
\<close>

section \<open>The cache\<close>

definition rules_held :: "(bytes, indexed_matcher) hash_map \<Rightarrow> int" where
  "rules_held es = sum_list (map (\<lambda>(_, m). int (im_count m)) es)"

definition cache_tracks :: "(bytes, indexed_matcher) hash_map \<Rightarrow> bytes list \<Rightarrow> int \<Rightarrow> bool" where
  "cache_tracks es order acc \<longleftrightarrow> hm_ok es \<and> distinct order \<and> set order = fst ` set es \<and> acc = rules_held es"

definition cache_ok :: "matcher_cache \<Rightarrow> bool" where
  "cache_ok c \<longleftrightarrow> cache_tracks (mc_entries c) (mc_order c) (mc_total c)
     \<and> length (mc_entries c) \<le> 32 \<and> mc_total c \<le> 400000"

text \<open>What the cache holds for the records \<open>S\<close> in use is what their rules compile to.\<close>

definition cache_faithful :: "(exit_rule_spec \<Rightarrow> bytes) \<Rightarrow> exit_rule_spec set \<Rightarrow> matcher_cache \<Rightarrow> bool" where
  "cache_faithful digest S c \<longleftrightarrow>
     (\<forall>spec \<in> S. \<forall>m. map_of (mc_entries c) (digest spec) = Some m \<longrightarrow>
        (\<exists>n rules. compile n spec = Some (Inr rules) \<and> m = matcher_build rules))"

lemma rules_held_delete:
  "hm_ok es \<Longrightarrow> map_of es k = Some m \<Longrightarrow> rules_held es = int (im_count m) + rules_held (AList.delete k es)"
proof (induction es)
  case (Cons e es)
  obtain k' m' where e: "e = (k', m')" by (cases e)
  show ?case
  proof (cases "k' = k")
    case True
    with Cons.prems have "AList.delete k es = es" by (simp add: e hm_ok_def delete_idem)
    with Cons.prems True show ?thesis by (simp add: e rules_held_def)
  next
    case False
    with Cons show ?thesis by (simp add: e rules_held_def hm_ok_def)
  qed
qed simp

lemma rules_held_nonneg: "0 \<le> rules_held es"
  by (induction es) (auto simp: rules_held_def)

lemma tracks_delete:
  assumes "cache_tracks es (k # order) acc" and "map_of es k = Some m"
  shows "cache_tracks (AList.delete k es) order (max 0 (acc - int (im_count m)))"
proof -
  from assms have h: "hm_ok es" "k \<notin> set order" "distinct order" "insert k (set order) = fst ` set es" "acc = rules_held es"
    by (simp_all add: cache_tracks_def)
  have "fst ` set (AList.delete k es) = set (map fst (AList.delete k es))" by simp
  also have "\<dots> = fst ` set es - {k}" unfolding AList.delete_keys by simp
  also have "\<dots> = set order" unfolding h(4) [symmetric] using h(2) by auto
  finally have "set order = fst ` set (AList.delete k es)" by (rule sym)
  moreover have "hm_ok (AList.delete k es)" unfolding hm_ok_def by (rule distinct_delete) (use h(1) in \<open>simp add: hm_ok_def\<close>)
  moreover have "max 0 (acc - int (im_count m)) = rules_held (AList.delete k es)"
    using h(5) rules_held_delete [OF h(1) assms(2)] rules_held_nonneg [of "AList.delete k es"] by linarith
  ultimately show ?thesis using h(3) by (simp add: cache_tracks_def)
qed

lemma evict_spec:
  assumes "cache_tracks es order acc"
  shows "cache_tracks (mc_entries (cache_evict n es order acc)) (mc_order (cache_evict n es order acc)) (mc_total (cache_evict n es order acc))
    \<and> (mc_entries (cache_evict n es order acc) = [] \<or>
       length (mc_entries (cache_evict n es order acc)) < 32 \<and> mc_total (cache_evict n es order acc) + int n \<le> 400000)
    \<and> set (mc_entries (cache_evict n es order acc)) \<subseteq> set es
    \<and> mc_total (cache_evict n es order acc) \<le> acc"
  using assms
proof (induction n es order acc rule: cache_evict.induct)
  case (1 n es acc)
  then show ?case by (auto simp: cache_tracks_def rules_held_def)
next
  case (2 n es oldest order acc)
  show ?case
  proof (cases "32 \<le> length es \<or> 400000 < acc + int n")
    case full: True
    have "oldest \<in> fst ` set es" using 2(3) by (auto simp: cache_tracks_def)
    then obtain m where m: "map_of es oldest = Some m" by (metis map_of_eq_None_iff not_None_eq)
    have "max 0 (acc - int (im_count m)) \<le> acc"
      using 2(3) rules_held_nonneg [of es] by (simp add: cache_tracks_def)
    moreover have "set (AList.delete oldest es) \<subseteq> set es" by (auto simp: AList.delete_eq)
    ultimately show ?thesis
      using 2(2) [OF full m tracks_delete [OF 2(3) m]] full m by auto
  next
    case False
    with 2(3) show ?thesis by auto
  qed
qed


lemma update_fresh: "k \<notin> fst ` set es \<Longrightarrow> AList.update k v es = es @ [(k, v)]"
  by (induction es) auto

lemma cache_put_ok:
  assumes "cache_ok c"
  shows "cache_ok (fst (cache_put c key mt))"
    and "map_of (mc_entries (fst (cache_put c key mt))) k = Some x \<Longrightarrow>
      map_of (mc_entries c) k = Some x \<or> k = key \<and> x = mt"
proof -
  let ?e = "cache_evict (im_count mt) (mc_entries c) (mc_order c) (mc_total c)"
  from assms have t: "cache_tracks (mc_entries c) (mc_order c) (mc_total c)" and le: "mc_total c \<le> 400000"
    by (simp_all add: cache_ok_def)
  note e = evict_spec [OF t, of "im_count mt"]
  have hm: "hm_ok (mc_entries c)" "hm_ok (mc_entries ?e)" using t e by (simp_all add: cache_tracks_def)
  have old: "map_of (mc_entries c) k = Some x" if "map_of (mc_entries ?e) k = Some x" for k x
    using map_of_SomeD [OF that] e hm(1) by (auto simp: hm_ok_def)
  consider y where "map_of (mc_entries c) key = Some y" "cache_put c key mt = (c, y)"
    | "int (im_count mt) > 400000" "cache_put c key mt = (?e, mt)"
    | "map_of (mc_entries c) key = None" "int (im_count mt) \<le> 400000"
      "cache_put c key mt = (\<lparr>mc_entries = hm_insert key mt (mc_entries ?e), mc_order = mc_order ?e @ [key],
                  mc_total = mc_total ?e + int (im_count mt)\<rparr>, mt)"
    by (cases "map_of (mc_entries c) key"; cases "int (im_count mt) > 400000") (simp_all add: cache_put_def Let_def)
  then have "cache_ok (fst (cache_put c key mt)) \<and> (\<forall>k x. map_of (mc_entries (fst (cache_put c key mt))) k = Some x \<longrightarrow>
      map_of (mc_entries c) k = Some x \<or> k = key \<and> x = mt)"
  proof cases
    case 1
    with assms show ?thesis by simp
  next
    case 2
    have "length (mc_entries ?e) \<le> 32" using e by auto
    with 2 e le old show ?thesis by (simp add: cache_ok_def)
  next
    case 3
    have new: "key \<notin> fst ` set (mc_entries ?e)"
      using 3(1) old [of key] map_of_eq_None_iff [of "mc_entries ?e" key] by fastforce
    have len: "length (mc_entries ?e) < 32" "mc_total ?e + int (im_count mt) \<le> 400000"
      using e 3(2) by (auto simp: cache_tracks_def rules_held_def)
    have "hm_ok (mc_entries ?e @ [(key, mt)])" using hm_ok_insert [OF hm(2), of key mt] new by (simp add: update_fresh)
    then have "cache_tracks (hm_insert key mt (mc_entries ?e)) (mc_order ?e @ [key]) (mc_total ?e + int (im_count mt))"
      using e new by (auto simp: cache_tracks_def update_fresh rules_held_def)
    with len new 3(3) old show ?thesis by (auto simp: cache_ok_def update_fresh update_conv' split: if_splits)
  qed
  then show "cache_ok (fst (cache_put c key mt))"
    and "map_of (mc_entries (fst (cache_put c key mt))) k = Some x \<Longrightarrow>
      map_of (mc_entries c) k = Some x \<or> k = key \<and> x = mt" by blast+
qed

lemma cache_put_result:
  "snd (cache_put c key mt) = (case map_of (mc_entries c) key of Some y \<Rightarrow> y | None \<Rightarrow> mt)"
  by (simp add: cache_put_def Let_def split: option.splits)

lemma cache_put_faithful:
  assumes "cache_ok c" and "cache_faithful digest S c" and "inj_on digest S" and "spec \<in> S" and "compile n spec = Some (Inr rules)"
  shows "cache_faithful digest S (fst (cache_put c (digest spec) (matcher_build rules)))"
  unfolding cache_faithful_def
proof (intro ballI allI impI)
  fix spec' m
  assume S: "spec' \<in> S" and "map_of (mc_entries (fst (cache_put c (digest spec) (matcher_build rules)))) (digest spec') = Some m"
  from cache_put_ok(2) [OF assms(1) this(2)] show "\<exists>n rules. compile n spec' = Some (Inr rules) \<and> m = matcher_build rules"
    using assms(2-5) S by (auto simp: cache_faithful_def inj_on_eq_iff)
qed

lemma matcher_cache_facts:
  assumes "cache_ok c" and "cache_faithful digest S c" and "inj_on digest S" and "spec \<in> S"
    and "indexed_matcher_of digest depth c spec = Some (c', res)"
  shows "cache_ok c' \<and> cache_faithful digest S c'
    \<and> (\<forall>m. res = Inr m \<longrightarrow> (\<exists>n rules. compile n spec = Some (Inr rules) \<and> m = matcher_build rules))
    \<and> (\<forall>e. res = Inl e \<longrightarrow> compile depth spec = Some (Inl e))"
proof (cases "map_of (mc_entries c) (digest spec)")
  case (Some m)
  then have "c' = c" "res = Inr m" using assms(5) by (simp_all add: indexed_matcher_of_def)
  with assms(1,2,4) Some show ?thesis by (auto simp: cache_faithful_def)
next
  case None
  from assms(5) None consider e where "compile depth spec = Some (Inl e)" "c' = c" "res = Inl e"
    | rules where "compile depth spec = Some (Inr rules)"
        "c' = fst (cache_put c (digest spec) (matcher_build rules))" "res = Inr (matcher_build rules)"
    by (auto simp: indexed_matcher_of_def cache_put_result split: option.splits sum.splits prod.splits)
       (metis None cache_put_result fst_conv option.simps(4) snd_conv)
  then show ?thesis
  proof cases
    case (2 rules)
    with cache_put_ok(1) [OF assms(1)] cache_put_faithful [OF assms(1-4) 2(1)] show ?thesis by auto
  qed (use assms(1,2) in auto)
qed

text \<open>
  The matcher cache stays within its limits and is invisible.  It never holds
  more than 32 matchers or 400000 rules, its running total is exact and its
  eviction queue lists exactly its keys, whatever is inserted by whichever caller
  in between; and, as long as the records in use have distinct digests, what it
  hands out is the matcher built from the record's own rules.
\<close>

theorem matcher_cache_sound:
  assumes "cache_ok c" and "cache_faithful digest S c" and "inj_on digest S" and "spec \<in> S"
    and "indexed_matcher_of digest depth c spec = Some (c', res)"
  shows "cache_ok c' \<and> cache_faithful digest S c' \<and> length (mc_entries c') \<le> 32 \<and> mc_total c' \<le> 400000
    \<and> mc_total c' = rules_held (mc_entries c') \<and> set (mc_order c') = fst ` set (mc_entries c')
    \<and> (\<forall>m. res = Inr m \<longrightarrow> (\<exists>n rules. compile n spec = Some (Inr rules) \<and> m = matcher_build rules))
    \<and> (\<forall>e. res = Inl e \<longrightarrow> compile depth spec = Some (Inl e))"
  using matcher_cache_facts [OF assms] by (simp add: cache_ok_def cache_tracks_def)

lemma cache_new_ok [simp]: "cache_ok cache_new" "cache_faithful digest S cache_new"
  by (simp_all add: cache_ok_def cache_tracks_def cache_new_def rules_held_def cache_faithful_def)

definition demo_digest :: "exit_rule_spec \<Rightarrow> bytes" where
  "demo_digest spec = as_bytes (er_config spec)"

theorem matcher_cache_sound_witness:
  "\<exists>c m. cache_ok cache_new \<and> cache_faithful demo_digest {snapshot_spec ''+.example.net''} cache_new
     \<and> inj_on demo_digest {snapshot_spec ''+.example.net''}
     \<and> indexed_matcher_of demo_digest 2 cache_new (snapshot_spec ''+.example.net'') = Some (c, Inr m)
     \<and> length (mc_entries c) = 1 \<and> mc_total c = 1 \<and> mc_total c = rules_held (mc_entries c)"
proof -
  let ?s = "snapshot_spec ''+.example.net''"
  have "map_option (\<lambda>(c, r). (length (mc_entries c), mc_total c, r \<noteq> Inl NoPolicy \<and> \<not> isl r)) (indexed_matcher_of demo_digest 2 cache_new ?s)
      = Some (1, 1, True)" by code_simp
  then obtain c r where cr: "indexed_matcher_of demo_digest 2 cache_new ?s = Some (c, r)"
    "length (mc_entries c) = 1" "mc_total c = 1" "\<not> isl r" by (auto simp: map_option_eq_Some)
  then obtain m where "r = Inr m" by (cases r) auto
  with matcher_cache_sound [of cache_new demo_digest "{?s}" ?s 2 c r] cr show ?thesis by auto
qed


section \<open>Decisions\<close>

lemma ascii_lower_upper [simp]: "ascii_lower (ascii_upper c) = ascii_lower c"
proof (cases "is_ascii_lowercase c")
  case True
  then have "97 \<le> code c" "code c \<le> 122" by (simp_all add: is_ascii_lowercase_def)
  then have "code (ascii_lower (ascii_upper c)) = code (ascii_lower c)"
    by (simp add: ascii_lower_code ascii_upper_def is_ascii_uppercase_def is_ascii_lowercase_def, arith)
  then show ?thesis by (metis of_char_eq_iff)
qed (simp add: ascii_upper_def)

lemma upper_eq_ignore_case:
  assumes "to_ascii_uppercase p = q"
  shows "eq_ignore_ascii_case p q"
proof -
  have "to_ascii_lowercase q = to_ascii_lowercase p" by (simp add: assms [symmetric])
  then show ?thesis by (simp add: eq_ignore_ascii_case_def)
qed

lemma decide_bound:
  assumes "is_builtin_policy p \<or> map_of (er_policy_exits spec) p \<noteq> None"
  shows "\<exists>d. decide spec p = Inr d"
proof (cases "map_of (er_policy_exits spec) p")
  case None
  with assms have "is_builtin_policy p" by simp
  then have "eq_ignore_ascii_case p ''DIRECT'' \<or> eq_ignore_ascii_case p ''REJECT'' \<or> starts_with (to_ascii_uppercase p) ''REJECT-''"
    unfolding is_builtin_policy_def by (elim disjE) (simp_all only: upper_eq_ignore_case simp_thms)
  then have "decide spec p = Inr Reject \<or> decide spec p = Inr Direct"
    by (elim disjE) (simp_all only: decide_def None option.case simp_thms if_True split: if_split)
  then show ?thesis by blast
next
  case (Some t)
  then show ?thesis by (cases t) (simp_all add: decide_def)
qed

lemma check_bound_ok:
  "check_bound spec rules = Inr u \<Longrightarrow> r \<in> set rules \<Longrightarrow>
     is_builtin_policy (cr_policy r) \<or> map_of (er_policy_exits spec) (cr_policy r) \<noteq> None"
  by (induction rules) (auto split: if_splits)

lemma rule_validate_ok:
  assumes "rule_validate depth spec = Some (Inr u)"
  obtains rules where "compile depth spec = Some (Inr rules)" and "check_bound spec rules = Inr ()"
  using assms by (auto simp: rule_validate_def split: if_splits option.splits sum.splits)

text \<open>What a record says about a host: the decision for the first rule that matches.\<close>

definition verdict :: "exit_rule_spec \<Rightarrow> compiled_rule list \<Rightarrow> string \<Rightarrow> ip_addr option \<Rightarrow> exit_error + decision option" where
  "verdict spec rules host ip =
     (case find (\<lambda>r. hits (to_ascii_lowercase (trim_end_matches ''.'' host)) ip (cr_matcher r)) rules of
        None \<Rightarrow> Inr None
      | Some r \<Rightarrow> (case decide spec (cr_policy r) of Inl e \<Rightarrow> Inl e | Inr d \<Rightarrow> Inr (Some d)))"

lemma matcher_scan:
  "matcher_policy (matcher_build rules) host ip = map_option cr_policy (find (\<lambda>r. hits host ip (cr_matcher r)) rules)"
  by (simp add: matcher_best [OF indexes_build] first_ref_find)

lemma classify_verdict:
  assumes "cache_ok c" and "cache_faithful digest S c" and "inj_on digest S" and "spec \<in> S"
    and "compile depth spec = Some (Inr rules)"
  shows "\<exists>c'. classify digest depth c spec host ip = Some (c', verdict spec rules host ip)
    \<and> cache_ok c' \<and> cache_faithful digest S c'"
proof -
  obtain c' res where i: "indexed_matcher_of digest depth c spec = Some (c', res)"
    using assms(5) by (cases "map_of (mc_entries c) (digest spec)")
      (auto simp: indexed_matcher_of_def case_prod_unfold)
  have same: "rules' = rules" if "compile n spec = Some (Inr rules')" for n rules'
    using compile_unique [OF that assms(5)] by simp
  note s = matcher_cache_facts [OF assms(1-4) i]
  have "res = Inr (matcher_build rules)"
  proof (cases res)
    case (Inl e)
    with s have "compile depth spec = Some (Inl e)" by blast
    with assms(5) show ?thesis by simp
  next
    case (Inr m)
    with s obtain n rules' where "compile n spec = Some (Inr rules')" "m = matcher_build rules'" by blast
    with same [OF this(1)] Inr show ?thesis by simp
  qed
  with i have "classify digest depth c spec host ip = Some (c', verdict spec rules host ip)"
    by (simp add: classify_def verdict_def Let_def matcher_scan split: option.split)
  with s show ?thesis by blast
qed

text \<open>
  C18: a validated record always decides.  Once a rule record has been validated,
  classifying any host and address returns without an error, with the target that
  is bound to the first matching rule's policy (or the built-in direct or reject),
  and with nothing when no rule matches: no policy can slip through unbound.
\<close>

theorem validated_record_decides:
  assumes "rule_validate depth spec = Some (Inr u)"
    and "cache_ok c" and "cache_faithful digest S c" and "inj_on digest S" and "spec \<in> S"
  shows "\<exists>c' rules d. compile depth spec = Some (Inr rules)
    \<and> classify digest depth c spec host ip = Some (c', Inr d) \<and> Inr d = verdict spec rules host ip
    \<and> cache_ok c' \<and> cache_faithful digest S c'"
proof -
  obtain rules where c: "compile depth spec = Some (Inr rules)" and b: "check_bound spec rules = Inr ()"
    by (rule rule_validate_ok [OF assms(1)])
  have "\<exists>d. verdict spec rules host ip = Inr d"
  proof (cases "find (\<lambda>r. hits (to_ascii_lowercase (trim_end_matches ''.'' host)) ip (cr_matcher r)) rules")
    case (Some r)
    then have "r \<in> set rules" by (auto simp: find_Some_iff)
    from decide_bound [OF check_bound_ok [OF b this]] Some show ?thesis by (auto simp: verdict_def)
  qed (simp add: verdict_def)
  then obtain d where d: "verdict spec rules host ip = Inr d" by blast
  from classify_verdict [OF assms(2-5) c, of host ip] c d show ?thesis by auto
qed

theorem validated_record_decides_witness:
  "rule_validate 2 (snapshot_spec ''+.example.net'') = Some (Inr ())
   \<and> (\<exists>c. classify demo_digest 2 cache_new (snapshot_spec ''+.example.net'') ''www.Example.net.'' None
        = Some (c, Inr (Some Nearest)))"
proof -
  let ?s = "snapshot_spec ''+.example.net''"
  have v: "rule_validate 2 ?s = Some (Inr ())" by code_simp
  obtain c rules d where "compile 2 ?s = Some (Inr rules)"
    "classify demo_digest 2 cache_new ?s ''www.Example.net.'' None = Some (c, Inr d)"
    "Inr d = verdict ?s rules ''www.Example.net.'' None"
    using validated_record_decides [OF v, of cache_new demo_digest "{?s}" "''www.Example.net.''" None] by auto
  moreover have "map_option snd (classify demo_digest 2 cache_new ?s ''www.Example.net.'' None) = Some (Inr (Some Nearest))"
    by code_simp
  ultimately show ?thesis using v by auto
qed

section \<open>Address ranges\<close>

text \<open>
  C36: a range matches exactly the addresses that share its prefix.  A range text
  that parses has a prefix length no longer than an address of its family, so the
  mask never shifts by more than the width; and it contains an address exactly
  when that is of the same family and agrees with the written one on the leading
  bits.
\<close>

theorem cidr_matches_prefix:
  assumes "cidr_parse (a @ ''/'' @ p) = Inr c" and "CHR ''/'' \<notin> set a"
  shows "cidr_prefix c \<le> ip_width (cidr_network c) \<and>
    (case parse_ip a of
       Some (V4 x) \<Rightarrow> (\<forall>y. cidr_contains c (V4 y) = (\<forall>n. 32 - cidr_prefix c \<le> n \<and> n < 32 \<longrightarrow> bit x n = bit y n))
         \<and> (\<forall>y. \<not> cidr_contains c (V6 y))
     | Some (V6 x) \<Rightarrow> (\<forall>y. cidr_contains c (V6 y) = (\<forall>n. 128 - cidr_prefix c \<le> n \<and> n < 128 \<longrightarrow> bit x n = bit y n))
         \<and> (\<forall>y. \<not> cidr_contains c (V4 y))
     | None \<Rightarrow> False)"
proof -
  have "split_once (CHR ''/'') (a @ ''/'' @ p) = Some (a, p)" using assms(2) by (simp add: split_once_Some)
  with assms(1) obtain ip n where ip: "parse_ip a = Some ip" and n: "n \<le> ip_width ip" and c: "c = IpCidr (mask_ip ip n) n"
    by (auto simp: cidr_parse_def split: option.splits if_splits)
  show ?thesis
  proof (cases ip)
    case (V4 x)
    with n have "n \<le> 32" by (simp add: ip_width_def)
    with prefix_mask_eq_iff [of n _ x] show ?thesis
      by (auto simp: ip c V4 cidr_contains_def mask_ip_def ip_width_def)
  next
    case (V6 x)
    with n have "n \<le> 128" by (simp add: ip_width_def)
    with prefix_mask_eq_iff [of n _ x] show ?thesis
      by (auto simp: ip c V6 cidr_contains_def mask_ip_def ip_width_def)
  qed
qed

theorem cidr_matches_prefix_witness:
  "cidr_parse ''10.1.2.9/24'' = Inr (IpCidr (V4 0x0A010200) 24)
   \<and> cidr_contains (IpCidr (V4 0x0A010200) 24) (V4 0x0A010263) \<and> \<not> cidr_contains (IpCidr (V4 0x0A010200) 24) (V6 1)"
proof -
  have p: "cidr_parse (''10.1.2.9'' @ ''/'' @ ''24'') = Inr (IpCidr (V4 0x0A010200) 24)" by code_simp
  have "cidr_contains (IpCidr (V4 0x0A010200) 24) (V4 0x0A010263)" by code_simp
  with cidr_matches_prefix [OF p] p show ?thesis by (auto split: option.splits ip_addr.splits simp: cidr_contains_def)
qed

end
