(* ===== verification/Store.thy ===== *)
theory Store
  imports Raft_Node Kv Claims Manifests
begin

text \<open>
  The durable state of a node, \<^verbatim>\<open>crates/rf/src/store.rs\<close>.  Each table of the embedded
  database is a sorted map from strings; a write is one committed insertion or
  removal.  The values are the decoded records: the byte codecs and disk errors
  are outside the model.  Keys are composed as in the code, with a NUL between
  the parts and sequence numbers padded to twenty digits.
\<close>

section \<open>Tables\<close>

record store =
  st_manifests :: "(string, envelope) btree_map"
  st_log :: "(string, envelope) btree_map"
  st_claims :: "(string, envelope) btree_map"
  st_kv :: "(string, kv_entry) btree_map"
  st_d1_meta :: "(string, nat \<times> public_id option \<times> nat \<times> nat) btree_map"
  st_d1_log :: "(string, entry) btree_map"
  st_credentials :: "(string, u64) btree_map"

definition store_new :: store where
  "store_new = \<lparr>st_manifests = [], st_log = [], st_claims = [], st_kv = [], st_d1_meta = [], st_d1_log = [],
     st_credentials = []\<rparr>"

definition NUL :: char where "NUL = CHR 0x00"
definition SOH :: char where "SOH = CHR 0x01"

definition pad20 :: "nat \<Rightarrow> string" where
  "pad20 n = replicate (20 - length (show_nat n)) (CHR ''0'') @ show_nat n"

text \<open>\<open>range(a..b)\<close> and \<open>range(a..)\<close> of a table, and removal of a list of keys.\<close>

definition rows_between :: "string \<Rightarrow> string \<Rightarrow> (string, 'v) btree_map \<Rightarrow> (string \<times> 'v) list" where
  "rows_between a b t = filter (\<lambda>(k, _). a \<le> k \<and> k < b) t"

definition remove_keys :: "string list \<Rightarrow> (string, 'v) btree_map \<Rightarrow> (string, 'v) btree_map" where
  "remove_keys ks t = filter (\<lambda>(k, _). k \<notin> set ks) t"

section \<open>Manifests, claims and key-value entries\<close>

definition put_manifest :: "store \<Rightarrow> string \<Rightarrow> envelope \<Rightarrow> store" where
  "put_manifest s name env = s\<lparr>st_manifests := bt_insert name env (st_manifests s)\<rparr>"

definition load_manifests :: "store \<Rightarrow> envelope list" where
  "load_manifests s = map snd (st_manifests s)"

definition log_key :: "string \<Rightarrow> u64 \<Rightarrow> string" where
  "log_key name version = name @ NUL # pad20 (unat version)"

definition put_log :: "store \<Rightarrow> string \<Rightarrow> u64 \<Rightarrow> envelope \<Rightarrow> store" where
  "put_log s name version env = s\<lparr>st_log := bt_insert (log_key name version) env (st_log s)\<rparr>"

definition load_log :: "store \<Rightarrow> string \<Rightarrow> envelope list" where
  "load_log s name =
     (let p = name @ [NUL]
      in map snd (takeWhile (\<lambda>(k, _). starts_with k p) (filter (\<lambda>(k, _). p \<le> k) (st_log s))))"

definition claim_key :: "string \<Rightarrow> string \<Rightarrow> string" where
  "claim_key task holder_hex = task @ NUL # holder_hex"

definition put_claim :: "store \<Rightarrow> string \<Rightarrow> string \<Rightarrow> envelope \<Rightarrow> store" where
  "put_claim s task holder_hex env = s\<lparr>st_claims := bt_insert (claim_key task holder_hex) env (st_claims s)\<rparr>"

definition delete_claim :: "store \<Rightarrow> string \<Rightarrow> string \<Rightarrow> store" where
  "delete_claim s task holder_hex = s\<lparr>st_claims := remove_keys [claim_key task holder_hex] (st_claims s)\<rparr>"

definition load_claims :: "store \<Rightarrow> envelope list" where
  "load_claims s = map snd (st_claims s)"

definition kv_key :: "string \<Rightarrow> string \<Rightarrow> string" where
  "kv_key ns key = ns @ NUL # key"

definition put_kv :: "store \<Rightarrow> string \<Rightarrow> string \<Rightarrow> kv_entry \<Rightarrow> store" where
  "put_kv s ns key e = s\<lparr>st_kv := bt_insert (kv_key ns key) e (st_kv s)\<rparr>"

definition delete_kv :: "store \<Rightarrow> string \<Rightarrow> string \<Rightarrow> store" where
  "delete_kv s ns key = s\<lparr>st_kv := remove_keys [kv_key ns key] (st_kv s)\<rparr>"

fun split_rows :: "(string \<times> kv_entry) list \<Rightarrow> (string \<times> string \<times> kv_entry) list option" where
  "split_rows [] = Some []"
| "split_rows ((raw, e) # rows) =
     (case split_once NUL raw of
        None \<Rightarrow> None
      | Some (ns, key) \<Rightarrow> map_option (\<lambda>out. (ns, key, e) # out) (split_rows rows))"

definition load_kv :: "store \<Rightarrow> (string \<times> string \<times> kv_entry) list option" where
  "load_kv s = split_rows (st_kv s)"

section \<open>Replicated databases\<close>

definition put_d1_meta :: "store \<Rightarrow> string \<Rightarrow> nat \<Rightarrow> public_id option \<Rightarrow> nat \<Rightarrow> nat \<Rightarrow> store" where
  "put_d1_meta s name ep vf bs be = s\<lparr>st_d1_meta := bt_insert name (ep, vf, bs, be) (st_d1_meta s)\<rparr>"

definition load_d1_meta :: "store \<Rightarrow> string \<Rightarrow> nat \<times> public_id option \<times> nat \<times> nat" where
  "load_d1_meta s name = (case map_of (st_d1_meta s) name of Some v \<Rightarrow> v | None \<Rightarrow> (0, None, 0, 0))"

definition d1_log_key :: "string \<Rightarrow> nat \<Rightarrow> string" where
  "d1_log_key name seq = name @ NUL # pad20 seq"

definition put_d1_log :: "store \<Rightarrow> string \<Rightarrow> nat \<Rightarrow> entry list \<Rightarrow> store" where
  "put_d1_log s name from_seq tail =
     (let stale = map fst (rows_between (d1_log_key name from_seq) (name @ [SOH]) (st_d1_log s))
      in s\<lparr>st_d1_log := fold (\<lambda>e t. bt_insert (d1_log_key name (en_seq e)) e t) tail (remove_keys stale (st_d1_log s))\<rparr>)"

definition load_d1_log :: "store \<Rightarrow> string \<Rightarrow> entry list" where
  "load_d1_log s name = map snd (rows_between (name @ [NUL]) (name @ [SOH]) (st_d1_log s))"

definition compact_d1_log :: "store \<Rightarrow> string \<Rightarrow> nat \<Rightarrow> store" where
  "compact_d1_log s name upto_seq =
     (let stale = map fst (rows_between (name @ [NUL]) (d1_log_key name (upto_seq + 1)) (st_d1_log s))
      in s\<lparr>st_d1_log := remove_keys stale (st_d1_log s)\<rparr>)"

section \<open>Credentials\<close>

definition touch_credential :: "store \<Rightarrow> string \<Rightarrow> u64 \<Rightarrow> store" where
  "touch_credential s ident at_ms =
     (let previous = (case map_of (st_credentials s) ident of Some v \<Rightarrow> v | None \<Rightarrow> 0)
      in if previous < at_ms then s\<lparr>st_credentials := bt_insert ident at_ms (st_credentials s)\<rparr> else s)"

definition credential_last_used :: "store \<Rightarrow> string \<Rightarrow> u64 option" where
  "credential_last_used s ident = map_of (st_credentials s) ident"

section \<open>Order of the keys\<close>

fun dec_digits :: "nat \<Rightarrow> nat \<Rightarrow> string" where
  "dec_digits 0 n = []"
| "dec_digits (Suc k) n = dec_digits k (n div 10) @ [char_of (48 + n mod 10)]"

lemma length_dec_digits [simp]: "length (dec_digits k n) = k"
  by (induction k arbitrary: n) auto

lemma char_zero: "char_of (48 :: nat) = CHR ''0''"
  by code_simp

lemma dec_digits_zero: "dec_digits k 0 = replicate k (CHR ''0'')"
  by (induction k) (auto simp: char_zero replicate_append_same [symmetric])

lemma dec_digits_show:
  "n < 10 ^ k \<Longrightarrow> 0 < k \<Longrightarrow> dec_digits k n = replicate (k - length (show_nat n)) (CHR ''0'') @ show_nat n \<and> length (show_nat n) \<le> k"
proof (induction k arbitrary: n)
  case (Suc k)
  show ?case
  proof (cases "n < 10")
    case True
    then have "show_nat n = [char_of (48 + n)]" by (subst show_nat.simps) simp
    with True show ?thesis by (simp add: dec_digits_zero)
  next
    case False
    then have s: "show_nat n = show_nat (n div 10) @ [char_of (48 + n mod 10)]" by (subst show_nat.simps) simp
    from Suc.prems have "n div 10 < 10 ^ k" by auto
    moreover from this False have "0 < k" by (cases k) auto
    ultimately show ?thesis using Suc.IH [of "n div 10"] s by auto
  qed
qed simp

lemma pad20_digits: "n < 10 ^ 20 \<Longrightarrow> pad20 n = dec_digits 20 n"
  using dec_digits_show [of n 20] by (simp add: pad20_def)

lemma list_less_append: "xs < ys \<Longrightarrow> length xs = length ys \<Longrightarrow> xs @ us < ys @ vs"
  for xs ys :: "'a::order list"
  unfolding list_less_def by (rule lexord_sufI) simp_all

lemma char_digit_less: "a < b \<Longrightarrow> b < 10 \<Longrightarrow> char_of (48 + a) < (char_of (48 + b) :: char)"
  for a b :: nat
  by (simp add: less_char_def)

lemma dec_digits_mono: "n < m \<Longrightarrow> m < 10 ^ k \<Longrightarrow> dec_digits k n < dec_digits k m"
proof (induction k arbitrary: n m)
  case (Suc k)
  show ?case
  proof (cases "n div 10 < m div 10")
    case True
    from Suc.prems(2) have "m div 10 < 10 ^ k" by auto
    from list_less_append [OF Suc.IH [OF True this]] show ?thesis by simp
  next
    case False
    with Suc.prems(1) have d: "n div 10 = m div 10" by (metis div_le_mono le_antisym less_imp_le not_less)
    with Suc.prems(1) have "n mod 10 < m mod 10" by (metis div_mult_mod_eq nat_add_left_cancel_less)
    then have "char_of (48 + n mod 10) < (char_of (48 + m mod 10) :: char)" by (rule char_digit_less) simp
    with d show ?thesis by (simp add: list_less_def lexord_append_leftI)
  qed
qed simp

lemma pad20_less: "n < m \<Longrightarrow> m < 10 ^ 20 \<Longrightarrow> pad20 n < pad20 m"
  using dec_digits_mono [of n m 20] by (simp add: pad20_digits)

lemma pad20_less_iff: "n < 10 ^ 20 \<Longrightarrow> m < 10 ^ 20 \<Longrightarrow> pad20 n < pad20 m \<longleftrightarrow> n < m"
  using pad20_less [of n m] pad20_less [of m n] by (metis less_asym less_linear)
lemma append_less_append [simp]: "xs @ ys < xs @ zs \<longleftrightarrow> ys < zs"
  for ys :: "string"
  by (induction xs) simp_all

lemma append_le_append [simp]: "xs @ ys \<le> xs @ zs \<longleftrightarrow> ys \<le> zs"
  for ys :: "string"
  by (induction xs) simp_all

lemma below_SOH: "c < SOH \<longleftrightarrow> c = NUL"
proof -
  have "c < SOH \<longleftrightarrow> code c < 1" by (simp add: SOH_def less_char_def)
  also have "\<dots> \<longleftrightarrow> code c = code NUL" by (simp add: NUL_def)
  finally show ?thesis by simp
qed

lemma NUL_least: "NUL \<le> c"
  by (simp add: NUL_def less_eq_char_def)

text \<open>The rows between \<open>name NUL\<close> and \<open>name SOH\<close> are the ones whose key starts with \<open>name NUL\<close>.\<close>

lemma prefix_range: "name @ [NUL] \<le> k \<and> k < name @ [SOH] \<longleftrightarrow> prefix (name @ [NUL]) k"
proof (induction name arbitrary: k)
  case Nil
  show ?case
  proof (cases k)
    case (Cons c r)
    have "NUL \<le> c" by (rule NUL_least)
    then show ?thesis using below_SOH [of c] by (auto simp: Cons NUL_def SOH_def)
  qed simp
next
  case (Cons a name)
  show ?case
  proof (cases k)
    case Nil
    then show ?thesis by simp
  next
    case (Cons c r)
    then show ?thesis using Cons.IH [of r] by auto
  qed
qed

lemma key_unique:
  assumes "NUL \<notin> set a" and "NUL \<notin> set b"
  shows "a @ NUL # x = b @ NUL # y \<longleftrightarrow> a = b \<and> x = y"
proof
  assume e: "a @ NUL # x = b @ NUL # y"
  have s: "split_once NUL (a @ NUL # x) = Some (a, x)" "split_once NUL (b @ NUL # y) = Some (b, y)"
    using assms by (simp_all add: split_once_Some)
  have "Some (a, x) = Some (b, y)" unfolding s [symmetric] e by (rule refl)
  then show "a = b \<and> x = y" by simp
qed simp

section \<open>The stored log\<close>

definition own_rows :: "string \<Rightarrow> (string, 'v) btree_map \<Rightarrow> (string, 'v) btree_map" where
  "own_rows name t = filter (\<lambda>(k, _). prefix (name @ [NUL]) k) t"

lemma load_d1_rows: "load_d1_log s name = map snd (own_rows name (st_d1_log s))"
  by (simp add: load_d1_log_def rows_between_def own_rows_def prefix_range)

text \<open>Every row is an entry under the key of its database and sequence number.\<close>

definition d1_rows_ok :: "(string, entry) btree_map \<Rightarrow> bool" where
  "d1_rows_ok t \<longleftrightarrow> bt_ok t \<and>
     (\<forall>(k, e) \<in> set t. en_seq e < 10 ^ 20 \<and> (\<exists>name. NUL \<notin> set name \<and> k = d1_log_key name (en_seq e)))"

lemma own_row_key:
  assumes "d1_rows_ok t" and "NUL \<notin> set name" and "(k, e) \<in> set (own_rows name t)"
  shows "k = d1_log_key name (en_seq e)" and "en_seq e < 10 ^ 20"
proof -
  from assms(3) have m: "(k, e) \<in> set t" and p: "prefix (name @ [NUL]) k" by (auto simp: own_rows_def)
  with assms(1) obtain other where o: "NUL \<notin> set other" "k = d1_log_key other (en_seq e)" and b: "en_seq e < 10 ^ 20"
    by (fastforce simp: d1_rows_ok_def)
  from p obtain r where "k = name @ NUL # r" by (auto simp: prefix_def)
  with o assms(2) have "other = name" by (simp add: d1_log_key_def key_unique)
  with o b show "k = d1_log_key name (en_seq e)" "en_seq e < 10 ^ 20" by simp_all
qed

lemma d1_key_less:
  "n < 10 ^ 20 \<Longrightarrow> m < 10 ^ 20 \<Longrightarrow> d1_log_key name n < d1_log_key name m \<longleftrightarrow> n < m"
  by (simp add: d1_log_key_def pad20_less_iff)

lemma own_rows_key: "prefix (name @ [NUL]) (d1_log_key name n)"
  by (simp add: d1_log_key_def prefix_def)

lemma own_rows_other:
  assumes "NUL \<notin> set name" and "NUL \<notin> set other" and "name \<noteq> other"
  shows "\<not> prefix (name @ [NUL]) (d1_log_key other n)"
  using key_unique [OF assms(2,1)] assms(3) by (auto simp: d1_log_key_def prefix_def)

lemma own_rows_remove: "own_rows name (remove_keys ks t) = filter (\<lambda>(k, _). k \<notin> set ks) (own_rows name t)"
  by (simp add: own_rows_def remove_keys_def conj_commute case_prod_unfold)

lemma bt_ok_remove: "bt_ok t \<Longrightarrow> bt_ok (remove_keys ks t)"
  by (simp add: remove_keys_def bt_ok_filter)

text \<open>Inserting above all rows of the database appends to them.\<close>

lemma own_rows_insert_above:
  assumes "bt_ok t" and "prefix (name @ [NUL]) k" and "\<And>k' v. (k', v) \<in> set (own_rows name t) \<Longrightarrow> k' < k"
  shows "own_rows name (bt_insert k e t) = own_rows name t @ [(k, e)]"
proof -
  have "own_rows name (dropWhile (\<lambda>p. fst p \<le> k) t) = []"
  proof -
    have "k < fst p" if "p \<in> set (dropWhile (\<lambda>p. fst p \<le> k) t)" for p
      using that assms(1)
    proof (induction t)
      case (Cons q t)
      then show ?case by (cases q) (auto split: if_splits)
    qed simp
    moreover have "set (dropWhile (\<lambda>p. fst p \<le> k) t) \<subseteq> set t" by (rule set_dropWhileD [THEN subsetI])
    ultimately show ?thesis using assms(3) by (fastforce simp: own_rows_def filter_empty_conv)
  qed
  moreover have "own_rows name (dropWhile (\<lambda>p. fst p < k) t) = []"
  proof -
    have "k \<le> fst p" if "p \<in> set (dropWhile (\<lambda>p. fst p < k) t)" for p
      using that assms(1)
    proof (induction t)
      case (Cons q t)
      then show ?case by (cases q) (auto split: if_splits dest: less_imp_le)
    qed simp
    moreover have "set (dropWhile (\<lambda>p. fst p < k) t) \<subseteq> set t" by (rule set_dropWhileD [THEN subsetI])
    ultimately show ?thesis using assms(3) by (fastforce simp: own_rows_def filter_empty_conv)
  qed
  then have "own_rows name t = own_rows name (takeWhile (\<lambda>p. fst p < k) t)"
    by (metis append.right_neutral filter_append own_rows_def takeWhile_dropWhile_id)
  ultimately show ?thesis using assms(2) by (simp add: bt_insert_def own_rows_def)
qed

lemma own_rows_insert_other:
  assumes "bt_ok t" and "\<not> prefix (name @ [NUL]) k"
  shows "own_rows name (bt_insert k e t) = own_rows name t"
proof (rule bt_set_determines)
  show "bt_ok (own_rows name (bt_insert k e t))" "bt_ok (own_rows name t)"
    using assms(1) by (simp_all add: own_rows_def bt_ok_filter bt_ok_insert)
  show "set (own_rows name (bt_insert k e t)) = set (own_rows name t)"
    using assms by (auto simp: own_rows_def set_bt_insert)
qed

lemma d1_rows_ok_insert:
  "d1_rows_ok t \<Longrightarrow> NUL \<notin> set name \<Longrightarrow> en_seq e < 10 ^ 20 \<Longrightarrow> d1_rows_ok (bt_insert (d1_log_key name (en_seq e)) e t)"
  by (auto simp: d1_rows_ok_def set_bt_insert bt_ok_insert)

lemma d1_rows_ok_remove: "d1_rows_ok t \<Longrightarrow> d1_rows_ok (remove_keys ks t)"
  by (auto simp: d1_rows_ok_def bt_ok_remove) (auto simp: remove_keys_def)

lemma run_from_upper: "run_from p es \<Longrightarrow> e \<in> set es \<Longrightarrow> p < en_seq e \<and> en_seq e \<le> p + length es"
proof (induction es arbitrary: p)
  case (Cons a es)
  then show ?case by (auto simp: run_from_simps dest!: Cons.IH)
qed simp

lemma d1_inserts:
  assumes "d1_rows_ok t" and "NUL \<notin> set name" and "run_from p tail" and "p + length tail < 10 ^ 20"
    and "\<forall>(k, e) \<in> set (own_rows name t). en_seq e \<le> p"
  shows "d1_rows_ok (fold (\<lambda>e t. bt_insert (d1_log_key name (en_seq e)) e t) tail t)
    \<and> own_rows name (fold (\<lambda>e t. bt_insert (d1_log_key name (en_seq e)) e t) tail t)
      = own_rows name t @ map (\<lambda>e. (d1_log_key name (en_seq e), e)) tail
    \<and> (\<forall>other. NUL \<notin> set other \<and> other \<noteq> name \<longrightarrow>
         own_rows other (fold (\<lambda>e t. bt_insert (d1_log_key name (en_seq e)) e t) tail t) = own_rows other t)"
  using assms
proof (induction tail arbitrary: t p)
  case (Cons a tail)
  let ?k = "d1_log_key name (en_seq a)" and ?t = "bt_insert (d1_log_key name (en_seq a)) a t"
  from Cons.prems(3) have a: "en_seq a = Suc p" and r: "run_from (Suc p) tail" by (simp_all add: run_from_simps)
  from Cons.prems(4) a have b: "en_seq a < 10 ^ 20" by simp
  have bt: "bt_ok t" using Cons.prems(1) by (simp add: d1_rows_ok_def)
  have "own_rows name ?t = own_rows name t @ [(?k, a)]"
  proof (rule own_rows_insert_above [OF bt own_rows_key])
    fix k e
    assume m: "(k, e) \<in> set (own_rows name t)"
    from own_row_key [OF Cons.prems(1,2) m] Cons.prems(5) m a b show "k < ?k" by (auto simp: d1_key_less)
  qed
  moreover have "own_rows other ?t = own_rows other t" if "NUL \<notin> set other" "other \<noteq> name" for other
    using own_rows_insert_other [OF bt own_rows_other [OF that(1) Cons.prems(2) that(2)]] .
  moreover have "d1_rows_ok ?t" by (rule d1_rows_ok_insert [OF Cons.prems(1,2) b])
  moreover have "Suc p + length tail < 10 ^ 20" using Cons.prems(4) by simp
  moreover have "\<forall>(k, e) \<in> set (own_rows name t @ [(?k, a)]). en_seq e \<le> Suc p"
    using Cons.prems(5) a by (fastforce simp: le_SucI)
  ultimately show ?case using Cons.IH [of ?t "Suc p"] Cons.prems(2) r by simp
qed simp

definition d1_store_ok :: "store \<Rightarrow> bool" where
  "d1_store_ok s \<longleftrightarrow> d1_rows_ok (st_d1_log s) \<and> bt_ok (st_d1_meta s)"

lemma stale_rows:
  assumes "d1_rows_ok t" and "NUL \<notin> set name" and "n < 10 ^ 20"
  shows "own_rows name (remove_keys (map fst (rows_between (d1_log_key name n) (name @ [SOH]) t)) t)
    = filter (\<lambda>(_, e). en_seq e < n) (own_rows name t)"
    and "\<And>other. NUL \<notin> set other \<Longrightarrow> other \<noteq> name \<Longrightarrow>
      own_rows other (remove_keys (map fst (rows_between (d1_log_key name n) (name @ [SOH]) t)) t) = own_rows other t"
proof -
  let ?ks = "map fst (rows_between (d1_log_key name n) (name @ [SOH]) t)"
  have le: "name @ [NUL] \<le> d1_log_key name n" by (simp add: d1_log_key_def)
  have ks: "k \<in> set ?ks \<longleftrightarrow> (\<exists>e. (k, e) \<in> set (own_rows name t) \<and> d1_log_key name n \<le> k)" for k
    using le prefix_range [of name k] by (auto simp: rows_between_def own_rows_def image_iff Bex_def)
  have "(k \<notin> set ?ks) = (en_seq e < n)" if "(k, e) \<in> set (own_rows name t)" for k e
  proof -
    note k = own_row_key [OF assms(1,2) that]
    have "k \<in> set ?ks \<longleftrightarrow> d1_log_key name n \<le> k" using ks that by blast
    also have "\<dots> \<longleftrightarrow> \<not> en_seq e < n" using d1_key_less [OF k(2) assms(3), of name] k(1) by auto
    finally show ?thesis by simp
  qed
  then show "own_rows name (remove_keys ?ks t) = filter (\<lambda>(_, e). en_seq e < n) (own_rows name t)"
    unfolding own_rows_remove by (intro filter_cong) auto
  fix other
  assume o: "NUL \<notin> set other" "other \<noteq> name"
  have "k \<notin> set ?ks" if m: "(k, e) \<in> set (own_rows other t)" for k e
  proof
    assume "k \<in> set ?ks"
    with ks obtain e' where "(k, e') \<in> set (own_rows name t)" by blast
    then have "prefix (name @ [NUL]) k" by (auto simp: own_rows_def)
    with own_row_key(1) [OF assms(1) o(1) m] own_rows_other [OF assms(2) o(1)] o(2) show False by simp
  qed
  then show "own_rows other (remove_keys ?ks t) = own_rows other t"
    unfolding own_rows_remove by (intro filter_True) auto
qed

lemma put_d1_log_spec:
  assumes "d1_store_ok s" and "NUL \<notin> set name" and "run_from p tail" and "p + length tail + 1 < 10 ^ 20"
  shows "load_d1_log (put_d1_log s name (p + 1) tail) name = filter (\<lambda>e. en_seq e \<le> p) (load_d1_log s name) @ tail"
    and "d1_store_ok (put_d1_log s name (p + 1) tail)"
    and "\<And>other. NUL \<notin> set other \<Longrightarrow> other \<noteq> name \<Longrightarrow> load_d1_log (put_d1_log s name (p + 1) tail) other = load_d1_log s other"
proof -
  have t: "d1_rows_ok (st_d1_log s)" using assms(1) by (simp add: d1_store_ok_def)
  have p: "p + 1 < 10 ^ 20" "p + length tail < 10 ^ 20" using assms(4) by simp_all
  define u where "u = remove_keys (map fst (rows_between (d1_log_key name (p + 1)) (name @ [SOH]) (st_d1_log s))) (st_d1_log s)"
  note stale = stale_rows [OF t assms(2) p(1), folded u_def]
  have u: "d1_rows_ok u" unfolding u_def by (rule d1_rows_ok_remove [OF t])
  have "\<forall>(k, e) \<in> set (own_rows name u). en_seq e \<le> p" unfolding stale(1) by auto
  from d1_inserts [OF u assms(2,3) p(2) this] have ins: "d1_rows_ok (fold (\<lambda>e t. bt_insert (d1_log_key name (en_seq e)) e t) tail u)"
    "own_rows name (fold (\<lambda>e t. bt_insert (d1_log_key name (en_seq e)) e t) tail u)
      = own_rows name u @ map (\<lambda>e. (d1_log_key name (en_seq e), e)) tail"
    "\<And>other. NUL \<notin> set other \<Longrightarrow> other \<noteq> name \<Longrightarrow>
       own_rows other (fold (\<lambda>e t. bt_insert (d1_log_key name (en_seq e)) e t) tail u) = own_rows other u"
    by blast+
  have l: "st_d1_log (put_d1_log s name (p + 1) tail) = fold (\<lambda>e t. bt_insert (d1_log_key name (en_seq e)) e t) tail u"
    by (simp add: put_d1_log_def u_def Let_def)
  have own: "own_rows name (st_d1_log (put_d1_log s name (p + 1) tail))
      = filter (\<lambda>(_, e). en_seq e < p + 1) (own_rows name (st_d1_log s)) @ map (\<lambda>e. (d1_log_key name (en_seq e), e)) tail"
    unfolding l stale(1) [symmetric] by (rule ins(2))
  show "load_d1_log (put_d1_log s name (p + 1) tail) name = filter (\<lambda>e. en_seq e \<le> p) (load_d1_log s name) @ tail"
    unfolding load_d1_rows own by (simp add: filter_map o_def case_prod_unfold less_Suc_eq_le)
  have "st_d1_meta (put_d1_log s name (p + 1) tail) = st_d1_meta s" by (simp add: put_d1_log_def Let_def)
  then show "d1_store_ok (put_d1_log s name (p + 1) tail)"
    using ins(1) assms(1) unfolding d1_store_ok_def l by simp
  show "load_d1_log (put_d1_log s name (p + 1) tail) other = load_d1_log s other" if "NUL \<notin> set other" "other \<noteq> name" for other
    unfolding load_d1_rows l ins(3) [OF that] stale(2) [OF that] by (rule refl)
qed

lemma compact_d1_log_spec:
  assumes "d1_store_ok s" and "NUL \<notin> set name" and "n + 1 < 10 ^ 20"
  shows "load_d1_log (compact_d1_log s name n) name = filter (\<lambda>e. n < en_seq e) (load_d1_log s name)"
    and "d1_store_ok (compact_d1_log s name n)"
proof -
  let ?t = "st_d1_log s"
  let ?ks = "map fst (rows_between (name @ [NUL]) (d1_log_key name (n + 1)) ?t)"
  have t: "d1_rows_ok ?t" using assms(1) by (simp add: d1_store_ok_def)
  have up: "d1_log_key name (n + 1) < name @ [SOH]" by (simp add: d1_log_key_def NUL_def SOH_def)
  have ks: "k \<in> set ?ks \<longleftrightarrow> (\<exists>e. (k, e) \<in> set (own_rows name ?t) \<and> k < d1_log_key name (n + 1))" for k
    using up prefix_range [of name k] by (auto simp: rows_between_def own_rows_def image_iff Bex_def)
  have "(k \<notin> set ?ks) = (n < en_seq e)" if m: "(k, e) \<in> set (own_rows name ?t)" for k e
  proof -
    note k = own_row_key [OF t assms(2) m]
    have "k \<in> set ?ks \<longleftrightarrow> k < d1_log_key name (n + 1)" using ks m by blast
    also have "\<dots> \<longleftrightarrow> en_seq e < n + 1" using d1_key_less [OF k(2) assms(3), of name] k(1) by simp
    finally show ?thesis by auto
  qed
  then have "own_rows name (remove_keys ?ks ?t) = filter (\<lambda>(_, e). n < en_seq e) (own_rows name ?t)"
    unfolding own_rows_remove by (intro filter_cong) auto
  then show "load_d1_log (compact_d1_log s name n) name = filter (\<lambda>e. n < en_seq e) (load_d1_log s name)"
    by (simp add: load_d1_rows compact_d1_log_def Let_def filter_map o_def case_prod_unfold)
  show "d1_store_ok (compact_d1_log s name n)"
    using d1_rows_ok_remove [OF t] assms(1) by (simp add: d1_store_ok_def compact_d1_log_def Let_def)
qed

end
