(* ===== verification/D1_Driver.thy ===== *)
theory D1_Driver
  imports Store
begin

text \<open>
  The driver that runs one replica of a D1 database
  (\<^verbatim>\<open>crates/rf/src/d1.rs\<close>): it feeds requests, messages and timer ticks to the
  Raft member, carries out the actions the member returns against the node's
  store, the SQLite file and the network, answers the proposers, and comes back
  after a crash from what it persisted.  SQLite and the JSON encoding of a
  command are fields of \<open>d1_env\<close>; file errors are not modelled.
\<close>

section \<open>Data\<close>

type_synonym json = string

record statement =
  sm_sql :: string
  sm_params :: "json list"

record cmd =
  cm_sql :: string
  cm_params :: "json list"
  cm_statements :: "statement list"
  cm_tag :: nat

record statement_result =
  sr_rows :: "json list option"
  sr_rows_affected :: "nat option"

record exec_result =
  xr_rows :: "json list option"
  xr_rows_affected :: "nat option"
  xr_batch :: "statement_result list option"
  xr_leader_hint :: "string option"

datatype d1_error = CmdDecode | SqlError | BatchSize | BadStatement

type_synonym reply = "d1_error + exec_result"

text \<open>
  What the driver uses of the outside: SQLite's compiler (\<open>None\<close> when a statement
  does not compile), its two ways of running a statement (\<open>None\<close> on an error),
  the bytes of a database file with its applied marker, the JSON codec of a
  command, the address book and the configuration.
\<close>

record 'db d1_env =
  sq_readonly :: "'db \<Rightarrow> string \<Rightarrow> bool option"
  sq_columns :: "'db \<Rightarrow> string \<Rightarrow> nat"
  sq_query :: "'db \<Rightarrow> string \<Rightarrow> json list \<Rightarrow> ('db \<times> json list) option"
  sq_execute :: "'db \<Rightarrow> string \<Rightarrow> json list \<Rightarrow> ('db \<times> nat) option"
  sq_file :: "'db \<times> nat \<Rightarrow> bytes"
  sq_open :: "bytes \<Rightarrow> 'db"
  enc_cmd :: "cmd \<Rightarrow> bytes"
  dec_cmd :: "bytes \<Rightarrow> cmd option"
  api_addr :: "public_id \<Rightarrow> string option"
  compact_threshold :: nat
  keep_tail :: nat

text \<open>
  The driver.  \<open>dv_marker\<close> is the row of \<open>_rf_applied\<close> in the SQLite file, written
  in the transaction of the statement it belongs to; \<open>dv_sent\<close> and \<open>dv_replies\<close>
  collect what went out.  A responder is identified by a number.
\<close>

record 'db driver =
  dv_name :: string
  dv_raft :: raft
  dv_store :: store
  dv_sql :: 'db
  dv_marker :: nat
  dv_pending :: "(nat \<times> nat) list"
  dv_my_entries :: "(nat \<times> nat) list"
  dv_leaders :: "(string \<times> public_id) list"
  dv_sent :: "(public_id \<times> msg) list"
  dv_replies :: "(nat \<times> reply) list"

datatype driver_cmd =
    Net public_id msg
  | Exec string "json list" nat nat
  | Batch "statement list" nat nat
  | Timer bool

section \<open>Statements\<close>

text \<open>\<open>read_prepared_rows\<close> gives up after ten thousand rows.\<close>

definition read_prepared_rows :: "'db d1_env \<Rightarrow> 'db \<Rightarrow> string \<Rightarrow> json list \<Rightarrow> ('db \<times> json list) option" where
  "read_prepared_rows E db sql params =
     (case sq_query E db sql params of
        None \<Rightarrow> None
      | Some (db', rows) \<Rightarrow> if int (length rows) > 10000 then None else Some (db', rows))"

definition run_statement :: "'db d1_env \<Rightarrow> 'db \<Rightarrow> statement \<Rightarrow> ('db \<times> statement_result) option" where
  "run_statement E db s =
     (case sq_readonly E db (sm_sql s) of
        None \<Rightarrow> None
      | Some readonly \<Rightarrow>
          if readonly \<or> sq_columns E db (sm_sql s) > 0
          then map_option (\<lambda>(db', rows). (db', \<lparr>sr_rows = Some rows, sr_rows_affected = None\<rparr>))
                 (read_prepared_rows E db (sm_sql s) (sm_params s))
          else map_option (\<lambda>(db', n). (db', \<lparr>sr_rows = None, sr_rows_affected = Some n\<rparr>))
                 (sq_execute E db (sm_sql s) (sm_params s)))"

fun run_statements :: "'db d1_env \<Rightarrow> 'db \<Rightarrow> statement list \<Rightarrow> ('db \<times> statement_result list) option" where
  "run_statements E db [] = Some (db, [])"
| "run_statements E db (s # ss) =
     (case run_statement E db s of
        None \<Rightarrow> None
      | Some (db1, r) \<Rightarrow> map_option (\<lambda>(db2, rs). (db2, r # rs)) (run_statements E db1 ss))"

definition is_read :: "'db d1_env \<Rightarrow> 'db \<Rightarrow> string \<Rightarrow> bool option" where
  "is_read E db sql = sq_readonly E db sql"

definition run_query :: "'db d1_env \<Rightarrow> 'db \<Rightarrow> string \<Rightarrow> json list \<Rightarrow> reply" where
  "run_query E db sql params =
     (case sq_readonly E db sql of
        None \<Rightarrow> Inl SqlError
      | Some _ \<Rightarrow>
          (case read_prepared_rows E db sql params of
             None \<Rightarrow> Inl SqlError
           | Some (_, rows) \<Rightarrow>
               Inr \<lparr>xr_rows = Some rows, xr_rows_affected = None, xr_batch = None, xr_leader_hint = None\<rparr>))"

section \<open>Applying committed entries\<close>

definition cmd_statements :: "cmd \<Rightarrow> statement list" where
  "cmd_statements c =
     (if cm_statements c \<noteq> [] then cm_statements c else [\<lparr>sm_sql = cm_sql c, sm_params = cm_params c\<rparr>])"

text \<open>The transaction of \<open>apply\<close>: all statements and the marker, or nothing.\<close>

definition apply_tx :: "'db d1_env \<Rightarrow> 'db \<times> nat \<Rightarrow> entry \<Rightarrow> ('db \<times> nat) \<times> (d1_error + bool \<times> statement_result list)" where
  "apply_tx E st e =
     (case dec_cmd E (en_cmd e) of
        None \<Rightarrow> (st, Inl CmdDecode)
      | Some c \<Rightarrow>
          (case run_statements E (fst st) (cmd_statements c) of
             None \<Rightarrow> (st, Inl SqlError)
           | Some (db', results) \<Rightarrow> ((db', en_seq e), Inr (cm_statements c \<noteq> [], results))))"

definition apply_reply :: "d1_error + bool \<times> statement_result list \<Rightarrow> reply" where
  "apply_reply result =
     (case result of
        Inl err \<Rightarrow> Inl err
      | Inr (is_batch, results) \<Rightarrow>
          if is_batch then
            Inr \<lparr>xr_rows = None,
                 xr_rows_affected = Some (sum_list (List.map_filter sr_rows_affected results)),
                 xr_batch = Some results, xr_leader_hint = None\<rparr>
          else
            (let r = (if results = [] then \<lparr>sr_rows = None, sr_rows_affected = Some 0\<rparr> else last results)
             in Inr \<lparr>xr_rows = sr_rows r, xr_rows_affected = sr_rows_affected r,
                     xr_batch = None, xr_leader_hint = None\<rparr>))"

definition driver_apply :: "'db d1_env \<Rightarrow> entry \<Rightarrow> 'db driver \<Rightarrow> 'db driver" where
  "driver_apply E e d =
     (let ((db', mk'), result) = apply_tx E (dv_sql d, dv_marker d) e;
          d1 = d\<lparr>dv_sql := db', dv_marker := mk'\<rparr>
      in case map_of (dv_my_entries d1) (en_seq e) of
           None \<Rightarrow> d1
         | Some tag \<Rightarrow>
             (let d2 = d1\<lparr>dv_my_entries := AList.delete (en_seq e) (dv_my_entries d1)\<rparr>
              in case map_of (dv_pending d2) tag of
                   None \<Rightarrow> d2
                 | Some resp \<Rightarrow>
                     d2\<lparr>dv_pending := AList.delete tag (dv_pending d2),
                        dv_replies := dv_replies d2 @ [(resp, apply_reply result)]\<rparr>))"

section \<open>Carrying out actions\<close>

definition not_led :: "string option \<Rightarrow> reply" where
  "not_led hint = Inr \<lparr>xr_rows = None, xr_rows_affected = None, xr_batch = None, xr_leader_hint = hint\<rparr>"

definition persist_meta :: "string \<Rightarrow> raft \<Rightarrow> store \<Rightarrow> store" where
  "persist_meta name r s = put_d1_meta s name (epoch r) (voted_for r) (base_seq r) (base_epoch r)"

definition persist_log :: "string \<Rightarrow> raft \<Rightarrow> nat \<Rightarrow> store \<Rightarrow> store" where
  "persist_log name r from_seq s = put_d1_log s name from_seq (filter (\<lambda>e. en_seq e \<ge> from_seq) (log r))"

definition send_to :: "'db d1_env \<Rightarrow> public_id \<Rightarrow> msg \<Rightarrow> 'db driver \<Rightarrow> 'db driver" where
  "send_to E p m d = (case api_addr E p of None \<Rightarrow> d | Some _ \<Rightarrow> d\<lparr>dv_sent := dv_sent d @ [(p, m)]\<rparr>)"

definition install_snapshot :: "'db d1_env \<Rightarrow> nat \<Rightarrow> bytes \<Rightarrow> 'db driver \<Rightarrow> 'db driver" where
  "install_snapshot E seq data d = d\<lparr>dv_sql := sq_open E data, dv_marker := seq\<rparr>"

fun execute_one :: "'db d1_env \<Rightarrow> action \<Rightarrow> 'db driver \<Rightarrow> 'db driver" where
  "execute_one E PersistMeta d = d\<lparr>dv_store := persist_meta (dv_name d) (dv_raft d) (dv_store d)\<rparr>"
| "execute_one E (PersistLog n) d = d\<lparr>dv_store := persist_log (dv_name d) (dv_raft d) n (dv_store d)\<rparr>"
| "execute_one E (Send p m) d = send_to E p m d"
| "execute_one E (Apply e) d = driver_apply E e d"
| "execute_one E (NeedSnapshot p) d =
     send_to E p (ship_snapshot (dv_raft d) (sq_file E (dv_sql d, dv_marker d))) d"
| "execute_one E (ApplySnapshot seq data) d = install_snapshot E seq data d"
| "execute_one E BecameLeader d = d"
| "execute_one E LostLeadership d =
     d\<lparr>dv_replies := dv_replies d @ map (\<lambda>(_, resp). (resp, not_led None)) (dv_pending d),
       dv_pending := [], dv_my_entries := []\<rparr>"

definition compaction :: "'db d1_env \<Rightarrow> string \<Rightarrow> nat \<times> nat" where
  "compaction E name = (if starts_with name ''rfdo-'' then (8, 1) else (compact_threshold E, keep_tail E))"

definition maybe_compact :: "'db d1_env \<Rightarrow> 'db driver \<Rightarrow> 'db driver" where
  "maybe_compact E d =
     (let (threshold, keep) = compaction E (dv_name d) in
      if length (log (dv_raft d)) \<le> threshold then d
      else case raft_compact (dv_raft d) keep of
        (r', compacted) \<Rightarrow>
          if compacted
          then d\<lparr>dv_raft := r',
                 dv_store := persist_meta (dv_name d) r' (compact_d1_log (dv_store d) (dv_name d) (base_seq r'))\<rparr>
          else d\<lparr>dv_raft := r'\<rparr>)"

definition publish_leader :: "'db driver \<Rightarrow> 'db driver" where
  "publish_leader d =
     (case leader_hint (dv_raft d) of
        Some l \<Rightarrow> d\<lparr>dv_leaders := hm_insert (dv_name d) l (dv_leaders d)\<rparr>
      | None \<Rightarrow> d\<lparr>dv_leaders := AList.delete (dv_name d) (dv_leaders d)\<rparr>)"

definition execute :: "'db d1_env \<Rightarrow> 'db driver \<Rightarrow> action list \<Rightarrow> 'db driver" where
  "execute E d acts = publish_leader (maybe_compact E (fold (execute_one E) acts d))"

section \<open>Requests\<close>

definition leader_api_addr :: "'db d1_env \<Rightarrow> 'db driver \<Rightarrow> string option" where
  "leader_api_addr E d =
     (case leader_hint (dv_raft d) of
        None \<Rightarrow> None
      | Some hint \<Rightarrow> if hint = me (dv_raft d) then None else api_addr E hint)"

definition reply_to :: "nat \<Rightarrow> reply \<Rightarrow> 'db driver \<Rightarrow> 'db driver" where
  "reply_to resp r d = d\<lparr>dv_replies := dv_replies d @ [(resp, r)]\<rparr>"

definition driver_propose :: "'db d1_env \<Rightarrow> 'db driver \<Rightarrow> cmd \<Rightarrow> nat \<Rightarrow> 'db driver" where
  "driver_propose E d c resp =
     (case propose (dv_raft d) (enc_cmd E c) of
        (r', Inr (seq, acts)) \<Rightarrow>
          execute E (d\<lparr>dv_raft := r', dv_pending := hm_insert (cm_tag c) resp (dv_pending d),
                       dv_my_entries := hm_insert seq (cm_tag c) (dv_my_entries d)\<rparr>) acts
      | (r', Inl _) \<Rightarrow> reply_to resp (not_led (leader_api_addr E d)) (d\<lparr>dv_raft := r'\<rparr>))"

definition driver_exec :: "'db d1_env \<Rightarrow> 'db driver \<Rightarrow> string \<Rightarrow> json list \<Rightarrow> nat \<Rightarrow> nat \<Rightarrow> 'db driver" where
  "driver_exec E d sql params resp tag =
     (if \<not> is_leader (dv_raft d) then reply_to resp (not_led (leader_api_addr E d)) d
      else case is_read E (dv_sql d) sql of
        Some True \<Rightarrow> reply_to resp (run_query E (dv_sql d) sql params) d
      | None \<Rightarrow> reply_to resp (Inl SqlError) d
      | Some False \<Rightarrow>
          driver_propose E d \<lparr>cm_sql = sql, cm_params = params, cm_statements = [], cm_tag = tag\<rparr> resp)"

definition bad_statement :: "statement \<Rightarrow> bool" where
  "bad_statement s \<longleftrightarrow>
     trim (sm_sql s) = [] \<or> int (length (sm_sql s)) > 1024 * 1024 \<or> int (length (sm_params s)) > 1000"

definition driver_batch :: "'db d1_env \<Rightarrow> 'db driver \<Rightarrow> statement list \<Rightarrow> nat \<Rightarrow> nat \<Rightarrow> 'db driver" where
  "driver_batch E d ss resp tag =
     (if \<not> is_leader (dv_raft d) then reply_to resp (not_led (leader_api_addr E d)) d
      else if ss = [] \<or> length ss > 100 then reply_to resp (Inl BatchSize) d
      else if \<exists>s \<in> set ss. bad_statement s then reply_to resp (Inl BadStatement) d
      else
        (let kinds = map (\<lambda>s. is_read E (dv_sql d) (sm_sql s)) ss in
         if None \<in> set kinds then reply_to resp (Inl SqlError) d
         else if \<forall>k \<in> set kinds. k = Some True then
           (case run_statements E (dv_sql d) ss of
              None \<Rightarrow> reply_to resp (Inl SqlError) d
            | Some (db', results) \<Rightarrow>
                reply_to resp (Inr \<lparr>xr_rows = None, xr_rows_affected = Some 0, xr_batch = Some results,
                                    xr_leader_hint = None\<rparr>) (d\<lparr>dv_sql := db'\<rparr>))
         else driver_propose E d \<lparr>cm_sql = [], cm_params = [], cm_statements = ss, cm_tag = tag\<rparr> resp))"

text \<open>One round of the driver's loop; \<open>Timer\<close> says whether the election timeout has passed.\<close>

definition driver_timer :: "'db d1_env \<Rightarrow> 'db driver \<Rightarrow> bool \<Rightarrow> 'db driver" where
  "driver_timer E d timed_out =
     (if is_leader (dv_raft d)
      then (case heartbeat (dv_raft d) of (r', acts) \<Rightarrow> execute E (d\<lparr>dv_raft := r'\<rparr>) acts)
      else if timed_out
      then (case tick_election (dv_raft d) of (r', acts) \<Rightarrow> execute E (d\<lparr>dv_raft := r'\<rparr>) acts)
      else d)"

fun driver_step :: "'db d1_env \<Rightarrow> 'db driver \<Rightarrow> driver_cmd \<Rightarrow> 'db driver" where
  "driver_step E d (Net from m) =
     (case handle (dv_raft d) from m of (r', acts) \<Rightarrow> execute E (d\<lparr>dv_raft := r'\<rparr>) acts)"
| "driver_step E d (Exec sql params resp tag) = driver_exec E d sql params resp tag"
| "driver_step E d (Batch ss resp tag) = driver_batch E d ss resp tag"
| "driver_step E d (Timer timed_out) = driver_timer E d timed_out"

text \<open>\<open>Driver::open\<close>: the state comes from the store and the marker in the SQLite file.\<close>

definition driver_open :: "store \<Rightarrow> public_id \<Rightarrow> string \<Rightarrow> public_id list \<Rightarrow> (string \<times> public_id) list \<Rightarrow> 'db \<times> nat \<Rightarrow> 'db driver" where
  "driver_open s i name g leaders = (\<lambda>(db, marker).
     (case load_d1_meta s name of
        (ep, vf, bs, be) \<Rightarrow>
          \<lparr>dv_name = name, dv_raft = raft_restore i g ep vf bs be (load_d1_log s name) marker,
           dv_store = s, dv_sql = db, dv_marker = marker, dv_pending = [], dv_my_entries = [],
           dv_leaders = leaders, dv_sent = [], dv_replies = []\<rparr>))"

end
