(* ===== verification/D1_Durable.thy ===== *)
theory D1_Durable
  imports D1_Driver
begin

text \<open>
  What survives a crash of a D1 driver.  The store \<open>mirrors\<close> the Raft member
  when its rows hold the member's epoch, vote, base and log.  Every handler but
  the installation of a snapshot writes what it changed before the first message
  goes out, replaying the committed entries after a restart changes nothing, and
  the one exception leaves rows behind that a restart misreads.
\<close>

section \<open>The store as a mirror of the member\<close>

definition meta_of :: "raft \<Rightarrow> nat \<times> public_id option \<times> nat \<times> nat" where
  "meta_of r = (epoch r, voted_for r, base_seq r, base_epoch r)"

definition mirrors :: "string \<Rightarrow> raft \<Rightarrow> store \<Rightarrow> bool" where
  "mirrors name r s \<longleftrightarrow> load_d1_meta s name = meta_of r \<and> load_d1_log s name = log r"

text \<open>Sequence numbers are 64-bit, so they fit the twenty digits of a row key.\<close>

definition seq_fits :: "raft \<Rightarrow> bool" where
  "seq_fits r \<longleftrightarrow> Suc (last_seq r) < 10 ^ 20"

definition agree_below :: "nat \<Rightarrow> raft \<Rightarrow> raft \<Rightarrow> bool" where
  "agree_below n r r' \<longleftrightarrow> base_seq r' < n \<and> n \<le> Suc (last_seq r') \<and>
     filter (\<lambda>e. en_seq e < n) (log r) = filter (\<lambda>e. en_seq e < n) (log r')"

fun persist_one :: "string \<Rightarrow> raft \<Rightarrow> action \<Rightarrow> store \<Rightarrow> store" where
  "persist_one name r PersistMeta s = persist_meta name r s"
| "persist_one name r (PersistLog n) s = persist_log name r n s"
| "persist_one name r _ s = s"

lemma persist_meta_simps [simp]:
  "d1_store_ok s \<Longrightarrow> load_d1_meta (persist_meta name r s) name = meta_of r"
  "load_d1_log (persist_meta name r s) other = load_d1_log s other"
  "d1_store_ok s \<Longrightarrow> d1_store_ok (persist_meta name r s)"
  by (simp_all add: persist_meta_def put_d1_meta_def load_d1_meta_def load_d1_log_def d1_store_ok_def meta_of_def
      map_of_bt_insert bt_ok_insert)

lemma log_split:
  assumes "log_ok r" and "base_seq r < n"
  shows "filter (\<lambda>e. en_seq e < n) (log r) = take (n - base_seq r - 1) (log r)"
    and "filter (\<lambda>e. n \<le> en_seq e) (log r) = drop (n - base_seq r - 1) (log r)"
proof -
  let ?k = "n - base_seq r - 1"
  have lo: "\<forall>e \<in> set (take ?k (log r)). en_seq e < n"
    using log_ok_nth [OF assms(1)] by (auto simp: in_set_conv_nth)
  have hi: "\<forall>e \<in> set (drop ?k (log r)). n \<le> en_seq e"
    using log_ok_nth [OF assms(1)] assms(2) by (auto simp: in_set_conv_nth)
  have "filter (\<lambda>e. en_seq e < n) (take ?k (log r) @ drop ?k (log r)) = take ?k (log r)"
    unfolding filter_append using lo hi by (simp add: filter_empty_conv filter_id_conv not_less)
  then show "filter (\<lambda>e. en_seq e < n) (log r) = take ?k (log r)" by simp
  have "filter (\<lambda>e. n \<le> en_seq e) (take ?k (log r) @ drop ?k (log r)) = drop ?k (log r)"
    unfolding filter_append using lo hi by (simp add: filter_empty_conv filter_id_conv not_le)
  then show "filter (\<lambda>e. n \<le> en_seq e) (log r) = drop ?k (log r)" by simp
qed

lemma persist_log_mirror:
  assumes "d1_store_ok s" and "NUL \<notin> set name" and "log_ok r'" and "seq_fits r'"
    and "agree_below n r r'" and "load_d1_log s name = log r \<or> load_d1_log s name = log r'"
  shows "load_d1_log (persist_log name r' n s) name = log r'"
    and "d1_store_ok (persist_log name r' n s)"
    and "load_d1_meta (persist_log name r' n s) other = load_d1_meta s other"
proof -
  let ?tail = "filter (\<lambda>e. n \<le> en_seq e) (log r')"
  from assms(5) have n: "base_seq r' < n" "n \<le> Suc (last_seq r')"
    and agree: "filter (\<lambda>e. en_seq e < n) (log r) = filter (\<lambda>e. en_seq e < n) (log r')"
    by (simp_all add: agree_below_def)
  note sp = log_split [OF assms(3) n(1)]
  have run: "run_from (n - 1) ?tail" by (rule run_from_filter [OF assms(3) n(1)])
  have len: "n - 1 + length ?tail + 1 < 10 ^ 20"
    unfolding sp(2) using assms(4) n last_seq_length [OF assms(3)] by (simp add: seq_fits_def)
  have n1: "n - 1 + 1 = n" using n(1) by simp
  have put: "persist_log name r' n s = put_d1_log s name (n - 1 + 1) ?tail" by (simp only: persist_log_def n1)
  note spec = put_d1_log_spec [OF assms(1,2) run len]
  have le: "(\<lambda>e. en_seq e \<le> n - 1) = (\<lambda>e. en_seq e < n)" using n(1) by auto
  have "filter (\<lambda>e. en_seq e \<le> n - 1) (load_d1_log s name) = filter (\<lambda>e. en_seq e < n) (log r')"
    using assms(6) agree unfolding le by auto
  then show "load_d1_log (persist_log name r' n s) name = log r'"
    unfolding put spec(1) using sp by simp
  show "d1_store_ok (persist_log name r' n s)" unfolding put by (rule spec(2))
  show "load_d1_meta (persist_log name r' n s) other = load_d1_meta s other"
    by (simp add: persist_log_def put_d1_log_def load_d1_meta_def Let_def)
qed

section \<open>Writing before sending\<close>

definition is_send :: "action \<Rightarrow> bool" where
  "is_send a = (case a of Send _ _ \<Rightarrow> True | _ \<Rightarrow> False)"

definition before_send :: "action list \<Rightarrow> action list" where
  "before_send acts = takeWhile (\<lambda>a. \<not> is_send a) acts"

text \<open>The actions write every change of the persistent part, and do so before they send.\<close>

definition saved :: "raft \<Rightarrow> raft \<Rightarrow> action list \<Rightarrow> bool" where
  "saved r r' acts \<longleftrightarrow>
     (\<forall>n. PersistLog n \<in> set acts \<longrightarrow> agree_below n r r') \<and>
     (log r = log r' \<or> (\<exists>n. PersistLog n \<in> set (before_send acts))) \<and>
     (meta_of r = meta_of r' \<or> PersistMeta \<in> set (before_send acts))"

definition half_saved :: "string \<Rightarrow> raft \<Rightarrow> raft \<Rightarrow> store \<Rightarrow> bool" where
  "half_saved name r r' s \<longleftrightarrow> d1_store_ok s \<and>
     (load_d1_log s name = log r \<or> load_d1_log s name = log r') \<and>
     (load_d1_meta s name = meta_of r \<or> load_d1_meta s name = meta_of r')"

lemma persist_fold:
  assumes "NUL \<notin> set name" and "log_ok r'" and "seq_fits r'"
    and "\<forall>n. PersistLog n \<in> set acts \<longrightarrow> agree_below n r r'" and "half_saved name r r' s"
  shows "half_saved name r r' (fold (persist_one name r') acts s)
    \<and> (load_d1_log s name = log r' \<or> (\<exists>n. PersistLog n \<in> set acts) \<longrightarrow>
         load_d1_log (fold (persist_one name r') acts s) name = log r')
    \<and> (load_d1_meta s name = meta_of r' \<or> PersistMeta \<in> set acts \<longrightarrow>
         load_d1_meta (fold (persist_one name r') acts s) name = meta_of r')"
  using assms(4,5)
proof (induction acts arbitrary: s)
  case (Cons a acts)
  let ?s = "persist_one name r' a s"
  have a: "half_saved name r r' ?s"
    "load_d1_log s name = log r' \<or> (\<exists>n. a = PersistLog n) \<Longrightarrow> load_d1_log ?s name = log r'"
    "load_d1_meta s name = meta_of r' \<or> a = PersistMeta \<Longrightarrow> load_d1_meta ?s name = meta_of r'"
  proof -
    have s: "d1_store_ok s" "load_d1_log s name = log r \<or> load_d1_log s name = log r'"
      using Cons.prems(2) by (simp_all add: half_saved_def)
    have l: "agree_below n r r'" if "a = PersistLog n" for n using Cons.prems(1) that by simp
    note p = persist_log_mirror [OF s(1) assms(1,2,3) l s(2)]
    show "half_saved name r r' ?s" using Cons.prems(2) p by (cases a) (simp_all add: half_saved_def)
    show "load_d1_log ?s name = log r'" if "load_d1_log s name = log r' \<or> (\<exists>n. a = PersistLog n)"
      using that p by (cases a) auto
    show "load_d1_meta ?s name = meta_of r'" if "load_d1_meta s name = meta_of r' \<or> a = PersistMeta"
      using that p s(1) by (cases a) auto
  qed
  have acts: "\<forall>n. PersistLog n \<in> set acts \<longrightarrow> agree_below n r r'" using Cons.prems(1) by simp
  note IH = Cons.IH [OF acts a(1)]
  from IH a(2,3) show ?case by (simp only: fold.simps o_apply list.set insert_iff) metis
qed simp

lemma saved_mirrors:
  assumes "NUL \<notin> set name" and "log_ok r'" and "seq_fits r'"
    and "saved r r' acts" and "mirrors name r s" and "d1_store_ok s"
    and pre: "\<exists>post. acts = pre @ post \<and> (post = [] \<or> is_send (hd post))"
  shows "mirrors name r' (fold (persist_one name r') pre s) \<and> d1_store_ok (fold (persist_one name r') pre s)"
proof -
  from pre obtain post where post: "acts = pre @ post" "post = [] \<or> is_send (hd post)" by blast
  have sub: "set (before_send acts) \<subseteq> set pre"
  proof (cases post)
    case Nil
    with post show ?thesis unfolding before_send_def by (auto dest: set_takeWhileD)
  next
    case (Cons b bs)
    with post(2) have "is_send b" by simp
    with post(1) Cons show ?thesis
      unfolding before_send_def by (auto simp: takeWhile_append dest: set_takeWhileD split: if_splits)
  qed
  have p: "\<forall>n. PersistLog n \<in> set pre \<longrightarrow> agree_below n r r'" using assms(4) post(1) by (auto simp: saved_def)
  have h: "half_saved name r r' s" using assms(5,6) by (simp add: half_saved_def mirrors_def)
  have l: "load_d1_log s name = log r' \<or> (\<exists>n. PersistLog n \<in> set pre)"
    and m: "load_d1_meta s name = meta_of r' \<or> PersistMeta \<in> set pre"
    using assms(4,5) sub by (auto simp: saved_def mirrors_def)
  from persist_fold [OF assms(1,2,3) p h] l m show ?thesis by (simp add: mirrors_def half_saved_def)
qed

section \<open>Every handler writes before it sends\<close>

definition quiet :: "action list \<Rightarrow> bool" where
  "quiet acts \<longleftrightarrow> PersistMeta \<notin> set acts \<and> (\<forall>n. PersistLog n \<notin> set acts)"

definition same_core :: "raft \<Rightarrow> raft \<Rightarrow> bool" where
  "same_core r r' \<longleftrightarrow> log r' = log r \<and> meta_of r' = meta_of r"

lemma quiet_simps [simp]:
  "quiet []" "quiet (a # acts) \<longleftrightarrow> a \<noteq> PersistMeta \<and> (\<forall>n. a \<noteq> PersistLog n) \<and> quiet acts"
  "quiet (xs @ ys) \<longleftrightarrow> quiet xs \<and> quiet ys"
  by (auto simp: quiet_def)

lemma quiet_saved: "quiet acts \<Longrightarrow> same_core r r' \<Longrightarrow> saved r r' acts"
  by (simp add: quiet_def same_core_def saved_def)

lemma quiet_replicate [simp]: "quiet (replicate_all r)"
  by (auto simp: quiet_def replicate_all_def replicate_one_def Let_def split: role.splits if_splits)

lemma quiet_apply [simp]: "quiet (snd (apply_committed r))"
  by (auto simp: quiet_def apply_committed_def split: option.splits)

lemma same_core_simps [simp]:
  "same_core r r" "same_core r (r\<lparr>commit := c\<rparr>)" "same_core r (r\<lparr>applied := a\<rparr>)" "same_core r (r\<lparr>role := x\<rparr>)"
  "same_core r (r\<lparr>commit := c, applied := a\<rparr>)" "same_core r (r\<lparr>leader := l\<rparr>)"
  by (simp_all add: same_core_def meta_of_def)

lemma same_core_trans: "same_core r q \<Longrightarrow> same_core q r' \<Longrightarrow> same_core r r'"
  by (simp add: same_core_def)

lemma advance_quiet: "quiet (snd (advance_commit r)) \<and> same_core r (fst (advance_commit r))"
  by (auto simp: advance_commit_def Let_def split_def same_core_def meta_of_def split: role.splits)

lemma try_win_quiet: "quiet (snd (try_win r)) \<and> same_core r (fst (try_win r))"
  by (auto simp: try_win_def Let_def split: role.splits)

lemma follower_saved:
  "saved r (fst (become_follower r e)) (snd (become_follower r e))"
  "log (fst (become_follower r e)) = log r"
  "\<not> (\<exists>a \<in> set (snd (become_follower r e)). is_send a)"
  "meta_of (fst (become_follower r e)) = meta_of r \<or> PersistMeta \<in> set (snd (become_follower r e))"
  by (auto simp: become_follower_def Let_def saved_def before_send_def is_send_def meta_of_def)

lemma accept_saved:
  "log (fst (accept_leader r from e)) = log r" "base_seq (fst (accept_leader r from e)) = base_seq r"
  "\<not> (\<exists>a \<in> set (snd (accept_leader r from e)). is_send a)"
  "meta_of (fst (accept_leader r from e)) = meta_of r \<or> PersistMeta \<in> set (snd (accept_leader r from e))"
  "\<forall>n. PersistLog n \<notin> set (snd (accept_leader r from e))"
  by (auto simp: accept_leader_def become_follower_def Let_def split_def is_send_def meta_of_def)

lemma before_send_append:
  "\<not> (\<exists>a \<in> set xs. is_send a) \<Longrightarrow> before_send (xs @ ys) = xs @ before_send ys"
  by (auto simp: before_send_def takeWhile_append)

lemma saved_tick: "saved r (fst (tick_election r)) (snd (tick_election r))"
proof (cases "is_leader r")
  case False
  let ?r1 = "r\<lparr>epoch := epoch r + 1, voted_for := Some (me r), leader := None, role := Candidate [me r]\<rparr>"
  have "quiet (map (\<lambda>p. Send p (VoteReq a b c)) ps)" for a b c ps by (auto simp: quiet_def)
  with False try_win_quiet [of ?r1] show ?thesis
    by (auto simp: tick_election_def Let_def split_def saved_def before_send_def is_send_def same_core_def quiet_def)
qed (simp add: tick_election_def quiet_saved)

lemma saved_beat: "saved r (fst (heartbeat r)) (snd (heartbeat r))"
  by (simp add: heartbeat_def quiet_saved)

lemma saved_propose:
  assumes "log_ok r" and "propose r cmd = (r', Inr (seq, acts))"
  shows "saved r r' acts"
proof -
  let ?e = "\<lparr>en_epoch = epoch r, en_seq = snd (last_entry r) + 1, en_cmd = cmd\<rparr>"
  let ?r1 = "r\<lparr>log := log r @ [?e]\<rparr>"
  from assms(2) have p: "r' = fst (advance_commit ?r1)" "acts = PersistLog (last_seq r + 1) # replicate_all ?r1 @ snd (advance_commit ?r1)"
    by (auto simp: propose_def Let_def split_def split: if_splits)
  have c: "log r' = log r @ [?e]" "meta_of r' = meta_of r" "quiet (snd (advance_commit ?r1))"
    using advance_quiet [of ?r1] by (simp_all add: p(1) same_core_def meta_of_def)
  have base: "base_seq r' = base_seq r" using c(2) by (simp add: meta_of_def)
  have "last_seq r' = last_seq r + 1" using c(1) by (simp add: last_entry_def)
  moreover have "\<forall>e \<in> set (log r). en_seq e < last_seq r + 1"
    using log_ok_nth [OF assms(1)] last_seq_length [OF assms(1)] by (auto simp: in_set_conv_nth)
  ultimately have "agree_below (last_seq r + 1) r r'"
    using last_seq_length [OF assms(1)] by (simp add: agree_below_def c(1) base)
  moreover have "quiet (replicate_all ?r1 @ snd (advance_commit ?r1))" using c(3) by simp
  ultimately show ?thesis
    unfolding saved_def p(2) by (auto simp: c(2) before_send_def is_send_def quiet_def)
qed

lemma saved_vote_req: "saved r (fst (handle_vote_req r from e le ls)) (snd (handle_vote_req r from e le ls))"
proof -
  define p where "p = (if epoch r < e then become_follower r e else (r, []))"
  have p: "log (fst p) = log r" "\<not> (\<exists>a \<in> set (snd p). is_send a)"
    "meta_of (fst p) = meta_of r \<or> PersistMeta \<in> set (snd p)" "\<forall>n. PersistLog n \<notin> set (snd p)"
    using follower_saved [of r e] by (auto simp: p_def become_follower_def Let_def)
  show ?thesis
    unfolding handle_vote_req_def p_def [symmetric] Let_def split_def saved_def
    using p by (auto simp: before_send_append before_send_def is_send_def meta_of_def)
qed

lemma saved_vote_resp: "saved r (fst (handle_vote_resp r from e g)) (snd (handle_vote_resp r from e g))"
proof -
  define q where "q = (case role r of
           Candidate vs \<Rightarrow> if from \<in> set vs then r else r\<lparr>role := Candidate (vs @ [from])\<rparr>
         | _ \<Rightarrow> r)"
  have "same_core r q" by (auto simp: q_def split: role.splits)
  with try_win_quiet [of q] follower_saved(1) [of r e] show ?thesis
    unfolding handle_vote_resp_def q_def [symmetric] by (auto intro: quiet_saved same_core_trans)
qed

lemma saved_append_resp: "saved r (fst (handle_append_resp r from e k ok)) (snd (handle_append_resp r from e k ok))"
proof -
  have "saved r (fst (advance_commit (r\<lparr>role := x\<rparr>))) (snd (advance_commit (r\<lparr>role := x\<rparr>)))" for x
    using advance_quiet [of "r\<lparr>role := x\<rparr>"] same_core_trans [OF same_core_simps(4)] by (auto intro: quiet_saved)
  with follower_saved(1) [of r e] show ?thesis
    by (auto simp: handle_append_resp_def Let_def intro: quiet_saved split: role.splits)
qed


definition cut_at :: "raft \<Rightarrow> raft \<Rightarrow> nat option \<Rightarrow> nat \<Rightarrow> bool" where
  "cut_at r0 r pf p \<longleftrightarrow>
     (case pf of
        None \<Rightarrow> log r = log r0
      | Some n \<Rightarrow> base_seq r < n \<and> n \<le> p \<and> filter (\<lambda>e. en_seq e < n) (log r0) = filter (\<lambda>e. en_seq e < n) (log r))"

lemma append_one_cut:
  assumes ok: "log_ok r" and e: "en_seq e = Suc p" and p: "p \<le> last_seq r"
    and cut: "cut_at r0 r pf p" and r': "append_one e (r, pf) = (r', pf')"
  shows "cut_at r0 r' pf' (Suc p)"
proof -
  let ?k = "Suc p - base_seq r - 1"
  let ?t = "r\<lparr>log := take ?k (log r) @ [e]\<rparr>"
  consider (same) "r' = r" "pf' = pf" | (push) "base_seq r \<le> p" "r' = ?t" "pf' = (case pf of None \<Rightarrow> Some (Suc p) | _ \<Rightarrow> pf)"
    using r' e by (auto simp: append_one_def split: if_splits option.splits)
  then show ?thesis
  proof cases
    case same
    with cut show ?thesis by (auto simp: cut_at_def split: option.splits)
  next
    case push
    have sp: "filter (\<lambda>e. en_seq e < n) (log r') = filter (\<lambda>e. en_seq e < n) (log r)" if n: "base_seq r < n" "n \<le> Suc p" for n
    proof -
      have "filter (\<lambda>e. en_seq e < n) (take ?k (log r)) = filter (\<lambda>e. en_seq e < n) (filter (\<lambda>e. en_seq e < Suc p) (log r))"
        using log_split(1) [OF ok, of "Suc p"] push(1) by simp
      also have "\<dots> = filter (\<lambda>e. en_seq e < n) (log r)" using n(2) by (simp add: filter_filter) (intro filter_cong; auto)
      finally show ?thesis using n(2) e push(2) by simp
    qed
    show ?thesis
    proof (cases pf)
      case None
      with cut push sp [of "Suc p"] show ?thesis by (simp add: cut_at_def)
    next
      case (Some n)
      with cut push sp [of n] show ?thesis by (simp add: cut_at_def)
    qed
  qed
qed

lemma append_all_cut:
  assumes "log_ok r" and "run_from p es" and "p \<le> last_seq r" and "cut_at r0 r pf p"
    and "fold append_one es (r, pf) = (r', pf')"
  shows "cut_at r0 r' pf' (p + length es)"
  using assms
proof (induction es arbitrary: r pf p)
  case (Cons e es)
  obtain r1 pf1 where r1: "append_one e (r, pf) = (r1, pf1)" by force
  from Cons.prems(2) have e: "en_seq e = Suc p" and es: "run_from (Suc p) es" by (simp_all add: run_from_Cons)
  note st = append_one_step [OF Cons.prems(1) e Cons.prems(3) r1]
  from Cons.prems(5) r1 have "fold append_one es (r1, pf1) = (r', pf')" by simp
  from Cons.IH [OF st(1) es st(2) append_one_cut [OF Cons.prems(1) e Cons.prems(3,4) r1] this] show ?case by simp
qed simp

lemma saved_append:
  assumes "log_ok r" and "msg_ok (Append e p pe es c)"
  shows "saved r (fst (handle_append r from e p pe es c)) (snd (handle_append r from e p pe es c))"
proof (cases "e < epoch r")
  case True
  then show ?thesis by (simp add: handle_append_def quiet_saved)
next
  case False
  define r1 acts where "r1 = fst (accept_leader r from e)" and "acts = snd (accept_leader r from e)"
  have pair: "accept_leader r from e = (r1, acts)" by (simp add: r1_def acts_def)
  note a = accept_saved [of r "from" e, folded r1_def acts_def]
  have l1: "log_ok r1" using assms(1) a(1,2) by (simp add: log_ok_def)
  show ?thesis
  proof (cases "prev_ok r1 p pe")
    case no: False
    with False a show ?thesis
      by (auto simp: handle_append_def pair saved_def before_send_append)
  next
    case True
    obtain r2 pf where r2: "fold append_one es (r1, None) = (r2, pf)" by force
    have es: "run_from p es" using assms(2) by (simp add: msg_ok_def)
    note all = append_all [OF l1 es prev_ok_last [OF l1 True] r2]
    have cut: "cut_at r1 r2 pf (p + length es)"
      by (rule append_all_cut [OF l1 es prev_ok_last [OF l1 True] _ r2]) (simp add: cut_at_def)
    obtain L where L: "r2 = r1\<lparr>log := L\<rparr>" using all by blast
    define q where "q = (if commit r2 < c then apply_committed (r2\<lparr>commit := min c (last_seq r2)\<rparr>) else (r2, []))"
    have q: "same_core r2 (fst q)" "quiet (snd q)" by (simp_all add: q_def same_core_def meta_of_def)
    have core: "log (fst q) = L" "meta_of (fst q) = meta_of r1" "base_seq (fst q) = base_seq r1" "last_seq (fst q) = last_seq r2"
      using q(1) by (simp_all add: same_core_def L meta_of_def last_entry_def)
    define plog where "plog = (case pf of Some n \<Rightarrow> [PersistLog n] | None \<Rightarrow> [])"
    have h: "handle_append r from e p pe es c
        = (fst q, acts @ plog @ snd q @ [Send from (AppendResp (epoch (fst q)) (last_seq r2) True)])"
      using False True by (simp add: handle_append_def pair r2 q_def plog_def split_def Let_def)
    have agree: "agree_below n r (fst q)" if "pf = Some n" for n
      using cut that all a(1) core by (simp add: cut_at_def agree_below_def L)
    have same: "log r = L" if "pf = None" using cut that a(1) by (simp add: cut_at_def L)
    show ?thesis
      unfolding h fst_conv snd_conv saved_def before_send_append [OF a(3)]
      using a(4,5) q(2) agree same core(1,2)
      by (cases pf) (auto simp: plog_def quiet_def before_send_def is_send_def)
  qed
qed

definition replaces_log :: "raft \<Rightarrow> msg \<Rightarrow> bool" where
  "replaces_log r m = (case m of InstallSnapshot e ls le d \<Rightarrow> epoch r \<le> e \<and> applied r < ls | _ \<Rightarrow> False)"

lemma saved_install:
  assumes "\<not> replaces_log r (InstallSnapshot e ls le d)"
  shows "saved r (fst (handle_install r from e ls le d)) (snd (handle_install r from e ls le d))"
proof (cases "e < epoch r")
  case True
  then show ?thesis by (simp add: handle_install_def quiet_saved)
next
  case False
  define r1 acts where "r1 = fst (accept_leader r from e)" and "acts = snd (accept_leader r from e)"
  have pair: "accept_leader r from e = (r1, acts)" by (simp add: r1_def acts_def)
  note a = accept_saved [of r "from" e, folded r1_def acts_def]
  have "applied r1 = applied r" by (simp add: r1_def accept_leader_simps become_follower_simps)
  with assms False a show ?thesis
    by (auto simp: handle_install_def pair saved_def before_send_append replaces_log_def)
qed

lemma saved_handle:
  assumes "log_ok r" and "msg_ok m" and "\<not> replaces_log r m"
  shows "saved r (fst (handle r from m)) (snd (handle r from m))"
  using assms saved_append saved_install saved_vote_req saved_vote_resp saved_append_resp
  by (cases m) (simp_all add: handle_def)


section \<open>The driver\<close>

inductive member_step :: "raft \<Rightarrow> raft \<Rightarrow> action list \<Rightarrow> bool" where
  by_net: "handle r from m = (r', acts) \<Longrightarrow> from \<in> set (group r) \<Longrightarrow> msg_ok m \<Longrightarrow> \<not> replaces_log r m \<Longrightarrow> member_step r r' acts"
| by_beat: "heartbeat r = (r', acts) \<Longrightarrow> member_step r r' acts"
| by_tick: "tick_election r = (r', acts) \<Longrightarrow> member_step r r' acts"
| by_prop: "propose r cmd = (r', Inr (seq, acts)) \<Longrightarrow> member_step r r' acts"

lemma member_step_ok:
  assumes "member_step r r' acts" and "raft_ok r"
  shows "saved r r' acts" and "raft_ok r'"
proof -
  have l: "log_ok r" using assms(2) by (simp add: raft_ok_def)
  from assms(1) have "saved r r' acts \<and> raft_ok r'"
  proof cases
    case (by_net "from" m)
    with saved_handle [OF l by_net(3,4), of "from"] raft_ok_handle [OF assms(2) by_net(3,2)] show ?thesis by simp
  next
    case by_beat
    with saved_beat [of r] assms(2) show ?thesis by (auto simp: heartbeat_def)
  next
    case by_tick
    with saved_tick [of r] raft_ok_tick [OF assms(2)] show ?thesis by simp
  next
    case (by_prop cmd seq)
    with saved_propose [OF l by_prop] raft_ok_propose [OF assms(2), of cmd] show ?thesis by simp
  qed
  then show "saved r r' acts" and "raft_ok r'" by simp_all
qed

lemma driver_apply_frame [simp]:
  "dv_store (driver_apply E e d) = dv_store d" "dv_name (driver_apply E e d) = dv_name d"
  "dv_raft (driver_apply E e d) = dv_raft d"
  by (simp_all add: driver_apply_def Let_def split_def split: option.splits)

lemma execute_one_frame:
  "dv_store (execute_one E a d) = persist_one (dv_name d) (dv_raft d) a (dv_store d)
   \<and> dv_name (execute_one E a d) = dv_name d \<and> dv_raft (execute_one E a d) = dv_raft d"
  by (cases a) (auto simp: send_to_def install_snapshot_def split: option.splits)

lemma execute_fold:
  "dv_store (fold (execute_one E) acts d) = fold (persist_one (dv_name d) (dv_raft d)) acts (dv_store d)
   \<and> dv_name (fold (execute_one E) acts d) = dv_name d \<and> dv_raft (fold (execute_one E) acts d) = dv_raft d"
  by (induction acts arbitrary: d) (simp_all add: execute_one_frame)

lemmas execute_fold_parts = execute_fold [THEN conjunct1] execute_fold [THEN conjunct2, THEN conjunct1]
  execute_fold [THEN conjunct2, THEN conjunct2]

lemma open_mirror:
  "mirrors name r s \<Longrightarrow> dv_raft (driver_open s i name g L (db, k)) =
     raft_restore i g (epoch r) (voted_for r) (base_seq r) (base_epoch r) (log r) k"
  by (simp add: driver_open_def mirrors_def meta_of_def)

definition driver_ok :: "'db driver \<Rightarrow> bool" where
  "driver_ok d \<longleftrightarrow> raft_ok (dv_raft d) \<and> NUL \<notin> set (dv_name d) \<and> d1_store_ok (dv_store d)
     \<and> mirrors (dv_name d) (dv_raft d) (dv_store d)"

lemma last_seq_compact:
  assumes "raft_ok r"
  shows "last_seq (fst (raft_compact r k)) = last_seq r"
proof (cases "snd (raft_compact r k)")
  case True
  let ?r = "fst (raft_compact r k)" and ?n = "applied r - k"
  from True obtain e where e: "entry_at r ?n = Some e" "base_seq r < ?n"
    by (auto simp: raft_compact_def Let_def split: if_splits option.splits)
  then have r: "base_seq ?r = ?n" "log ?r = drop (?n - base_seq r) (log r)" by (simp_all add: raft_compact_def Let_def)
  have l: "log_ok r" "log_ok ?r" using assms raft_ok_compact [OF assms, of k] by (simp_all add: raft_ok_def)
  from e have "?n - base_seq r \<le> length (log r)" by (auto simp: entry_at_def split: if_splits)
  then show ?thesis using e(2) by (simp add: last_seq_length l r)
next
  case False
  then have "fst (raft_compact r k) = r" by (auto simp: raft_compact_def Let_def split: if_splits option.splits)
  then show ?thesis by simp
qed

lemma maybe_compact_ok:
  assumes "driver_ok d" and "seq_fits (dv_raft d)"
  shows "driver_ok (maybe_compact E d) \<and> last_seq (dv_raft (maybe_compact E d)) = last_seq (dv_raft d)"
proof -
  let ?r = "dv_raft d" and ?name = "dv_name d"
  obtain threshold k where c: "compaction E ?name = (threshold, k)" by force
  obtain r' b where r': "raft_compact ?r k = (r', b)" by force
  have ok: "raft_ok ?r" "NUL \<notin> set ?name" "d1_store_ok (dv_store d)" "mirrors ?name ?r (dv_store d)"
    using assms(1) by (simp_all add: driver_ok_def)
  have ok': "raft_ok r'" "last_seq r' = last_seq ?r"
    using raft_ok_compact [OF ok(1), of k] last_seq_compact [OF ok(1), of k] by (simp_all add: r')
  show ?thesis
  proof (cases "threshold < length (log ?r) \<and> b")
    case False
    have "r' = ?r" if "\<not> b" using r' that by (auto simp: raft_compact_def Let_def split: if_splits option.splits)
    with False assms(1) show ?thesis by (auto simp: maybe_compact_def c r')
  next
    case True
    from True r' have n: "base_seq ?r < base_seq r'" "log r' = drop (base_seq r' - base_seq ?r) (log ?r)"
      by (auto simp: raft_compact_def Let_def split: if_splits option.splits)
    have l: "log_ok ?r" "log_ok r'" using ok(1) ok'(1) by (simp_all add: raft_ok_def)
    have "filter (\<lambda>e. base_seq r' < en_seq e) (log ?r) = log r'"
      using log_split(2) [OF l(1), of "Suc (base_seq r')"] n by (simp add: Suc_le_eq)
    moreover have "base_seq r' + 1 < 10 ^ 20" using ok'(2) assms(2) last_seq_length [OF l(2)] by (simp add: seq_fits_def)
    note cs = compact_d1_log_spec [OF ok(3,2) this]
    ultimately have "load_d1_log (compact_d1_log (dv_store d) ?name (base_seq r')) ?name = log r'"
      using ok(4) cs(1) by (simp add: mirrors_def)
    moreover have "maybe_compact E d = d\<lparr>dv_raft := r', dv_store := persist_meta ?name r' (compact_d1_log (dv_store d) ?name (base_seq r'))\<rparr>"
      using True by (simp add: maybe_compact_def c r')
    ultimately show ?thesis using ok ok' cs(2) by (simp add: driver_ok_def mirrors_def)
  qed
qed

lemma publish_frame [simp]:
  "dv_raft (publish_leader d) = dv_raft d" "driver_ok (publish_leader d) = driver_ok d"
  by (auto simp: publish_leader_def driver_ok_def split: option.splits)

lemma execute_ok:
  fixes d d' :: "'db driver"
  assumes "driver_ok d" and "member_step (dv_raft d) r' acts" and "seq_fits r'"
    and d': "dv_raft d' = r'" "dv_name d' = dv_name d" "dv_store d' = dv_store d"
  shows "driver_ok (execute E d' acts) \<and> last_seq (dv_raft (execute E d' acts)) = last_seq r'"
proof -
  have ok: "raft_ok (dv_raft d)" "NUL \<notin> set (dv_name d)" "d1_store_ok (dv_store d)" "mirrors (dv_name d) (dv_raft d) (dv_store d)"
    using assms(1) by (simp_all add: driver_ok_def)
  note st = member_step_ok [OF assms(2) ok(1)]
  have "log_ok r'" using st(2) by (simp add: raft_ok_def)
  from saved_mirrors [OF ok(2) this assms(3) st(1) ok(4,3), of acts] st(2) ok(2) d'
  have "driver_ok (fold (execute_one E) acts d')" by (simp add: driver_ok_def execute_fold)
  from maybe_compact_ok [OF this] assms(3) d' show ?thesis by (simp add: execute_def execute_fold)
qed


definition cmd_ok :: "'db driver \<Rightarrow> driver_cmd \<Rightarrow> bool" where
  "cmd_ok d c =
     (case c of
        Net from m \<Rightarrow> from \<in> set (group (dv_raft d)) \<and> msg_ok m \<and> \<not> replaces_log (dv_raft d) m
      | _ \<Rightarrow> True)"

lemma driver_ok_frame:
  "driver_ok (reply_to resp x d) = driver_ok d" "dv_raft (reply_to resp x d) = dv_raft d"
  "driver_ok (d\<lparr>dv_sql := db\<rparr>) = driver_ok d"
  by (simp_all add: reply_to_def driver_ok_def)

lemma maybe_compact_raft:
  "dv_raft (maybe_compact E d) = dv_raft d \<or> (\<exists>k. dv_raft (maybe_compact E d) = fst (raft_compact (dv_raft d) k))"
proof -
  obtain threshold k where c: "compaction E (dv_name d) = (threshold, k)" by force
  obtain r' b where r': "raft_compact (dv_raft d) k = (r', b)" by force
  have "dv_raft (maybe_compact E d) = dv_raft d \<or> dv_raft (maybe_compact E d) = fst (raft_compact (dv_raft d) k)"
    by (simp add: maybe_compact_def c r')
  then show ?thesis by blast
qed

lemma execute_bounded:
  fixes d d' :: "'db driver"
  assumes "driver_ok d" and "member_step (dv_raft d) r' acts" and "dv_raft d' = r'" "dv_name d' = dv_name d" "dv_store d' = dv_store d"
    and "seq_fits (dv_raft (execute E d' acts))"
  shows "driver_ok (execute E d' acts)"
proof -
  have "raft_ok r'" using member_step_ok(2) assms(1,2) by (auto simp: driver_ok_def)
  moreover have "dv_raft (execute E d' acts) = r' \<or> (\<exists>k. dv_raft (execute E d' acts) = fst (raft_compact r' k))"
    using maybe_compact_raft [of E "fold (execute_one E) acts d'"] assms(3) by (simp add: execute_def execute_fold)
  ultimately have "seq_fits r'" using assms(6) last_seq_compact by (metis seq_fits_def)
  with execute_ok [OF assms(1,2) _ assms(3-5)] show ?thesis by blast
qed

lemma propose_ok:
  assumes "driver_ok d" and "seq_fits (dv_raft (driver_propose E d c resp))"
  shows "driver_ok (driver_propose E d c resp)"
proof -
  obtain r' x where p: "propose (dv_raft d) (enc_cmd E c) = (r', x)" by force
  show ?thesis
  proof (cases x)
    case (Inl hint)
    with p have "r' = dv_raft d" by (auto simp: propose_def Let_def split_def split: if_splits)
    with Inl p assms(1) show ?thesis by (simp add: driver_propose_def driver_ok_frame)
  next
    case (Inr y)
    obtain seq acts where y: "y = (seq, acts)" by force
    have st: "member_step (dv_raft d) r' acts" using p unfolding Inr y by (rule by_prop)
    from execute_bounded [OF assms(1) st] assms(2) show ?thesis by (simp add: driver_propose_def p Inr y)
  qed
qed

lemma exec_ok:
  assumes "driver_ok d" and "seq_fits (dv_raft (driver_exec E d sql params resp tag))"
  shows "driver_ok (driver_exec E d sql params resp tag)"
  using assms propose_ok [OF assms(1)] unfolding driver_exec_def
  by (auto simp: driver_ok_frame split: if_splits option.splits bool.splits)

lemma batch_ok:
  assumes "driver_ok d" and "seq_fits (dv_raft (driver_batch E d ss resp tag))"
  shows "driver_ok (driver_batch E d ss resp tag)"
  using assms propose_ok [OF assms(1)] unfolding driver_batch_def Let_def
  by (auto simp: driver_ok_frame split: if_splits option.splits)

lemma timer_ok:
  assumes "driver_ok d" and "seq_fits (dv_raft (driver_timer E d b))"
  shows "driver_ok (driver_timer E d b)"
proof -
  obtain r1 a1 r2 a2 where h: "heartbeat (dv_raft d) = (r1, a1)" "tick_election (dv_raft d) = (r2, a2)" by force
  from execute_bounded [OF assms(1) by_beat [OF h(1)]] execute_bounded [OF assms(1) by_tick [OF h(2)]] assms show ?thesis
    unfolding driver_timer_def h by (auto split: if_splits)
qed

lemma driver_step_ok:
  assumes "driver_ok d" and "cmd_ok d c" and "seq_fits (dv_raft (driver_step E d c))"
  shows "driver_ok (driver_step E d c)"
proof (cases c)
  case (Net "from" m)
  obtain r' acts where h: "handle (dv_raft d) from m = (r', acts)" by force
  have "member_step (dv_raft d) r' acts" using assms(2) by (intro by_net [OF h]) (simp_all add: Net cmd_ok_def)
  from execute_bounded [OF assms(1) this] assms(3) show ?thesis by (simp add: Net h)
next
  case (Exec sql params resp tag)
  with exec_ok [OF assms(1)] assms(3) show ?thesis by simp
next
  case (Batch ss resp tag)
  with batch_ok [OF assms(1)] assms(3) show ?thesis by simp
next
  case (Timer b)
  with timer_ok [OF assms(1)] assms(3) show ?thesis by simp
qed

lemma driver_ok_fresh:
  assumes "distinct g" and "NUL \<notin> set name"
  shows "driver_ok (driver_open store_new i name g L (db, 0))"
proof -
  have "raft_restore i g 0 None 0 0 [] 0 = raft_new i g" by (simp add: raft_restore_def raft_new_def)
  moreover have "load_d1_log store_new name = []" by (simp add: load_d1_log_def store_new_def rows_between_def)
  moreover have "load_d1_meta store_new name = (0, None, 0, 0)" by (simp add: load_d1_meta_def store_new_def)
  moreover have "d1_store_ok store_new" by (simp add: d1_store_ok_def d1_rows_ok_def store_new_def bt_ok_def)
  ultimately show ?thesis using assms raft_ok_new [OF assms(1), of i]
    by (simp add: driver_open_def driver_ok_def mirrors_def meta_of_def) (simp add: raft_new_def)
qed

text \<open>A toy database: a counter that the statement \<open>+\<close> increments.\<close>

definition demo_d1 :: "nat d1_env" where
  "demo_d1 =
     \<lparr>sq_readonly = (\<lambda>db sql. Some (sql = ''?'')), sq_columns = (\<lambda>db sql. 0),
      sq_query = (\<lambda>db sql ps. Some (db, [])),
      sq_execute = (\<lambda>db sql ps. if sql = ''+'' then Some (Suc db, 1) else None),
      sq_file = (\<lambda>(db, k). []), sq_open = (\<lambda>data. length data),
      enc_cmd = (\<lambda>c. if cm_sql c = ''+'' then [1] else [2]),
      dec_cmd = (\<lambda>b. Some \<lparr>cm_sql = (if b = [1] then ''+'' else ''x''), cm_params = [], cm_statements = [], cm_tag = 0\<rparr>),
      api_addr = (\<lambda>p. Some ''peer''), compact_threshold = 100, keep_tail = 10\<rparr>"

definition demo_driver :: "nat driver" where
  "demo_driver = driver_open store_new [1] ''app'' [[1], [2], [3]] [] (0, 0)"

lemma demo_driver_ok: "driver_ok demo_driver"
  unfolding demo_driver_def by (rule driver_ok_fresh) (simp_all add: NUL_def)

section \<open>Durability\<close>







section \<open>Replay after a restart\<close>

definition apply_state :: "'db d1_env \<Rightarrow> entry \<Rightarrow> 'db \<times> nat \<Rightarrow> 'db \<times> nat" where
  "apply_state E e st = fst (apply_tx E st e)"

lemma apply_state_cases:
  obtains "apply_state E e st = st" | db where "apply_state E e st = (db, en_seq e)"
proof -
  have "apply_state E e st = st \<or> (\<exists>db. apply_state E e st = (db, en_seq e))"
    by (simp add: apply_state_def apply_tx_def split: option.splits)
  then show ?thesis using that by blast
qed

lemma driver_apply_state: "(dv_sql (driver_apply E e d), dv_marker (driver_apply E e d)) = apply_state E e (dv_sql d, dv_marker d)"
  by (simp add: driver_apply_def apply_state_def Let_def split_def split: option.splits)

lemma fold_apply_state:
  "(dv_sql (fold (driver_apply E) es d), dv_marker (fold (driver_apply E) es d)) = fold (apply_state E) es (dv_sql d, dv_marker d)"
  by (induction es arbitrary: d) (simp_all add: driver_apply_state)

lemma apply_marker:
  assumes "run_from p es" and "snd st \<le> p"
  shows "snd (fold (apply_state E) es st) \<le> p + length es"
  using assms
proof (induction es arbitrary: p st)
  case (Cons e es)
  then have e: "en_seq e = Suc p" "run_from (Suc p) es" by (simp_all add: run_from_simps)
  have "snd (apply_state E e st) \<le> Suc p"
    using e(1) Cons.prems(2) by (cases rule: apply_state_cases [of E e st]) simp_all
  from Cons.IH [OF e(2) this] show ?case by simp
qed simp

lemma run_from_snoc: "run_from p (es @ [e]) \<longleftrightarrow> run_from p es \<and> en_seq e = Suc (p + length es)"
  by (induction es arbitrary: p) (auto simp: run_from_simps)

lemma replay_state:
  assumes "run_from p es" and "snd st \<le> p"
  shows "fold (apply_state E) (filter (\<lambda>e. snd (fold (apply_state E) es st) < en_seq e) es) (fold (apply_state E) es st)
    = fold (apply_state E) es st"
  using assms(1)
proof (induction es rule: rev_induct)
  case (snoc e es)
  let ?s = "fold (apply_state E) es st"
  from snoc.prems have r: "run_from p es" and e: "en_seq e = Suc (p + length es)" by (simp_all add: run_from_snoc)
  have m: "snd ?s < en_seq e" using apply_marker [OF r assms(2), of E] e by simp
  show ?case
  proof (cases rule: apply_state_cases [of E e ?s])
    case 1
    with snoc.IH [OF r] m show ?thesis by simp
  next
    case (2 db)
    have "\<forall>x \<in> set es. \<not> en_seq e < en_seq x" using run_from_upper [OF r] e by fastforce
    with 2 show ?thesis by (simp add: filter_empty_conv)
  qed
qed simp

text \<open>
  C21: a crash never makes a statement run twice.  The marker is written in the
  transaction of the statement it counts, and a failed command leaves both the
  database and the marker as they were.  So when a driver that applied a run of
  committed entries is reopened from its SQLite file and applies again every
  entry above the marker it finds there, the database and the marker are what
  they were before the crash - also when the last commands had failed.
\<close>

theorem replay_changes_nothing:
  assumes "run_from p es" and "dv_marker d \<le> p" and "d1 = fold (driver_apply E) es d"
    and "d2 = fold (driver_apply E) (filter (\<lambda>e. dv_marker d1 < en_seq e) es)
               (driver_open s i name g L (dv_sql d1, dv_marker d1))"
  shows "dv_sql d2 = dv_sql d1 \<and> dv_marker d2 = dv_marker d1"
proof -
  let ?o = "driver_open s i name g L (dv_sql d1, dv_marker d1)"
  have o: "(dv_sql ?o, dv_marker ?o) = (dv_sql d1, dv_marker d1)" by (simp add: driver_open_def split_def)
  have d1: "(dv_sql d1, dv_marker d1) = fold (apply_state E) es (dv_sql d, dv_marker d)"
    unfolding assms(3) by (rule fold_apply_state)
  have m: "snd (fold (apply_state E) es (dv_sql d, dv_marker d)) = dv_marker d1" unfolding d1 [symmetric] by simp
  have "(dv_sql d2, dv_marker d2) = fold (apply_state E) (filter (\<lambda>e. dv_marker d1 < en_seq e) es) (dv_sql d1, dv_marker d1)"
    unfolding assms(4) fold_apply_state o by (rule refl)
  also have "\<dots> = (dv_sql d1, dv_marker d1)"
    using replay_state [OF assms(1), of "(dv_sql d, dv_marker d)" E] assms(2) unfolding m d1 [symmetric] by simp
  finally show ?thesis by simp
qed

theorem replay_changes_nothing_witness:
  "let a = \<lparr>en_epoch = 1, en_seq = 1, en_cmd = [1]\<rparr>; b = \<lparr>en_epoch = 1, en_seq = 2, en_cmd = [2]\<rparr>;
       d1 = fold (driver_apply demo_d1) [a, b] demo_driver;
       d2 = fold (driver_apply demo_d1) (filter (\<lambda>e. dv_marker d1 < en_seq e) [a, b])
              (driver_open store_new [1] ''app'' [[1]] [] (dv_sql d1, dv_marker d1))
   in run_from 0 [a, b] \<and> (dv_sql d1, dv_marker d1) = (1, 1) \<and> dv_sql d2 = dv_sql d1 \<and> dv_marker d2 = dv_marker d1"
proof -
  let ?a = "\<lparr>en_epoch = 1, en_seq = 1, en_cmd = [1]\<rparr>" and ?b = "\<lparr>en_epoch = 1, en_seq = 2, en_cmd = [2]\<rparr>"
  have r: "run_from 0 [?a, ?b]" by (simp add: run_from_simps)
  have m: "dv_marker demo_driver \<le> 0" by code_simp
  have "(dv_sql (fold (driver_apply demo_d1) [?a, ?b] demo_driver), dv_marker (fold (driver_apply demo_d1) [?a, ?b] demo_driver)) = (1, 1)"
    by code_simp
  with r replay_changes_nothing [OF r m refl refl, of demo_d1 store_new "[1]" "''app''" "[[1]]" "[]"] show ?thesis
    by (simp only: Let_def simp_thms)
qed

section \<open>Snapshots\<close>

lemma persist_fold_meta:
  assumes "\<forall>n. PersistLog n \<notin> set acts" and "d1_store_ok s"
  shows "d1_store_ok (fold (persist_one name r) acts s)
    \<and> load_d1_log (fold (persist_one name r) acts s) name = load_d1_log s name"
  using assms
proof (induction acts arbitrary: s)
  case (Cons a acts)
  have "d1_store_ok (persist_one name r a s) \<and> load_d1_log (persist_one name r a s) name = load_d1_log s name"
    using Cons.prems by (cases a) auto
  with Cons.IH [of "persist_one name r a s"] Cons.prems show ?case by simp
qed simp

lemma install_step:
  assumes "epoch (dv_raft d) \<le> e" and "applied (dv_raft d) < ls"
  obtains r2 acts where
    "dv_raft (driver_step E d (Net from (InstallSnapshot e ls le data))) = r2"
    "dv_store (driver_step E d (Net from (InstallSnapshot e ls le data)))
      = put_d1_log (persist_meta (dv_name d) r2 (fold (persist_one (dv_name d) r2) acts (dv_store d))) (dv_name d) (ls + 1) []"
    "log r2 = []" "base_seq r2 = ls" "\<forall>n. PersistLog n \<notin> set acts"
proof -
  define r1 acts where "r1 = fst (accept_leader (dv_raft d) from e)" and "acts = snd (accept_leader (dv_raft d) from e)"
  have pair: "accept_leader (dv_raft d) from e = (r1, acts)" by (simp add: r1_def acts_def)
  have ap: "applied r1 = applied (dv_raft d)" by (simp add: r1_def accept_leader_simps become_follower_simps)
  let ?r2 = "r1\<lparr>log := [], base_seq := ls, base_epoch := le, commit := ls, applied := ls\<rparr>"
  let ?acts = "acts @ [ApplySnapshot ls data, PersistMeta, PersistLog (ls + 1), Send from (AppendResp (epoch r1) ls True)]"
  have h: "handle (dv_raft d) from (InstallSnapshot e ls le data) = (?r2, ?acts)"
    using assms ap by (simp add: handle_def handle_install_def pair)
  let ?f = "fold (execute_one E) ?acts (d\<lparr>dv_raft := ?r2\<rparr>)"
  have f: "dv_raft ?f = ?r2" "dv_store ?f
      = put_d1_log (persist_meta (dv_name d) ?r2 (fold (persist_one (dv_name d) ?r2) acts (dv_store d))) (dv_name d) (ls + 1) []"
    unfolding execute_fold_parts by (simp_all add: persist_log_def)
  have p: "dv_store (publish_leader x) = dv_store x" for x :: "'a driver"
    by (simp add: publish_leader_def split: option.splits)
  have "maybe_compact E ?f = ?f" unfolding maybe_compact_def f(1) by (simp add: split_def)
  then have "driver_step E d (Net from (InstallSnapshot e ls le data)) = publish_leader ?f"
    by (simp only: driver_step.simps h prod.case execute_def)
  with f p accept_saved(5) [of "dv_raft d" "from" e] that [of ?r2 acts] show ?thesis by (simp add: acts_def)
qed

text \<open>
  C22: a follower that restarts after installing a snapshot misreads its log.
  The snapshot empties the log in memory, but the driver only deletes rows above
  the snapshot point, so every old row stays.  A driver reopened from that store
  takes the old rows for the entries after the snapshot: asked for the first
  entry above the snapshot point it returns the first entry of the discarded
  log, with the wrong sequence number.
\<close>

theorem install_leaves_stale_rows:
  assumes "driver_ok d" and "log (dv_raft d) \<noteq> []"
    and "epoch (dv_raft d) \<le> e" and "last_seq (dv_raft d) \<le> ls" and "applied (dv_raft d) < ls" and "ls + 1 < 10 ^ 20"
    and "d' = driver_step E d (Net from (InstallSnapshot e ls le data))"
    and "r = dv_raft (driver_open (dv_store d') i (dv_name d) g L (db, k))"
  shows "log (dv_raft d') = [] \<and> base_seq (dv_raft d') = ls \<and> base_seq r = ls \<and> log r = log (dv_raft d)
    \<and> entry_at r (ls + 1) = Some (hd (log (dv_raft d))) \<and> \<not> log_ok r"
proof -
  have ok: "raft_ok (dv_raft d)" "NUL \<notin> set (dv_name d)" "d1_store_ok (dv_store d)" "mirrors (dv_name d) (dv_raft d) (dv_store d)"
    using assms(1) by (simp_all add: driver_ok_def)
  have lok: "log_ok (dv_raft d)" using ok(1) by (simp add: raft_ok_def)
  obtain r2 acts where s1: "dv_raft d' = r2" and
    st: "dv_store d' = put_d1_log (persist_meta (dv_name d) r2 (fold (persist_one (dv_name d) r2) acts (dv_store d))) (dv_name d) (ls + 1) []" and
    s: "log r2 = []" "base_seq r2 = ls" "\<forall>n. PersistLog n \<notin> set acts"
    unfolding assms(7) by (rule install_step [OF assms(3,5)])
  let ?s1 = "persist_meta (dv_name d) r2 (fold (persist_one (dv_name d) r2) acts (dv_store d))"
  have s2: "d1_store_ok ?s1" "load_d1_log ?s1 (dv_name d) = log (dv_raft d)" "load_d1_meta ?s1 (dv_name d) = meta_of r2"
    using persist_fold_meta [OF s(3) ok(3), of "dv_name d" r2] ok(4) by (simp_all add: mirrors_def)
  have all: "filter (\<lambda>e. en_seq e \<le> ls) (log (dv_raft d)) = log (dv_raft d)"
    using log_ok_nth [OF lok] last_seq_length [OF lok] assms(4) by (auto simp: filter_id_conv in_set_conv_nth)
  have "load_d1_log (dv_store d') (dv_name d) = log (dv_raft d)"
    using put_d1_log_spec(1) [OF s2(1) ok(2), of ls "[]"] assms(6) s2(2) all unfolding st by (simp add: run_from_simps)
  moreover have "load_d1_meta (dv_store d') (dv_name d) = meta_of r2"
    unfolding st using s2(3) by (simp add: put_d1_log_def load_d1_meta_def Let_def)
  ultimately have r: "log r = log (dv_raft d)" "base_seq r = ls"
    unfolding assms(8) by (simp_all add: driver_open_def meta_of_def raft_restore_def s(2))
  moreover have "entry_at r (ls + 1) = Some (hd (log (dv_raft d)))"
    using assms(2) by (simp add: entry_at_def r hd_conv_nth)
  moreover have "\<not> log_ok r"
  proof
    assume "log_ok r"
    from log_ok_nth [OF this, of 0] log_ok_nth [OF lok, of 0] last_seq_length [OF lok] assms(2,4) show False
      by (simp add: r)
  qed
  ultimately show ?thesis using s s1 by simp
qed

theorem install_leaves_stale_rows_witness:
  "let a = \<lparr>en_epoch = 1, en_seq = 1, en_cmd = [1]\<rparr>;
       d = driver_step demo_d1 demo_driver (Net [2] (Append 1 0 0 [a] 0));
       d' = driver_step demo_d1 d (Net [2] (InstallSnapshot 1 5 1 []));
       r = dv_raft (driver_open (dv_store d') [1] ''app'' [[1], [2], [3]] [] (0::nat, 5))
   in log (dv_raft d) = [a] \<and> log (dv_raft d') = [] \<and> base_seq r = 5 \<and> entry_at r 6 = Some a \<and> \<not> log_ok r"
proof -
  let ?a = "\<lparr>en_epoch = 1, en_seq = 1, en_cmd = [1]\<rparr>"
  let ?c = "Net [2] (Append 1 0 0 [?a] 0)"
  define d where "d = driver_step demo_d1 demo_driver ?c"
  have g: "[2] \<in> set (group (dv_raft demo_driver))" by code_simp
  have c: "cmd_ok demo_driver ?c" using g by (simp add: cmd_ok_def msg_ok_def replaces_log_def run_from_simps)
  have "last_seq (dv_raft d) = 1" unfolding d_def by code_simp
  then have fits: "seq_fits (dv_raft (driver_step demo_d1 demo_driver ?c))" by (simp add: seq_fits_def d_def)
  have ok: "driver_ok d" unfolding d_def by (rule driver_step_ok [OF demo_driver_ok c fits])
  have l: "log (dv_raft d) = [?a]" "epoch (dv_raft d) \<le> 1" "applied (dv_raft d) < 5" "dv_name d = ''app''"
    unfolding d_def by code_simp+
  have "log (dv_raft d) \<noteq> []" "last_seq (dv_raft d) \<le> 5" "(5::nat) + 1 < 10 ^ 20" using l \<open>last_seq _ = 1\<close> by simp_all
  from install_leaves_stale_rows [OF ok this(1) l(2) this(2) l(3) this(3) refl refl, of demo_d1 "[2]" 1 "[]" "[1]" "[[1], [2], [3]]" "[]" "0::nat" 5]
  show ?thesis unfolding Let_def d_def [symmetric] by (simp add: l)
qed
end
