(* ===== verification/Node_State.thy ===== *)
theory Node_State
  imports Store
begin

text \<open>
  The shared state of a node and its operations, \<^verbatim>\<open>crates/rf/src/node.rs\<close>: manifests,
  claims and key-value namespaces in memory, each change written through to the
  store, and the start from disk.  An operation reads the wall clock once, as
  its argument \<open>now\<close>.  Cryptography and codecs are the fields of \<open>node_env\<close>;
  of the configuration and of a peer's view only the identity and the role are kept,
  and ports, runtime status and request logs are not part of the state.
\<close>

section \<open>State\<close>

record node_env =
  ne_crypto :: crypto
  ne_enc_claim :: "claim \<Rightarrow> bytes"
  ne_dec_claim :: "bytes \<Rightarrow> claim option"
  ne_dec_manifest :: "bytes \<Rightarrow> worker_manifest option"

datatype node_event = ManifestsEvent | OwnClaims | KvEvent string | RuntimeEvent

record peer_view =
  pv_api_addr :: "string option"
  pv_public :: bool
  pv_label :: string

record node_config =
  cfg_operator :: signer_id
  cfg_public :: bool
  cfg_label :: string

record node =
  nd_cfg :: node_config
  nd_seed :: bytes
  nd_clock :: clock
  nd_claims :: claim_set
  nd_manifests :: manifest_set
  nd_kv :: "(string, kv_ns) hash_map"
  nd_peers :: "(string, peer_view) btree_map"
  nd_window :: "u64 \<times> u64"
  nd_generation :: u64
  nd_store :: store
  nd_events :: "node_event list"

definition RESOURCE_NAMESPACE :: string where
  "RESOURCE_NAMESPACE = ''__rf_platform_resources_v1''"

definition node_id :: "node_env \<Rightarrow> node \<Rightarrow> public_id" where
  "node_id E n = ed_public (ne_crypto E) (nd_seed n)"

definition id_hex :: "node_env \<Rightarrow> node \<Rightarrow> string" where
  "id_hex E n = public_id_show (node_id E n)"

definition emit :: "node_event \<Rightarrow> node \<Rightarrow> node" where
  "emit ev n = n\<lparr>nd_events := nd_events n @ [ev]\<rparr>"

definition kv_metadata_namespace :: "node_env \<Rightarrow> string \<Rightarrow> string" where
  "kv_metadata_namespace E ns = ''__rf_kvmeta/'' @ hex_encode (sha256 (ne_crypto E) (as_bytes ns))"

text \<open>\<open>entry(ns).or_default()\<close>.\<close>

definition kv_space :: "(string, kv_ns) hash_map \<Rightarrow> string \<Rightarrow> kv_ns" where
  "kv_space kv ns = (case map_of kv ns of Some s \<Rightarrow> s | None \<Rightarrow> kv_new)"

section \<open>Start from disk\<close>

definition hydrate_kv ::
  "node_env \<Rightarrow> u64 \<Rightarrow> (string \<times> string \<times> kv_entry) list \<Rightarrow> clock \<times> (string, kv_ns) hash_map \<Rightarrow> clock \<times> (string, kv_ns) hash_map" where
  "hydrate_kv E now rows st =
     fold (\<lambda>(ns, key, e) (clk, kv).
        (clock_observe clk (e_hlc e) now,
         hm_insert ns (fst (kv_merge (sha256 (ne_crypto E)) (kv_space kv ns) key e)) kv)) rows st"

definition node_open :: "node_env \<Rightarrow> node_config \<Rightarrow> bytes \<Rightarrow> store \<Rightarrow> u64 \<Rightarrow> node option" where
  "node_open E cfg seed s now =
     (let cr = ne_crypto E;
          ms = fold (\<lambda>env ms. fst (manifest_ingest cr (ne_dec_manifest E) ms env)) (load_manifests s)
                 (manifests_new (cfg_operator cfg));
          cs = fold (\<lambda>env cs. fst (claim_ingest cr (ne_dec_claim E) cs env)) (load_claims s) claims_new
      in case load_kv s of
           None \<Rightarrow> None
         | Some rows \<Rightarrow>
             (let (clk, kv) = hydrate_kv E now rows (clock_new, [])
              in Some \<lparr>nd_cfg = cfg, nd_seed = seed, nd_clock = clk, nd_claims = cs, nd_manifests = ms, nd_kv = kv,
                       nd_peers = [], nd_window = (0, 0),
                       nd_generation = (if map_of kv RESOURCE_NAMESPACE \<noteq> None then 1 else 0),
                       nd_store = s, nd_events = []\<rparr>))"

section \<open>Manifests\<close>

definition ingest_manifest :: "node_env \<Rightarrow> node \<Rightarrow> envelope \<Rightarrow> node \<times> (manifest_error + bool)" where
  "ingest_manifest E n env =
     (case manifest_ingest (ne_crypto E) (ne_dec_manifest E) (nd_manifests n) env of
        (ms, Inl e) \<Rightarrow> (n\<lparr>nd_manifests := ms\<rparr>, Inl e)
      | (ms, Inr ManStale) \<Rightarrow> (n\<lparr>nd_manifests := ms\<rparr>, Inr False)
      | (ms, Inr ManChanged) \<Rightarrow>
          (case envelope_open (ne_crypto E) (ne_dec_manifest E) (Some (cfg_operator (nd_cfg n))) env of
             Inl e \<Rightarrow> (n\<lparr>nd_manifests := ms\<rparr>, Inl (ManEnvelope e))
           | Inr w \<Rightarrow>
               (emit ManifestsEvent
                  (n\<lparr>nd_manifests := ms,
                     nd_store := put_log (put_manifest (nd_store n) (w_name w) env) (w_name w) (w_version w) env\<rparr>),
                Inr True)))"

definition manifest_envelopes :: "node \<Rightarrow> envelope list" where
  "manifest_envelopes n = map mr_envelope (manifests_all (nd_manifests n))"

definition manifest_digest_hex :: "node_env \<Rightarrow> node \<Rightarrow> string" where
  "manifest_digest_hex E n = hex_encode (manifests_digest (sha256 (ne_crypto E)) (nd_manifests n))"

definition node_manifest :: "node \<Rightarrow> string \<Rightarrow> worker_manifest option" where
  "node_manifest n name = map_option mr_manifest (manifest_get (nd_manifests n) name)"

definition live_manifests :: "node \<Rightarrow> worker_manifest list" where
  "live_manifests n = map mr_manifest (manifests_live (nd_manifests n))"

definition manifest_names :: "node \<Rightarrow> string list" where
  "manifest_names n = remdups_adj (sort (map (\<lambda>r. w_name (mr_manifest r)) (manifests_all (nd_manifests n))))"

definition manifest_log :: "node \<Rightarrow> string \<Rightarrow> envelope list" where
  "manifest_log n name = load_log (nd_store n) name"

definition manifest_head :: "node \<Rightarrow> string \<Rightarrow> (u64 \<times> bytes) option" where
  "manifest_head n name = map_option (\<lambda>r. (w_version (mr_manifest r), mr_digest r)) (manifest_get (nd_manifests n) name)"

definition anchor_digest :: "node_env \<Rightarrow> node \<Rightarrow> string \<times> nat" where
  "anchor_digest E n =
     (let heads = sort (map (\<lambda>r. (w_name (mr_manifest r), w_version (mr_manifest r), mr_digest r)) (manifests_all (nd_manifests n)))
      in (hex_encode (sha256 (ne_crypto E) (concat (map (\<lambda>(name, version, digest).
            as_bytes name @ le_bytes_u64 version @ digest) heads))), length heads))"

section \<open>Claims\<close>

definition ingest_claim :: "node_env \<Rightarrow> node \<Rightarrow> u64 \<Rightarrow> envelope \<Rightarrow> node \<times> bool" where
  "ingest_claim E n now env =
     (case claim_ingest (ne_crypto E) (ne_dec_claim E) (nd_claims n) env of
        (cs, Inr Changed) \<Rightarrow>
          (let n1 = n\<lparr>nd_claims := cs\<rparr>;
               n2 = (case envelope_open (ne_crypto E) (ne_dec_claim E) None env of
                       Inr c \<Rightarrow> n1\<lparr>nd_clock := clock_observe (nd_clock n1) (c_renewed c) now,
                                   nd_store := put_claim (nd_store n1) (c_task c) (public_id_show (c_holder c)) env\<rparr>
                     | Inl _ \<Rightarrow> n1)
           in (emit OwnClaims n2, True))
      | (cs, _) \<Rightarrow> (n\<lparr>nd_claims := cs\<rparr>, False))"

definition claim_try :: "node_env \<Rightarrow> node \<Rightarrow> u64 \<Rightarrow> string \<Rightarrow> u64 \<Rightarrow> node \<times> bool" where
  "claim_try E n now task ttl_ms =
     (if \<not> open_for_claim (nd_claims n) task now then (n, False)
      else
        (let (clk, t) = clock_now (nd_clock n) now;
             env = make_claim (ne_crypto E) (ne_enc_claim E) (nd_seed n) task t ttl_ms
         in (emit OwnClaims (fst (ingest_claim E (n\<lparr>nd_clock := clk\<rparr>) now env)), True)))"

definition node_holds :: "node_env \<Rightarrow> node \<Rightarrow> u64 \<Rightarrow> string \<Rightarrow> bool" where
  "node_holds E n now task = holds (nd_claims n) task (node_id E n) now"

definition claim_renew :: "node_env \<Rightarrow> node \<Rightarrow> u64 \<Rightarrow> string \<Rightarrow> bool \<Rightarrow> node" where
  "claim_renew E n now task release =
     (case mine (nd_claims n) task (node_id E n) of
        None \<Rightarrow> n
      | Some r \<Rightarrow>
          (let (clk, t) = clock_now (nd_clock n) now;
               env = renew_claim (ne_crypto E) (ne_enc_claim E) (nd_seed n) (r_claim r) t release
           in emit OwnClaims (fst (ingest_claim E (n\<lparr>nd_clock := clk\<rparr>) now env))))"

definition own_claim_envelopes :: "node_env \<Rightarrow> node \<Rightarrow> u64 \<Rightarrow> (string \<times> envelope) list" where
  "own_claim_envelopes E n now =
     List.map_filter (\<lambda>env.
       case envelope_open (ne_crypto E) (ne_dec_claim E) None env of
         Inl _ \<Rightarrow> None
       | Inr c \<Rightarrow> if c_holder c = node_id E n then Some (c_task c, env) else None)
     (live_envelopes (nd_claims n) now)"

definition claim_envelopes :: "node \<Rightarrow> u64 \<Rightarrow> envelope list" where
  "claim_envelopes n now = live_envelopes (nd_claims n) now"

section \<open>Key-value namespaces\<close>

definition kv_put_entry :: "node_env \<Rightarrow> node \<Rightarrow> u64 \<Rightarrow> string \<Rightarrow> string \<Rightarrow> bytes option \<Rightarrow> u64 option \<Rightarrow> node" where
  "kv_put_entry E n now ns key value expires =
     (let (clk, h) = clock_now (nd_clock n) now;
          (space, e) = Kv.kv_put (kv_space (nd_kv n) ns) key value h (node_id E n) expires
      in emit (KvEvent ns)
           (n\<lparr>nd_clock := clk, nd_kv := hm_insert ns space (nd_kv n),
              nd_generation := (if ns = RESOURCE_NAMESPACE then nd_generation n + 1 else nd_generation n),
              nd_store := put_kv (nd_store n) ns key e\<rparr>))"

definition node_kv_put :: "node_env \<Rightarrow> node \<Rightarrow> u64 \<Rightarrow> string \<Rightarrow> string \<Rightarrow> bytes option \<Rightarrow> u64 option \<Rightarrow> node" where
  "node_kv_put E n now ns key value expires =
     (let n1 = kv_put_entry E n now ns key value expires
      in if starts_with ns ''__rf'' then n1
         else kv_put_entry E n1 now (kv_metadata_namespace E ns) key None None)"

definition kv_put_with_metadata ::
  "node_env \<Rightarrow> node \<Rightarrow> u64 \<Rightarrow> string \<Rightarrow> string \<Rightarrow> bytes option \<Rightarrow> u64 option \<Rightarrow> bytes option \<Rightarrow> node" where
  "kv_put_with_metadata E n now ns key value expires metadata =
     kv_put_entry E (kv_put_entry E n now ns key value expires) now (kv_metadata_namespace E ns) key metadata expires"

definition node_kv_get :: "node \<Rightarrow> u64 \<Rightarrow> string \<Rightarrow> string \<Rightarrow> bytes option" where
  "node_kv_get n now ns key = (case map_of (nd_kv n) ns of None \<Rightarrow> None | Some s \<Rightarrow> kv_get s key now)"

definition kv_get_with_metadata :: "node_env \<Rightarrow> node \<Rightarrow> u64 \<Rightarrow> string \<Rightarrow> string \<Rightarrow> (bytes \<times> bytes option) option" where
  "kv_get_with_metadata E n now ns key =
     (case node_kv_get n now ns key of
        None \<Rightarrow> None
      | Some value \<Rightarrow> Some (value, node_kv_get n now (kv_metadata_namespace E ns) key))"

definition node_kv_list :: "node \<Rightarrow> u64 \<Rightarrow> string \<Rightarrow> string \<Rightarrow> nat \<Rightarrow> string list" where
  "node_kv_list n now ns pfx limit = (case map_of (nd_kv n) ns of Some s \<Rightarrow> kv_list s pfx now limit | None \<Rightarrow> [])"

text \<open>The loop of \<open>kv_list_page_plain\<close> over the listed keys: it stops at \<open>limit\<close> and says whether more remain.\<close>

fun page_scan :: "kv_ns \<Rightarrow> nat \<Rightarrow> string option \<Rightarrow> (string \<times> u64 option) list \<Rightarrow> string list \<Rightarrow> (string \<times> u64 option) list \<times> bool" where
  "page_scan s limit cursor output [] = (output, False)"
| "page_scan s limit cursor output (key # keys) =
     (if (case cursor of Some c \<Rightarrow> key \<le> c | None \<Rightarrow> False) then page_scan s limit cursor output keys
      else if length output = limit then (output, True)
      else page_scan s limit cursor (output @ [(key, case kv_entry_at s key of Some e \<Rightarrow> e_expires_at_ms e | None \<Rightarrow> None)]) keys)"

text \<open>The argument \<open>usize::MAX\<close> of \<open>list\<close> never cuts a listing held in memory, so the length of the namespace stands for it.\<close>

definition kv_list_page ::
  "node \<Rightarrow> u64 \<Rightarrow> string \<Rightarrow> string \<Rightarrow> nat \<Rightarrow> string option \<Rightarrow> (string \<times> u64 option) list \<times> bool \<times> string option" where
  "kv_list_page n now ns pfx limit cursor =
     (case map_of (nd_kv n) ns of
        None \<Rightarrow> ([], True, None)
      | Some s \<Rightarrow>
          (let (output, more) = page_scan s limit cursor [] (kv_list s pfx now (kv_len s))
           in (output, \<not> more, if more \<and> output \<noteq> [] then Some (fst (last output)) else None)))"

definition kv_list_page_with_metadata ::
  "node_env \<Rightarrow> node \<Rightarrow> u64 \<Rightarrow> string \<Rightarrow> string \<Rightarrow> nat \<Rightarrow> string option
    \<Rightarrow> (string \<times> u64 option \<times> bytes option) list \<times> bool \<times> string option" where
  "kv_list_page_with_metadata E n now ns pfx limit cursor =
     (case kv_list_page n now ns pfx limit cursor of
        (items, complete, next_cursor) \<Rightarrow>
          (map (\<lambda>(key, expiration). (key, expiration, node_kv_get n now (kv_metadata_namespace E ns) key)) items,
           complete, next_cursor))"

fun merge_items ::
  "node_env \<Rightarrow> u64 \<Rightarrow> string \<Rightarrow> (string \<times> kv_entry) list \<Rightarrow> node \<times> nat \<Rightarrow> node \<times> nat" where
  "merge_items E now ns [] st = st"
| "merge_items E now ns ((key, e) # items) (n, hits) =
     (case kv_merge (sha256 (ne_crypto E)) (kv_space (nd_kv n) ns) key e of
        (space, outcome) \<Rightarrow>
          (let n1 = n\<lparr>nd_clock := clock_observe (nd_clock n) (e_hlc e) now, nd_kv := hm_insert ns space (nd_kv n)\<rparr>
           in if outcome = Applied
              then merge_items E now ns items (n1\<lparr>nd_store := put_kv (nd_store n1) ns key e\<rparr>, hits + 1)
              else merge_items E now ns items (n1, hits)))"

definition kv_merge_remote :: "node_env \<Rightarrow> node \<Rightarrow> u64 \<Rightarrow> string \<Rightarrow> (string \<times> kv_entry) list \<Rightarrow> node \<times> nat" where
  "kv_merge_remote E n now ns items =
     (let (n1, hits) = merge_items E now ns items (n, 0);
          n2 = (if hits > 0 \<and> ns = RESOURCE_NAMESPACE then n1\<lparr>nd_generation := nd_generation n1 + 1\<rparr> else n1)
      in (if hits > 0 then emit (KvEvent ns) n2 else n2, hits))"

definition kv_digests :: "node_env \<Rightarrow> node \<Rightarrow> (string, string) btree_map" where
  "kv_digests E n = fold (\<lambda>(ns, s). bt_insert ns (hex_encode (kv_digest (sha256 (ne_crypto E)) s))) (nd_kv n) []"

definition node_kv_dump :: "node \<Rightarrow> string \<Rightarrow> (string \<times> kv_entry) list" where
  "node_kv_dump n ns = (case map_of (nd_kv n) ns of Some s \<Rightarrow> kv_dump s | None \<Rightarrow> [])"

section \<open>Peers, request budget and collection\<close>

definition update_peers :: "node \<Rightarrow> (string, peer_view) btree_map \<Rightarrow> node" where
  "update_peers n peers = n\<lparr>nd_peers := peers\<rparr>"

text \<open>The public nodes of a view, in order, and the share of the node of a given rank.\<close>

definition public_nodes :: "node_env \<Rightarrow> node \<Rightarrow> string list" where
  "public_nodes E n =
     (let known = map fst (filter (\<lambda>(_, p). pv_public p) (nd_peers n));
          ids = (if cfg_public (nd_cfg n) then insort_insert (id_hex E n) known else known)
      in if ids = [] then [id_hex E n] else ids)"

definition position :: "string list \<Rightarrow> string \<Rightarrow> nat" where
  "position ids x = (if x \<in> set ids then length (takeWhile (\<lambda>y. y \<noteq> x) ids) else 0)"

definition local_share :: "nat \<Rightarrow> string list \<Rightarrow> string \<Rightarrow> nat" where
  "local_share limit ids self =
     limit div length ids + (if position ids self < limit mod length ids then 1 else 0)"

definition admit_request :: "node_env \<Rightarrow> node \<Rightarrow> u64 \<Rightarrow> u64 \<Rightarrow> node \<times> bool" where
  "admit_request E n limit now =
     (let minute = now div 60000;
          local_limit = local_share (unat limit) (public_nodes E n) (id_hex E n);
          n1 = (if fst (nd_window n) \<noteq> minute then n\<lparr>nd_window := (minute, 0)\<rparr> else n)
      in if local_limit \<le> unat (snd (nd_window n1)) then (n1, False)
         else (n1\<lparr>nd_window := (minute, snd (nd_window n1) + 1)\<rparr>, True))"

definition HORIZON_MS :: u64 where
  "HORIZON_MS = 24 * 3600 * 1000"

definition node_gc :: "node \<Rightarrow> u64 \<Rightarrow> node" where
  "node_gc n now =
     n\<lparr>nd_claims := fst (claims_gc (nd_claims n) now HORIZON_MS),
       nd_kv := map (\<lambda>(ns, s). (ns, fst (kv_gc s now HORIZON_MS))) (nd_kv n)\<rparr>"

end
