(* ===== verification/Node_Reopen.thy ===== *)
theory Node_Reopen
  imports Node_State
begin

text \<open>
  Static stability: a node restarted from its store alone serves what it served
  before.  Memory and store are related table by table; each operation of the
  node keeps the relation, and starting from the tables is loading distinct rows
  into an empty keyed store.
\<close>

section \<open>Loading distinct rows\<close>

context keyed_store
begin

lemma look_load:
  assumes "ok s" and "distinct (map fst rows)"
  shows "look (fold absorb rows s) k = (case map_of rows k of Some e \<Rightarrow> Some (join (look s k) e) | None \<Rightarrow> look s k)"
  using assms
proof (induction rows arbitrary: s)
  case (Cons row rows)
  obtain k0 e where row: "row = (k0, e)" by (cases row)
  from Cons.prems have "map_of rows k0 = None" by (simp add: row map_of_eq_None_iff)
  with Cons.IH [OF ok_absorb [OF Cons.prems(1)]] Cons.prems look_absorb [OF Cons.prems(1)] show ?case
    by (auto simp: row split: option.splits)
qed simp

lemma look_load_fresh:
  "ok s \<Longrightarrow> look s k = None \<Longrightarrow> distinct (map fst rows) \<Longrightarrow> look (fold absorb rows s) k = map_of rows k"
  by (simp add: look_load join_None split: option.splits)

end

text \<open>All namespaces of a node as one store keyed by namespace and key.\<close>

definition spaces_look :: "(string, kv_ns) hash_map \<Rightarrow> string \<times> string \<Rightarrow> kv_entry option" where
  "spaces_look kv = (\<lambda>(ns, key). kv_entry_at (kv_space kv ns) key)"

definition spaces_absorb ::
  "(bytes \<Rightarrow> bytes) \<Rightarrow> (string \<times> string) \<times> kv_entry \<Rightarrow> (string, kv_ns) hash_map \<Rightarrow> (string, kv_ns) hash_map" where
  "spaces_absorb sha = (\<lambda>((ns, key), e) kv. hm_insert ns (fst (kv_merge sha (kv_space kv ns) key e)) kv)"

definition spaces_ok :: "(string, kv_ns) hash_map \<Rightarrow> bool" where
  "spaces_ok kv \<longleftrightarrow> hm_ok kv \<and> (\<forall>s \<in> snd ` set kv. kv_ok s)"

lemma spaces_ok_space: "spaces_ok kv \<Longrightarrow> kv_ok (kv_space kv ns)"
  by (auto simp: spaces_ok_def kv_space_def kv_ok_new split: option.splits dest!: map_of_SomeD)

lemma spaces_ok_insert:
  assumes "spaces_ok kv" and "kv_ok s"
  shows "spaces_ok (hm_insert ns s kv)"
proof -
  have "snd ` set (hm_insert ns s kv) \<subseteq> insert s (snd ` set kv)"
    by (induction kv) auto
  with assms have "\<forall>x \<in> snd ` set (hm_insert ns s kv). kv_ok x" unfolding spaces_ok_def by blast
  with assms(1) show ?thesis by (simp add: spaces_ok_def hm_ok_insert)
qed

lemma kv_space_insert: "kv_space (hm_insert ns s kv) ns' = (if ns' = ns then s else kv_space kv ns')"
  by (simp add: kv_space_def update_conv')

interpretation spaces: keyed_store "kv_rank sha" "\<lambda>_ _. False" "kv_join sha" spaces_look "spaces_absorb sha" spaces_ok for sha
proof unfold_locales
  fix kv :: "(string, kv_ns) hash_map" and i :: "(string \<times> string) \<times> kv_entry"
  assume ok: "spaces_ok kv"
  obtain ns key e where i: "i = ((ns, key), e)" by (cases i) auto
  show "spaces_ok (spaces_absorb sha i kv)"
    using spaces_ok_insert [OF ok kv_ok_merge [OF spaces_ok_space [OF ok]]] by (simp add: i spaces_absorb_def)
next
  fix kv :: "(string, kv_ns) hash_map" and k k' :: "string \<times> string" and e
  assume ok: "spaces_ok kv"
  obtain ns key ns' key' where k: "k = (ns, key)" "k' = (ns', key')" by (cases k, cases k')
  have "kv_entry_at (fst (kv_merge sha (kv_space kv ns) key e)) key'
      = (if key' = key then Some (kv_join sha (kv_entry_at (kv_space kv ns) key) e) else kv_entry_at (kv_space kv ns) key')"
    using kv.look_absorb [OF spaces_ok_space [OF ok], of sha key e ns key'] by (simp add: kv_absorb_def)
  then show "spaces_look (spaces_absorb sha (k, e) kv) k' = (if k' = k then Some (kv_join sha (spaces_look kv k) e) else spaces_look kv k')"
    by (auto simp: k spaces_look_def spaces_absorb_def kv_space_insert)
qed

section \<open>Memory and store\<close>

definition man_row :: "node_env \<Rightarrow> signer_id \<Rightarrow> string \<Rightarrow> envelope option \<Rightarrow> manifest_record option \<Rightarrow> bool" where
  "man_row E op name stored cur \<longleftrightarrow>
     (case cur of
        None \<Rightarrow> stored = None
      | Some r \<Rightarrow> stored = Some (mr_envelope r) \<and> w_name (mr_manifest r) = name \<and>
          man_check (ne_crypto E) (ne_dec_manifest E) op (mr_envelope r) = Inr (mr_manifest r) \<and>
          r = man_record (ne_crypto E) (mr_envelope r) (mr_manifest r))"

definition man_mirror :: "node_env \<Rightarrow> node \<Rightarrow> bool" where
  "man_mirror E n \<longleftrightarrow>
     bt_ok (st_manifests (nd_store n)) \<and> man_ok (nd_manifests n) \<and> ms_operator (nd_manifests n) = cfg_operator (nd_cfg n) \<and>
     (\<forall>name. man_row E (cfg_operator (nd_cfg n)) name (map_of (st_manifests (nd_store n)) name) (manifest_get (nd_manifests n) name))"

definition claim_row :: "node_env \<Rightarrow> string \<Rightarrow> envelope \<Rightarrow> bool" where
  "claim_row E k env \<longleftrightarrow>
     (\<exists>c. claim_check (ne_crypto E) (ne_dec_claim E) env = Inr c \<and> k = claim_key (c_task c) (public_id_show (c_holder c)))"

definition claim_mirror :: "node_env \<Rightarrow> node \<Rightarrow> bool" where
  "claim_mirror E n \<longleftrightarrow>
     bt_ok (st_claims (nd_store n)) \<and> claims_wf (nd_claims n) \<and>
     (\<forall>(k, env) \<in> set (st_claims (nd_store n)). claim_row E k env) \<and>
     (\<forall>t h r. mine (nd_claims n) t h = Some r \<longrightarrow>
        (\<exists>env c. map_of (st_claims (nd_store n)) (claim_key t (public_id_show h)) = Some env \<and>
           claim_check (ne_crypto E) (ne_dec_claim E) env = Inr c \<and> c_task c = t \<and> c_holder c = h \<and>
           r = record_of (ne_crypto E) env c))"

text \<open>From time \<open>T\<close> on, an entry that memory has dropped is invisible.\<close>

definition kv_row :: "u64 \<Rightarrow> kv_entry option \<Rightarrow> kv_entry option \<Rightarrow> bool" where
  "kv_row T stored cur \<longleftrightarrow>
     (case cur of
        Some e \<Rightarrow> stored = Some e
      | None \<Rightarrow> (case stored of Some e \<Rightarrow> \<forall>t. T \<le> t \<longrightarrow> visible e t = None | None \<Rightarrow> True))"

definition kv_mirror :: "u64 \<Rightarrow> node \<Rightarrow> bool" where
  "kv_mirror T n \<longleftrightarrow>
     bt_ok (st_kv (nd_store n)) \<and> spaces_ok (nd_kv n) \<and>
     (\<forall>(k, e) \<in> set (st_kv (nd_store n)). \<exists>ns key. NUL \<notin> set ns \<and> k = kv_key ns key) \<and>
     (\<forall>ns key. spaces_look (nd_kv n) (ns, key) \<noteq> None \<longrightarrow> NUL \<notin> set ns) \<and>
     (\<forall>ns key. NUL \<notin> set ns \<longrightarrow> kv_row T (map_of (st_kv (nd_store n)) (kv_key ns key)) (spaces_look (nd_kv n) (ns, key)))"

lemma kv_key_inj: "NUL \<notin> set ns \<Longrightarrow> NUL \<notin> set ns' \<Longrightarrow> kv_key ns key = kv_key ns' key' \<longleftrightarrow> ns = ns' \<and> key = key'"
proof -
  assume n: "NUL \<notin> set ns" "NUL \<notin> set ns'"
  have "split_once NUL (kv_key ns key) = Some (ns, key)" "split_once NUL (kv_key ns' key') = Some (ns', key')"
    unfolding split_once_Some kv_key_def using n by blast+
  then show ?thesis by (metis option.inject prod.inject)
qed

lemma hex_no_NUL: "NUL \<notin> set (hex_encode bs)"
proof -
  have "NUL \<noteq> c" if "c \<in> set (hex_encode bs)" for c
    using that hex_encode_codes [of c bs] by (auto simp: NUL_def)
  then show ?thesis by blast
qed

lemma claim_key_inj: "claim_key t (public_id_show h) = claim_key t' (public_id_show h') \<longleftrightarrow> t = t' \<and> h = h'"
proof
  assume eq: "claim_key t (public_id_show h) = claim_key t' (public_id_show h')"
  have "rev (public_id_show h) = takeWhile (\<lambda>c. c \<noteq> NUL) (rev (claim_key t (public_id_show h)))" for t h
    using hex_no_NUL [of h] by (auto simp: claim_key_def public_id_show_def takeWhile_append intro!: takeWhile_eq_all_conv [THEN iffD2, symmetric])
  with eq have "public_id_show h = public_id_show h'" by (metis rev_rev_ident)
  with eq show "t = t' \<and> h = h'" using hex_encode_inj by (auto simp: claim_key_def public_id_show_def)
qed simp


section \<open>Opening\<close>

lemma map_of_map_row:
  "map_of (map (\<lambda>(k, v). (k, f k v)) rows) k = map_option (f k) (map_of rows k)"
  by (induction rows) auto

lemma load_manifests_fold:
  assumes "ms_operator ms = op"
    and "\<forall>(k, env) \<in> set rows. \<exists>w. man_check cr dec op env = Inr w \<and> w_name w = k"
  shows "fold (\<lambda>env ms. fst (manifest_ingest cr dec ms env)) (map snd rows) ms
    = fold man_absorb (map (\<lambda>(k, env). (k, man_record cr env (projr (man_check cr dec op env)))) rows) ms"
  using assms
proof (induction rows arbitrary: ms)
  case (Cons row rows)
  obtain k env where row: "row = (k, env)" by (cases row)
  with Cons.prems obtain w where w: "man_check cr dec op env = Inr w" "w_name w = k" by auto
  have "fst (manifest_ingest cr dec ms env) = man_absorb (k, man_record cr env w) ms"
    using w Cons.prems(1) by (simp add: manifest_ingest_absorb)
  with Cons.IH [of "man_absorb (k, man_record cr env w) ms"] Cons.prems show ?case by (simp add: row w(1))
qed simp

lemma reopen_manifests:
  assumes "man_mirror E n"
  shows "manifest_get (fold (\<lambda>env ms. fst (manifest_ingest (ne_crypto E) (ne_dec_manifest E) ms env))
      (load_manifests (nd_store n)) (manifests_new (cfg_operator (nd_cfg n)))) name = manifest_get (nd_manifests n) name"
proof -
  let ?op = "cfg_operator (nd_cfg n)" and ?rows = "st_manifests (nd_store n)"
  let ?f = "\<lambda>env. man_record (ne_crypto E) env (projr (man_check (ne_crypto E) (ne_dec_manifest E) ?op env))"
  have m: "man_row E ?op k (map_of ?rows k) (manifest_get (nd_manifests n) k)" for k
    using assms by (simp add: man_mirror_def)
  have d: "distinct (map fst ?rows)" using assms by (simp add: man_mirror_def bt_ok_distinct)
  have row: "\<exists>w. man_check (ne_crypto E) (ne_dec_manifest E) ?op env = Inr w \<and> w_name w = k" if "(k, env) \<in> set ?rows" for k env
  proof -
    have "map_of ?rows k = Some env" using d that by simp
    with m [of k] show ?thesis by (auto simp: man_row_def split: option.splits)
  qed
  have d': "distinct (map fst (map (\<lambda>(k, env). (k, ?f env)) ?rows))" using d by (simp add: split_def comp_def)
  have "manifest_get (fold man_absorb (map (\<lambda>(k, env). (k, ?f env)) ?rows) (manifests_new ?op)) name = map_option ?f (map_of ?rows name)"
    using man.look_load_fresh [OF man_ok_new manifest_get_new d'] by (simp only: map_of_map_row)
  also have "\<dots> = manifest_get (nd_manifests n) name" using m [of name] by (auto simp: man_row_def split: option.splits)
  finally show ?thesis
    unfolding load_manifests_def
    by (subst load_manifests_fold [where op = ?op]) (use row in auto)
qed

lemma load_claims_fold:
  assumes "\<forall>(k, env) \<in> set rows. \<exists>c. claim_check cr dec env = Inr c"
  shows "fold (\<lambda>env cs. fst (claim_ingest cr dec cs env)) (map snd rows) cs
    = fold claim_absorb (map (\<lambda>(k, env). ((c_task (projr (claim_check cr dec env)), c_holder (projr (claim_check cr dec env))),
        record_of cr env (projr (claim_check cr dec env)))) rows) cs"
  using assms
proof (induction rows arbitrary: cs)
  case (Cons row rows)
  obtain k env where row: "row = (k, env)" by (cases row)
  with Cons.prems obtain c where c: "claim_check cr dec env = Inr c" by auto
  have "fst (claim_ingest cr dec cs env) = claim_absorb ((c_task c, c_holder c), record_of cr env c) cs"
    using c by (simp add: claim_ingest_def claim_absorb_def)
  with Cons.IH [of "claim_absorb ((c_task c, c_holder c), record_of cr env c) cs"] Cons.prems show ?case by (simp add: row c)
qed simp

lemma reopen_claims:
  assumes "claim_mirror E n" and "mine (nd_claims n) t h = Some r"
  shows "mine (fold (\<lambda>env cs. fst (claim_ingest (ne_crypto E) (ne_dec_claim E) cs env)) (load_claims (nd_store n)) claims_new) t h = Some r"
proof -
  let ?cr = "ne_crypto E" and ?rows = "st_claims (nd_store n)"
  let ?c = "\<lambda>env. projr (claim_check ?cr (ne_dec_claim E) env)"
  let ?items = "map (\<lambda>(k, env). ((c_task (?c env), c_holder (?c env)), record_of ?cr env (?c env))) ?rows"
  have rows: "claim_row E k env" if "(k, env) \<in> set ?rows" for k env using assms(1) that by (auto simp: claim_mirror_def)
  have keys: "map (\<lambda>(k, env). claim_key (c_task (?c env)) (public_id_show (c_holder (?c env)))) ?rows = map fst ?rows"
    using rows by (intro map_cong refl) (force simp: claim_row_def)
  have "distinct (map fst ?rows)" using assms(1) by (simp add: claim_mirror_def bt_ok_distinct)
  then have "distinct (map (\<lambda>(k, env). claim_key (c_task (?c env)) (public_id_show (c_holder (?c env)))) ?rows)"
    unfolding keys .
  then have d: "distinct (map fst ?items)"
    by (auto simp: distinct_map inj_on_def split_def)
  from assms obtain env c where e: "map_of ?rows (claim_key t (public_id_show h)) = Some env"
    "claim_check ?cr (ne_dec_claim E) env = Inr c" "c_task c = t" "c_holder c = h" "r = record_of ?cr env c"
    unfolding claim_mirror_def by blast
  have "((t, h), r) \<in> set ?items" using map_of_SomeD [OF e(1)] e(2-5) by force
  with d have "map_of ?items (t, h) = Some r" by simp
  moreover have "claims_wf claims_new" by (simp add: claims_wf_def claims_new_def hm_ok_def)
  ultimately have "claim_look (fold claim_absorb ?items claims_new) (t, h) = Some r"
    using hold.look_load_fresh [OF _ _ d, of claims_new "(t, h)"] by (simp add: claim_look_def mine_def claims_new_def)
  moreover have "\<forall>(k, env) \<in> set ?rows. \<exists>c. claim_check ?cr (ne_dec_claim E) env = Inr c"
    using rows by (auto simp: claim_row_def)
  ultimately show ?thesis unfolding load_claims_def load_claims_fold [OF \<open>\<forall>(k, env) \<in> _. _\<close>] by (simp add: claim_look_def)
qed


lemma split_rows_keys:
  assumes "\<forall>(k, e) \<in> set rows. \<exists>ns key. NUL \<notin> set ns \<and> k = kv_key ns key"
  shows "\<exists>out. split_rows rows = Some out \<and> map (\<lambda>(ns, key, e). (kv_key ns key, e)) out = rows
    \<and> (\<forall>(ns, key, e) \<in> set out. NUL \<notin> set ns)"
  using assms
proof (induction rows)
  case (Cons row rows)
  obtain k e where row: "row = (k, e)" by (cases row)
  from Cons.prems obtain ns key where ns: "NUL \<notin> set ns" "k = kv_key ns key" by (auto simp: row)
  then have "split_once NUL k = Some (ns, key)" unfolding split_once_Some kv_key_def by blast
  moreover have "\<forall>(k, e) \<in> set rows. \<exists>ns key. NUL \<notin> set ns \<and> k = kv_key ns key" using Cons.prems by simp
  from Cons.IH [OF this] obtain out where "split_rows rows = Some out" "map (\<lambda>(ns, key, e). (kv_key ns key, e)) out = rows"
    "\<forall>(ns, key, e) \<in> set out. NUL \<notin> set ns" by blast
  ultimately show ?case using ns by (auto simp: row)
qed simp

lemma hydrate_fold:
  "hydrate_kv E now rows (clk, kv)
    = (fold (\<lambda>(ns, key, e) clk. clock_observe clk (e_hlc e) now) rows clk,
       fold (spaces_absorb (sha256 (ne_crypto E))) (map (\<lambda>(ns, key, e). ((ns, key), e)) rows) kv)"
  unfolding hydrate_kv_def
  by (induction rows arbitrary: clk kv) (auto simp: spaces_absorb_def)

lemma reopen_kv:
  assumes "kv_mirror T n" and "load_kv (nd_store n) = Some rows"
    and "NUL \<notin> set ns"
  shows "spaces_look (snd (hydrate_kv E now rows (clk, []))) (ns, key) = map_of (st_kv (nd_store n)) (kv_key ns key)"
proof -
  let ?rows = "st_kv (nd_store n)" and ?items = "map (\<lambda>(ns, key, e). ((ns, key), e)) rows"
  have m: "bt_ok ?rows" "\<forall>(k, e) \<in> set ?rows. \<exists>ns key. NUL \<notin> set ns \<and> k = kv_key ns key"
    using assms(1) by (simp_all add: kv_mirror_def)
  from split_rows_keys [OF m(2)] assms(2) have r: "map (\<lambda>(ns, key, e). (kv_key ns key, e)) rows = ?rows"
    "\<forall>(ns, key, e) \<in> set rows. NUL \<notin> set ns" by (auto simp: load_kv_def)
  have "distinct (map (\<lambda>(ns, key, e). kv_key ns key) rows)"
    using bt_ok_distinct [OF m(1)] unfolding r(1) [symmetric] by (simp add: split_def comp_def)
  then have d: "distinct (map fst ?items)"
    by (auto simp: distinct_map inj_on_def split_def)
  have "map_of ?items (ns, key) = map_of ?rows (kv_key ns key)"
    unfolding r(1) [symmetric] using r(2) assms(3)
    by (induction rows) (auto simp: kv_key_inj)
  moreover have "spaces_ok []" "spaces_look [] (ns, key) = None"
    by (simp_all add: spaces_ok_def hm_ok_def spaces_look_def kv_space_def kv_new_def kv_entry_at_def)
  ultimately show ?thesis
    using spaces.look_load_fresh [OF _ _ d, of "[]" "(ns, key)" "sha256 (ne_crypto E)"] by (simp add: hydrate_fold)
qed

lemma hydrate_space:
  assumes "kv_mirror T n" and "load_kv (nd_store n) = Some rows"
  shows "spaces_ok (snd (hydrate_kv E now rows (clk, [])))"
    and "NUL \<in> set ns \<Longrightarrow> map_of (snd (hydrate_kv E now rows (clk, []))) ns = None"
proof -
  have m: "\<forall>(k, e) \<in> set (st_kv (nd_store n)). \<exists>ns key. NUL \<notin> set ns \<and> k = kv_key ns key"
    using assms(1) by (simp add: kv_mirror_def)
  have "spaces_ok []" by (simp add: spaces_ok_def hm_ok_def)
  then show "spaces_ok (snd (hydrate_kv E now rows (clk, [])))" by (simp add: hydrate_fold spaces.ok_fold)
  from split_rows_keys [OF m] assms(2) have r: "\<forall>(ns, key, e) \<in> set rows. NUL \<notin> set ns" by (auto simp: load_kv_def)
  have "map_of (fold (spaces_absorb sha) (map (\<lambda>(ns, key, e). ((ns, key), e)) rows) kv) ns = map_of kv ns" if "NUL \<in> set ns" for kv sha
    using r that by (induction rows arbitrary: kv) (auto simp: spaces_absorb_def update_conv')
  then show "map_of (snd (hydrate_kv E now rows (clk, []))) ns = None" if "NUL \<in> set ns"
    using that by (simp add: hydrate_fold)
qed

lemma kv_get_look: "node_kv_get n now ns key = (case spaces_look (nd_kv n) (ns, key) of None \<Rightarrow> None | Some e \<Rightarrow> visible e now)"
  by (simp add: node_kv_get_def spaces_look_def kv_space_def kv_get_def kv_entry_at_def kv_new_def split: option.splits)


section \<open>Every operation keeps the mirror\<close>

definition mirror :: "node_env \<Rightarrow> u64 \<Rightarrow> node \<Rightarrow> bool" where
  "mirror E T n \<longleftrightarrow> man_mirror E n \<and> claim_mirror E n \<and> kv_mirror T n"

lemma mirror_cong:
  assumes "nd_cfg n' = nd_cfg n"
  shows "nd_manifests n' = nd_manifests n \<Longrightarrow> st_manifests (nd_store n') = st_manifests (nd_store n) \<Longrightarrow> man_mirror E n' = man_mirror E n"
    and "nd_claims n' = nd_claims n \<Longrightarrow> st_claims (nd_store n') = st_claims (nd_store n) \<Longrightarrow> claim_mirror E n' = claim_mirror E n"
    and "nd_kv n' = nd_kv n \<Longrightarrow> st_kv (nd_store n') = st_kv (nd_store n) \<Longrightarrow> kv_mirror T n' = kv_mirror T n"
  unfolding man_mirror_def claim_mirror_def kv_mirror_def by (simp_all only: assms)

lemma put_frames [simp]:
  "st_manifests (put_log s a v e) = st_manifests s" "st_claims (put_log s a v e) = st_claims s" "st_kv (put_log s a v e) = st_kv s"
  "st_manifests (put_manifest s a e) = bt_insert a e (st_manifests s)"
  "st_claims (put_manifest s a e) = st_claims s" "st_kv (put_manifest s a e) = st_kv s"
  "st_manifests (put_claim s a b e) = st_manifests s" "st_kv (put_claim s a b e) = st_kv s"
  "st_manifests (put_kv s a b x) = st_manifests s" "st_claims (put_kv s a b x) = st_claims s"
  "nd_cfg (emit ev n) = nd_cfg n" "nd_manifests (emit ev n) = nd_manifests n" "nd_claims (emit ev n) = nd_claims n"
  "nd_kv (emit ev n) = nd_kv n" "nd_store (emit ev n) = nd_store n"
  by (simp_all add: put_log_def put_manifest_def put_claim_def put_kv_def emit_def)

lemma mirror_same:
  assumes "nd_cfg n' = nd_cfg n" and "nd_manifests n' = nd_manifests n" and "nd_claims n' = nd_claims n"
    and "nd_kv n' = nd_kv n" and "nd_store n' = nd_store n"
  shows "mirror E T n' = mirror E T n"
  unfolding mirror_def man_mirror_def claim_mirror_def kv_mirror_def by (simp only: assms)

lemma mirror_frames [simp]:
  "mirror E T (emit ev n) = mirror E T n" "mirror E T (n\<lparr>nd_clock := c\<rparr>) = mirror E T n"
  "mirror E T (n\<lparr>nd_generation := g\<rparr>) = mirror E T n" "mirror E T (n\<lparr>nd_peers := p\<rparr>) = mirror E T n"
  "mirror E T (n\<lparr>nd_manifests := nd_manifests n\<rparr>) = mirror E T n" "mirror E T (n\<lparr>nd_claims := nd_claims n\<rparr>) = mirror E T n"
  by (rule mirror_same; simp)+

lemma man_mirror_set:
  assumes "man_mirror E n" and w: "man_check (ne_crypto E) (ne_dec_manifest E) (cfg_operator (nd_cfg n)) env = Inr w"
    and n': "nd_manifests n' = man_put (w_name w) (man_record (ne_crypto E) env w) (nd_manifests n)"
      "st_manifests (nd_store n') = bt_insert (w_name w) env (st_manifests (nd_store n))" "nd_cfg n' = nd_cfg n"
  shows "man_mirror E n'"
proof -
  have m: "man_ok (nd_manifests n)" "ms_operator (nd_manifests n) = cfg_operator (nd_cfg n)" "bt_ok (st_manifests (nd_store n))"
    using assms(1) by (simp_all add: man_mirror_def)
  have op: "ms_operator (nd_manifests n') = cfg_operator (nd_cfg n')" by (simp add: n' man_put_def m(2))
  have "man_row E (cfg_operator (nd_cfg n')) name (map_of (st_manifests (nd_store n')) name) (manifest_get (nd_manifests n') name)" for name
  proof (cases "name = w_name w")
    case True
    then show ?thesis using w by (simp add: n' man.get_put [OF m(1)] map_of_bt_insert [OF m(3)] man_record_def man_row_def)
  next
    case False
    then show ?thesis using assms(1) by (simp add: n' man.get_put [OF m(1)] map_of_bt_insert [OF m(3)] man_mirror_def)
  qed
  with op show ?thesis unfolding man_mirror_def by (simp add: n' man.ok_put [OF m(1)] bt_ok_insert [OF m(3)])
qed

lemma mirror_ingest_manifest:
  assumes "mirror E T n"
  shows "mirror E T (fst (ingest_manifest E n env))"
proof -
  let ?cr = "ne_crypto E" and ?op = "cfg_operator (nd_cfg n)" and ?ms = "nd_manifests n"
  have m: "man_mirror E n" "man_ok ?ms" "ms_operator ?ms = ?op" "bt_ok (st_manifests (nd_store n))"
    using assms by (simp_all add: mirror_def man_mirror_def)
  obtain ms x where i: "manifest_ingest ?cr (ne_dec_manifest E) ?ms env = (ms, x)" by force
  have same: "mirror E T (n\<lparr>nd_manifests := ?ms\<rparr>)" using assms by simp
  show ?thesis
  proof (cases "x = Inr ManChanged")
    case True
    from i True obtain w where w: "man_check ?cr (ne_dec_manifest E) ?op env = Inr w"
      "ms = man_put (w_name w) (man_record ?cr env w) ?ms"
      by (auto simp: manifest_ingest_check m(3) Let_def split: sum.splits option.splits if_splits)
    let ?n = "n\<lparr>nd_manifests := ms, nd_store := put_log (put_manifest (nd_store n) (w_name w) env) (w_name w) (w_version w) env\<rparr>"
    have r: "ingest_manifest E n env = (emit ManifestsEvent ?n, Inr True)"
      unfolding ingest_manifest_def i True by (simp add: man_checkD(1) [OF w(1)])
    have "man_mirror E ?n" by (rule man_mirror_set [OF m(1) w(1)]) (simp_all add: w(2))
    moreover have "claim_mirror E ?n = claim_mirror E n" by (rule mirror_cong(2)) simp_all
    moreover have "kv_mirror T ?n = kv_mirror T n" by (rule mirror_cong(3)) simp_all
    ultimately have "mirror E T ?n" using assms unfolding mirror_def by blast
    then show ?thesis unfolding r by simp
  next
    case False
    with i have "ms = ?ms" by (auto simp: manifest_ingest_check Let_def split: sum.splits option.splits if_splits)
    with same False show ?thesis
      unfolding ingest_manifest_def i by (cases x) (auto split: manifest_outcome.splits)
  qed
qed

lemma mirror_ingest_claim:
  assumes "mirror E T n"
  shows "mirror E T (fst (ingest_claim E n now env))"
proof -
  let ?cr = "ne_crypto E" and ?cs = "nd_claims n"
  have m: "claim_mirror E n" "claims_wf ?cs" using assms by (simp_all add: mirror_def claim_mirror_def)
  obtain cs x where i: "claim_ingest ?cr (ne_dec_claim E) ?cs env = (cs, x)" by force
  show ?thesis
  proof (cases "x = Inr Changed")
    case True
    from i True obtain c where c: "claim_check ?cr (ne_dec_claim E) env = Inr c"
      "cs = claim_insert ?cs (c_task c) (c_holder c) (record_of ?cr env c)"
      by (auto simp: claim_ingest_def claim_fold_def split: sum.splits option.splits if_splits)
    from c(1) have o: "envelope_open ?cr (ne_dec_claim E) None env = Inr c"
      by (auto simp: claim_check_def split: sum.splits if_splits)
    let ?n = "n\<lparr>nd_claims := cs, nd_clock := clock_observe (nd_clock n) (c_renewed c) now,
      nd_store := put_claim (nd_store n) (c_task c) (public_id_show (c_holder c)) env\<rparr>"
    have r: "fst (ingest_claim E n now env) = emit OwnClaims ?n"
      by (simp add: ingest_claim_def i True o Let_def)
    have "claim_mirror E ?n"
      using m c unfolding claim_mirror_def
      by (auto simp: put_claim_def bt_ok_insert map_of_bt_insert set_bt_insert claims_wf_insert mine_insert claim_key_inj claim_row_def)
    moreover have "man_mirror E ?n = man_mirror E n" by (rule mirror_cong(1)) simp_all
    moreover have "kv_mirror T ?n = kv_mirror T n" by (rule mirror_cong(3)) simp_all
    ultimately have "mirror E T ?n" using assms unfolding mirror_def by blast
    then show ?thesis unfolding r by simp
  next
    case False
    with i have "cs = ?cs" by (auto simp: claim_ingest_def claim_fold_def split: sum.splits option.splits if_splits)
    with False assms show ?thesis unfolding ingest_claim_def i by (cases x) (auto split: ingest.splits)
  qed
qed

lemma kv_mirror_set:
  assumes "kv_mirror T n" and "NUL \<notin> set ns" and "spaces_ok kv"
    and "\<And>k. spaces_look kv k = (if k = (ns, key) then Some e else spaces_look (nd_kv n) k)"
    and "nd_kv n' = kv" and "nd_store n' = put_kv (nd_store n) ns key e"
  shows "kv_mirror T n'"
proof -
  have b: "bt_ok (st_kv (nd_store n))" using assms(1) by (simp add: kv_mirror_def)
  have s: "st_kv (nd_store n') = bt_insert (kv_key ns key) e (st_kv (nd_store n))" by (simp add: assms(6) put_kv_def)
  have old: "\<forall>(k, e) \<in> set (st_kv (nd_store n)). \<exists>ns key. NUL \<notin> set ns \<and> k = kv_key ns key"
    "\<And>ns key. spaces_look (nd_kv n) (ns, key) \<noteq> None \<Longrightarrow> NUL \<notin> set ns"
    "\<And>ns key. NUL \<notin> set ns \<Longrightarrow> kv_row T (map_of (st_kv (nd_store n)) (kv_key ns key)) (spaces_look (nd_kv n) (ns, key))"
    using assms(1) unfolding kv_mirror_def by blast+
  have "\<forall>(k, e) \<in> set (st_kv (nd_store n')). \<exists>ns key. NUL \<notin> set ns \<and> k = kv_key ns key"
    using old(1) assms(2) unfolding s set_bt_insert [OF b] by auto
  moreover have "NUL \<notin> set ns'" if "spaces_look kv (ns', key') \<noteq> None" for ns' key'
    using that old(2) [of ns' key'] assms(2,4) by (auto split: if_splits)
  moreover have "kv_row T (map_of (st_kv (nd_store n')) (kv_key ns' key')) (spaces_look kv (ns', key'))" if "NUL \<notin> set ns'" for ns' key'
    using old(3) [OF that, of key'] unfolding s map_of_bt_insert [OF b] kv_key_inj [OF that assms(2)] assms(4)
    by (simp add: kv_row_def)
  moreover have "bt_ok (st_kv (nd_store n'))" unfolding s by (rule bt_ok_insert [OF b])
  ultimately show ?thesis using assms(3) unfolding kv_mirror_def assms(5) by blast
qed


lemma mirror_kv_set:
  assumes "mirror E T n" and "NUL \<notin> set ns" and "kv_ok s"
    and "\<And>k. kv_entry_at s k = (if k = key then Some e else kv_entry_at (kv_space (nd_kv n) ns) k)"
    and n': "nd_kv n' = hm_insert ns s (nd_kv n)" "nd_store n' = put_kv (nd_store n) ns key e"
      "nd_cfg n' = nd_cfg n" "nd_manifests n' = nd_manifests n" "nd_claims n' = nd_claims n"
  shows "mirror E T n'"
proof -
  have m: "man_mirror E n" "claim_mirror E n" "kv_mirror T n" "spaces_ok (nd_kv n)"
    using assms(1) by (simp_all add: mirror_def kv_mirror_def)
  have "spaces_look (hm_insert ns s (nd_kv n)) k = (if k = (ns, key) then Some e else spaces_look (nd_kv n) k)" for k
    by (cases k) (auto simp: spaces_look_def kv_space_insert assms(4))
  from kv_mirror_set [OF m(3) assms(2) spaces_ok_insert [OF m(4) assms(3)] this n'(1,2)] have "kv_mirror T n'" .
  moreover have "man_mirror E n' = man_mirror E n" by (rule mirror_cong(1)) (simp_all add: n')
  moreover have "claim_mirror E n' = claim_mirror E n" by (rule mirror_cong(2)) (simp_all add: n')
  ultimately show ?thesis using m unfolding mirror_def by blast
qed

lemma mirror_put_entry:
  assumes "mirror E T n" and "NUL \<notin> set ns"
  shows "mirror E T (kv_put_entry E n now ns key v expires)"
proof -
  obtain clk h where c: "clock_now (nd_clock n) now = (clk, h)" by force
  let ?s = "kv_space (nd_kv n) ns"
  obtain s e where p: "Kv.kv_put ?s key v h (node_id E n) expires = (s, e)" by force
  have ok: "kv_ok ?s" using assms(1) spaces_ok_space by (simp add: mirror_def kv_mirror_def)
  have "kv_ok s" using kv_ok_put [OF ok, of key v h "node_id E n" expires] by (simp add: p)
  moreover have "kv_entry_at s k = (if k = key then Some e else kv_entry_at ?s k)" for k
    using p ok by (auto simp: kv_put_def Let_def kv_entry_at_def map_of_bt_insert kv_ok_def)
  ultimately show ?thesis
    unfolding kv_put_entry_def c p prod.case Let_def mirror_frames(1)
    by (intro mirror_kv_set [OF assms]) simp_all
qed

lemma metadata_no_NUL: "NUL \<notin> set (kv_metadata_namespace E ns)"
  using hex_no_NUL by (auto simp: kv_metadata_namespace_def NUL_def)

lemma mirror_merge_items:
  assumes "NUL \<notin> set ns" and "mirror E T n"
  shows "mirror E T (fst (merge_items E now ns items (n, hits)))"
  using assms(2)
proof (induction items arbitrary: n hits)
  case (Cons item items)
  obtain key e where item: "item = (key, e)" by (cases item)
  let ?sha = "sha256 (ne_crypto E)" and ?s = "kv_space (nd_kv n) ns"
  obtain s x where m: "kv_merge ?sha ?s key e = (s, x)" by force
  have sok: "spaces_ok (nd_kv n)" and ok: "kv_ok ?s"
    using Cons.prems spaces_ok_space by (simp_all add: mirror_def kv_mirror_def)
  let ?n1 = "n\<lparr>nd_clock := clock_observe (nd_clock n) (e_hlc e) now, nd_kv := hm_insert ns s (nd_kv n)\<rparr>"
  show ?case
  proof (cases "x = Applied")
    case True
    then have s: "s = ?s\<lparr>kv_entries := bt_insert key e (kv_entries ?s)\<rparr>"
      using m by (auto simp: kv_merge_def split: option.splits if_splits)
    have sk: "kv_ok s" using kv_ok_merge [OF ok, of ?sha key e] by (simp add: m)
    have "mirror E T (?n1\<lparr>nd_store := put_kv (nd_store ?n1) ns key e\<rparr>)"
      by (rule mirror_kv_set [OF Cons.prems assms(1) sk])
        (use ok in \<open>auto simp: s kv_entry_at_def map_of_bt_insert kv_ok_def\<close>)
    from Cons.IH [OF this] show ?thesis by (simp add: item m True)
  next
    case False
    then have s: "s = ?s" using m by (auto simp: kv_merge_def split: option.splits if_splits)
    have "spaces_look (hm_insert ns s (nd_kv n)) k = spaces_look (nd_kv n) k" for k
      by (cases k) (simp add: spaces_look_def kv_space_insert s)
    moreover have "spaces_ok (hm_insert ns s (nd_kv n))" using spaces_ok_insert [OF sok] ok s by simp
    ultimately have "mirror E T ?n1" using Cons.prems
      by (simp add: mirror_def kv_mirror_def man_mirror_def claim_mirror_def)
    from Cons.IH [OF this] False show ?thesis by (simp add: item m)
  qed
qed simp

lemma mirror_merge_remote:
  assumes "NUL \<notin> set ns" and "mirror E T n"
  shows "mirror E T (fst (kv_merge_remote E n now ns items))"
  using mirror_merge_items [OF assms, of now items 0] by (auto simp: kv_merge_remote_def split_def Let_def)

lemma spaces_gc:
  assumes "spaces_ok kv"
  shows "spaces_ok (map (\<lambda>(ns, s). (ns, fst (kv_gc s now h))) kv)"
    and "spaces_look (map (\<lambda>(ns, s). (ns, fst (kv_gc s now h))) kv) (ns, key) =
      (case spaces_look kv (ns, key) of
         None \<Rightarrow> None
       | Some e \<Rightarrow> if (case dead_since now e of Some d \<Rightarrow> sat_sub now d < h | None \<Rightarrow> True) then Some e else None)"
proof -
  let ?kv = "map (\<lambda>(ns, s). (ns, fst (kv_gc s now h))) kv"
  have "map fst ?kv = map fst kv" by (simp add: split_def comp_def)
  moreover have "\<forall>s \<in> snd ` set ?kv. kv_ok s" using assms kv_ok_gc by (auto simp: spaces_ok_def)
  ultimately show "spaces_ok ?kv" using assms unfolding spaces_ok_def hm_ok_def by metis
  have "kv_gc kv_new now h = (kv_new, 0)" by (simp add: kv_gc_def kv_new_def)
  then have "kv_space ?kv ns = fst (kv_gc (kv_space kv ns) now h)"
    by (simp add: kv_space_def map_of_map_row split: option.splits)
  then show "spaces_look ?kv (ns, key) =
      (case spaces_look kv (ns, key) of
         None \<Rightarrow> None
       | Some e \<Rightarrow> if (case dead_since now e of Some d \<Rightarrow> sat_sub now d < h | None \<Rightarrow> True) then Some e else None)"
    using kv_entry_at_gc [OF spaces_ok_space [OF assms]] by (simp add: spaces_look_def)
qed

lemma mirror_gc:
  assumes "mirror E T n" and "now \<le> T"
  shows "mirror E T (node_gc n now)"
proof -
  let ?n = "node_gc n now"
  have m: "man_mirror E n" "claim_mirror E n" "kv_mirror T n" and ok: "spaces_ok (nd_kv n)"
    using assms(1) by (simp_all add: mirror_def kv_mirror_def)
  have st: "nd_store ?n = nd_store n" "nd_kv ?n = map (\<lambda>(ns, s). (ns, fst (kv_gc s now HORIZON_MS))) (nd_kv n)"
    by (simp_all add: node_gc_def)
  note g = spaces_gc [OF ok, of now HORIZON_MS, folded st(2)]
  have "kv_row T stored (spaces_look (nd_kv ?n) (ns, key))" if "kv_row T stored (spaces_look (nd_kv n) (ns, key))" for stored ns key
    using that dead_since_invisible [of now] assms(2) unfolding g(2)
    by (auto simp: kv_row_def split: option.splits dest: order_trans)
  moreover have "spaces_look (nd_kv ?n) k \<noteq> None \<Longrightarrow> spaces_look (nd_kv n) k \<noteq> None" for k
    by (cases k) (auto simp: g(2) split: option.splits)
  ultimately have "kv_mirror T ?n"
    using m(3) g(1) unfolding kv_mirror_def st(1) by blast
  moreover have "man_mirror E ?n = man_mirror E n" by (rule mirror_cong(1)) (simp_all add: node_gc_def)
  moreover have "claim_mirror E ?n"
    using m(2) claims_wf_gc [of "nd_claims n"] unfolding claim_mirror_def
    by (simp add: node_gc_def mine_gc split: option.splits)
  ultimately show ?thesis using m unfolding mirror_def by blast
qed


section \<open>Static stability\<close>

text \<open>The operations that change what a node must remember.\<close>

datatype node_op =
    OpManifest envelope
  | OpClaim envelope
  | OpTry string u64
  | OpRenew string bool
  | OpPut string string "bytes option" "u64 option"
  | OpPutMeta string string "bytes option" "u64 option" "bytes option"
  | OpMerge string "(string \<times> kv_entry) list"
  | OpPeers "(string, peer_view) btree_map"
  | OpGc

fun node_do :: "node_env \<Rightarrow> u64 \<times> node_op \<Rightarrow> node \<Rightarrow> node" where
  "node_do E (now, OpManifest env) n = fst (ingest_manifest E n env)"
| "node_do E (now, OpClaim env) n = fst (ingest_claim E n now env)"
| "node_do E (now, OpTry task ttl) n = fst (claim_try E n now task ttl)"
| "node_do E (now, OpRenew task release) n = claim_renew E n now task release"
| "node_do E (now, OpPut ns key v x) n = node_kv_put E n now ns key v x"
| "node_do E (now, OpPutMeta ns key v x m) n = kv_put_with_metadata E n now ns key v x m"
| "node_do E (now, OpMerge ns items) n = fst (kv_merge_remote E n now ns items)"
| "node_do E (now, OpPeers peers) n = update_peers n peers"
| "node_do E (now, OpGc) n = node_gc n now"

text \<open>Namespaces are free of NUL, and the node collects at most up to time \<open>T\<close>.\<close>

fun op_ok :: "u64 \<Rightarrow> u64 \<times> node_op \<Rightarrow> bool" where
  "op_ok T (now, OpPut ns key v x) = (NUL \<notin> set ns)"
| "op_ok T (now, OpPutMeta ns key v x m) = (NUL \<notin> set ns)"
| "op_ok T (now, OpMerge ns items) = (NUL \<notin> set ns)"
| "op_ok T (now, OpGc) = (now \<le> T)"
| "op_ok T _ = True"

lemma mirror_do:
  assumes "mirror E T n" and "op_ok T op"
  shows "mirror E T (node_do E op n)"
proof -
  obtain now x where op: "op = (now, x)" by (cases op)
  note steps = mirror_ingest_manifest mirror_ingest_claim mirror_put_entry mirror_merge_remote mirror_gc metadata_no_NUL
  show ?thesis
    using assms unfolding op
    by (cases x) (auto simp: steps claim_try_def claim_renew_def node_kv_put_def kv_put_with_metadata_def update_peers_def
        Let_def split_def split: option.splits)
qed

lemma mirror_run: "mirror E T n \<Longrightarrow> list_all (op_ok T) ops \<Longrightarrow> mirror E T (fold (node_do E) ops n)"
  by (induction ops arbitrary: n) (auto simp: mirror_do)

lemma mirror_fresh:
  assumes "node_open E cfg seed store_new now = Some n"
  shows "mirror E T n" and "nd_cfg n = cfg" and "nd_seed n = seed"
proof -
  have n: "nd_store n = store_new" "nd_manifests n = manifests_new (cfg_operator cfg)" "nd_claims n = claims_new"
    "nd_kv n = []" "nd_cfg n = cfg" "nd_seed n = seed"
    using assms by (auto simp: node_open_def load_kv_def load_manifests_def load_claims_def store_new_def hydrate_kv_def)
  have "man_mirror E n" by (simp add: man_mirror_def n store_new_def bt_ok_def man_ok_new man_row_def)
  moreover have "claim_mirror E n"
    by (simp add: claim_mirror_def n store_new_def bt_ok_def claims_wf_def claims_new_def hm_ok_def mine_def)
  moreover have "kv_mirror T n"
    by (simp add: kv_mirror_def n store_new_def bt_ok_def spaces_ok_def hm_ok_def spaces_look_def kv_space_def kv_new_def
        kv_entry_at_def kv_row_def)
  ultimately show "mirror E T n" by (simp add: mirror_def)
  show "nd_cfg n = cfg" "nd_seed n = seed" by (simp_all add: n)
qed

lemma node_do_cfg [simp]: "nd_cfg (node_do E op n) = nd_cfg n"
proof -
  have put: "nd_cfg (kv_put_entry E n now ns key v x) = nd_cfg n" for n now ns key v x
    by (simp add: kv_put_entry_def Let_def split_def)
  have man: "nd_cfg (fst (ingest_manifest E n env)) = nd_cfg n" for n env
    by (simp add: ingest_manifest_def split_def split: sum.splits manifest_outcome.splits)
  have claim: "nd_cfg (fst (ingest_claim E n now env)) = nd_cfg n" for n now env
    by (simp add: ingest_claim_def split_def Let_def split: sum.splits ingest.splits)
  have items: "nd_cfg (fst (merge_items E now ns items (n, hits))) = nd_cfg n" for now ns items n hits
    by (induction items arbitrary: n hits) (auto simp: Let_def split_def)
  obtain now x where op: "op = (now, x)" by (cases op)
  show ?thesis unfolding op
    by (cases x) (auto simp: put man claim items claim_try_def claim_renew_def node_kv_put_def kv_put_with_metadata_def
        update_peers_def node_gc_def kv_merge_remote_def Let_def split_def split: option.splits)
qed

lemma node_run_cfg: "nd_cfg (fold (node_do E) ops n) = nd_cfg n"
  by (induction ops arbitrary: n) simp_all

lemma reopen_mirror:
  assumes "mirror E T n"
  obtains n' where "node_open E (nd_cfg n) seed (nd_store n) now = Some n'"
    "\<And>name. manifest_get (nd_manifests n') name = manifest_get (nd_manifests n) name"
    "\<And>t h r. mine (nd_claims n) t h = Some r \<Longrightarrow> mine (nd_claims n') t h = Some r"
    "\<And>t ns key. T \<le> t \<Longrightarrow> node_kv_get n' t ns key = node_kv_get n t ns key"
proof -
  have m: "man_mirror E n" "claim_mirror E n" "kv_mirror T n" using assms by (simp_all add: mirror_def)
  from m(3) have keys: "\<forall>(k, e) \<in> set (st_kv (nd_store n)). \<exists>ns key. NUL \<notin> set ns \<and> k = kv_key ns key"
    and row: "\<And>ns key. NUL \<notin> set ns \<Longrightarrow> kv_row T (map_of (st_kv (nd_store n)) (kv_key ns key)) (spaces_look (nd_kv n) (ns, key))"
    and nul: "\<And>ns key. NUL \<in> set ns \<Longrightarrow> spaces_look (nd_kv n) (ns, key) = None"
    unfolding kv_mirror_def by blast+
  from split_rows_keys [OF keys] obtain rows where rows: "load_kv (nd_store n) = Some rows" by (auto simp: load_kv_def)
  obtain n' where n': "node_open E (nd_cfg n) seed (nd_store n) now = Some n'"
    "nd_kv n' = snd (hydrate_kv E now rows (clock_new, []))"
    "nd_manifests n' = fold (\<lambda>env ms. fst (manifest_ingest (ne_crypto E) (ne_dec_manifest E) ms env)) (load_manifests (nd_store n))
                 (manifests_new (cfg_operator (nd_cfg n)))"
    "nd_claims n' = fold (\<lambda>env cs. fst (claim_ingest (ne_crypto E) (ne_dec_claim E) cs env)) (load_claims (nd_store n)) claims_new"
    by (simp add: node_open_def rows Let_def split_def)
  have kv: "node_kv_get n' t ns key = node_kv_get n t ns key" if "T \<le> t" for t ns key
  proof (cases "NUL \<in> set ns")
    case True
    with hydrate_space(2) [OF m(3) rows True, of E now clock_new] nul [OF True] show ?thesis
      by (simp add: kv_get_look) (simp add: n'(2) spaces_look_def kv_space_def kv_new_def kv_entry_at_def)
  next
    case False
    with reopen_kv [OF m(3) rows False, of E now clock_new key] row [OF False, of key] that show ?thesis
      by (auto simp: kv_get_look n'(2) kv_row_def split: option.splits)
  qed
  show ?thesis
    by (rule that [OF n'(1)]) (simp_all only: n'(3,4) reopen_manifests [OF m(1)] reopen_claims [OF m(2)] kv)
qed



definition demo_node_env :: node_env where
  "demo_node_env = \<lparr>ne_crypto = demo_crypto, ne_enc_claim = (\<lambda>c. []), ne_dec_claim = demo_claim_dec, ne_dec_manifest = demo_man_dec\<rparr>"

definition demo_cfg :: node_config where
  "demo_cfg = \<lparr>cfg_operator = Ed [9], cfg_public = True, cfg_label = ''a''\<rparr>"

definition demo_node :: node where
  "demo_node = the (node_open demo_node_env demo_cfg [5] store_new 0)"

lemma demo_node_open: "node_open demo_node_env demo_cfg [5] store_new 0 = Some demo_node"
  by (simp add: demo_node_def node_open_def load_kv_def store_new_def Let_def split_def)


end
