(* ===== verification/Node_Serving.thy ===== *)
theory Node_Serving
  imports Node_Reopen
begin

text \<open>
  What a node promises its clients: listing by pages covers a namespace exactly
  once, and the nodes of a cluster together stay within the request budget.
\<close>

section \<open>Listing by pages\<close>

definition page_item :: "kv_ns \<Rightarrow> string \<Rightarrow> string \<times> u64 option" where
  "page_item s key = (key, case kv_entry_at s key of Some e \<Rightarrow> e_expires_at_ms e | None \<Rightarrow> None)"

definition after_cursor :: "string option \<Rightarrow> string list \<Rightarrow> string list" where
  "after_cursor cursor keys = filter (\<lambda>k. case cursor of Some c \<Rightarrow> c < k | None \<Rightarrow> True) keys"

lemma page_scan_spec:
  "length out \<le> limit \<Longrightarrow>
   page_scan s limit cursor out keys =
     (out @ map (page_item s) (take (limit - length out) (after_cursor cursor keys)),
      limit < length out + length (after_cursor cursor keys))"
proof (induction keys arbitrary: out)
  case (Cons k keys)
  then show ?case
    by (cases "length out = limit")
      (auto simp: after_cursor_def page_item_def not_less not_le take_Cons' split: option.splits)
qed (simp add: after_cursor_def)

lemma after_cursor_drop:
  fixes keys :: "string list"
  assumes "sorted_wrt (<) keys" and "i < length keys"
  shows "filter (\<lambda>k. keys ! i < k) keys = drop (Suc i) keys"
  using assms
proof (induction keys arbitrary: i)
  case (Cons k keys)
  show ?case
  proof (cases i)
    case 0
    with Cons.prems show ?thesis by (simp add: filter_id_conv)
  next
    case (Suc j)
    with Cons.prems have "k < keys ! j" by simp
    with Suc Cons show ?thesis by (simp add: not_less_iff_gr_or_eq)
  qed
qed simp

lemma after_cursor_next:
  assumes "sorted_wrt (<) keys" and "ks = after_cursor cursor keys" and "i < length ks"
  shows "after_cursor (Some (ks ! i)) keys = drop (Suc i) ks"
proof -
  have s: "sorted_wrt (<) ks" using assms(1,2) by (simp add: after_cursor_def sorted_wrt_filter)
  define x where "x = ks ! i"
  have "x \<in> set (after_cursor cursor keys)" using nth_mem [OF assms(3)] unfolding x_def assms(2) .
  then have "case cursor of Some c \<Rightarrow> c < x | None \<Rightarrow> True" by (simp add: after_cursor_def)
  then have below: "case cursor of Some c \<Rightarrow> c < k | None \<Rightarrow> True" if "x < k" for k
    using that by (auto split: option.splits)
  have "after_cursor (Some x) keys = filter (\<lambda>k. x < k) (after_cursor cursor keys)"
    unfolding after_cursor_def filter_filter option.case by (intro filter_cong refl) (use below in blast)
  then have "after_cursor (Some (ks ! i)) keys = filter (\<lambda>k. ks ! i < k) ks" unfolding x_def assms(2) .
  with after_cursor_drop [OF s assms(3)] show ?thesis by simp
qed

text \<open>A client that follows the cursor until the listing is complete.\<close>

fun walk_pages :: "nat \<Rightarrow> node \<Rightarrow> u64 \<Rightarrow> string \<Rightarrow> string \<Rightarrow> nat \<Rightarrow> string option \<Rightarrow> (string \<times> u64 option) list list option" where
  "walk_pages 0 n now ns pfx limit cursor = None"
| "walk_pages (Suc fuel) n now ns pfx limit cursor =
     (case kv_list_page n now ns pfx limit cursor of
        (items, True, _) \<Rightarrow> Some [items]
      | (items, False, None) \<Rightarrow> None
      | (items, False, Some c) \<Rightarrow> map_option ((#) items) (walk_pages fuel n now ns pfx limit (Some c)))"

lemma kv_list_sorted: "kv_ok s \<Longrightarrow> sorted_wrt (<) (kv_list s pfx now limit)"
proof -
  assume "kv_ok s"
  then have "sorted_wrt (<) (map fst (kv_entries s))" by (simp add: kv_ok_def bt_ok_def)
  then show ?thesis
    unfolding kv_list_def
    by (auto simp: sorted_wrt_map intro!: sorted_wrt_take sorted_wrt_filter sorted_wrt_takeWhile sorted_wrt_dropWhile)
qed

lemma walk_pages_spec:
  assumes "map_of (nd_kv n) ns = Some s" and "kv_ok s" and "0 < limit"
    and "length (after_cursor cursor (kv_list s pfx now (kv_len s))) < fuel"
  shows "\<exists>pages. walk_pages fuel n now ns pfx limit cursor = Some pages
    \<and> concat pages = map (page_item s) (after_cursor cursor (kv_list s pfx now (kv_len s)))
    \<and> (\<forall>page \<in> set pages. length page \<le> limit)"
  using assms(4)
proof (induction fuel arbitrary: cursor)
  case (Suc fuel)
  let ?keys = "kv_list s pfx now (kv_len s)"
  define ks where "ks = after_cursor cursor ?keys"
  have scan: "page_scan s limit cursor [] ?keys = (map (page_item s) (take limit ks), limit < length ks)"
    by (simp add: page_scan_spec ks_def)
  show ?case
  proof (cases "limit < length ks")
    case False
    then show ?thesis by (simp add: kv_list_page_def assms(1) scan flip: ks_def)
  next
    case True
    have lst: "fst (last (map (page_item s) (take limit ks))) = ks ! (limit - 1)"
    proof -
      have ne: "take limit ks \<noteq> []" using True assms(3) by auto
      have "last (take limit ks) = ks ! (limit - 1)" using True assms(3) by (simp add: last_conv_nth [OF ne] min_def)
      with ne show ?thesis by (simp add: last_map page_item_def)
    qed
    have "after_cursor (Some (ks ! (limit - 1))) ?keys = drop limit ks"
      using after_cursor_next [OF kv_list_sorted [OF assms(2)] ks_def, of "limit - 1"] True assms(3) by simp
    moreover have "length (drop limit ks) < fuel" using Suc.prems True assms(3) by (simp flip: ks_def)
    ultimately obtain pages where p: "walk_pages fuel n now ns pfx limit (Some (ks ! (limit - 1))) = Some pages"
      "concat pages = map (page_item s) (drop limit ks)" "\<forall>page \<in> set pages. length page \<le> limit"
      using Suc.IH [of "Some (ks ! (limit - 1))"] by auto
    have "kv_list_page n now ns pfx limit cursor = (map (page_item s) (take limit ks), False, Some (ks ! (limit - 1)))"
      using True assms(3) lst by (auto simp: kv_list_page_def assms(1) scan)
    moreover have "map (page_item s) (take limit ks) @ map (page_item s) (drop limit ks) = map (page_item s) ks"
      by (simp flip: map_append)
    ultimately show ?thesis using p by (simp flip: ks_def)
  qed
qed simp

text \<open>
  C14: following the cursor always ends and lists everything once.  With a page
  size of at least one, a client that asks for page after page with the cursor
  it was given gets, after finitely many pages of at most that size, a page
  marked complete, and the pages together are the readable keys with the prefix
  in order, each exactly once with its expiry.
\<close>

theorem paging_lists_everything:
  assumes "map_of (nd_kv n) ns = Some s" and "kv_ok s" and "0 < limit"
  shows "\<exists>pages. walk_pages (Suc (kv_len s)) n now ns pfx limit None = Some pages
    \<and> concat pages = map (page_item s) (kv_list s pfx now (kv_len s))
    \<and> distinct (map fst (concat pages)) \<and> (\<forall>page \<in> set pages. length page \<le> limit)"
proof -
  have all: "after_cursor None keys = keys" for keys by (simp add: after_cursor_def)
  have "length (kv_list s pfx now (kv_len s)) < Suc (kv_len s)" by (simp add: kv_list_def)
  from walk_pages_spec [OF assms, of None pfx now, unfolded all, OF this]
  obtain pages where p: "walk_pages (Suc (kv_len s)) n now ns pfx limit None = Some pages"
    "concat pages = map (page_item s) (kv_list s pfx now (kv_len s))" "\<forall>page \<in> set pages. length page \<le> limit" by blast
  have "map fst (map (page_item s) ks) = ks" for ks by (induction ks) (simp_all add: page_item_def)
  then have "distinct (map fst (concat pages))"
    using kv_list_sorted [OF assms(2)] strict_sorted_iff unfolding p(2) by metis
  with p show ?thesis by blast
qed

theorem paging_lists_everything_witness:
  "let n = fold (node_do demo_node_env) [(110, OpPut ''ns'' ''a1'' (Some [1]) None), (111, OpPut ''ns'' ''a2'' (Some [2]) (Some 900)),
             (112, OpPut ''ns'' ''b'' (Some [3]) None)] demo_node
   in walk_pages 4 n 200 ''ns'' ''a'' 1 None = Some [[(''a1'', None)], [(''a2'', Some 900)]]
      \<and> (\<exists>pages. walk_pages 4 n 200 ''ns'' ''a'' 1 None = Some pages \<and> distinct (map fst (concat pages)))"
proof -
  let ?n = "fold (node_do demo_node_env) [(110, OpPut ''ns'' ''a1'' (Some [1]) None), (111, OpPut ''ns'' ''a2'' (Some [2]) (Some 900)),
             (112, OpPut ''ns'' ''b'' (Some [3]) None)] demo_node"
  define s where "s = kv_space (nd_kv ?n) ''ns''"
  have m: "map_of (nd_kv ?n) ''ns'' = Some s" unfolding s_def by code_simp
  have k: "map fst (kv_entries s) = [''a1'', ''a2'', ''b'']" unfolding s_def by code_simp
  have ok: "kv_ok s" by (simp add: kv_ok_def bt_ok_def k)
  have l: "kv_len s = 3" using arg_cong [OF k, of length] by (simp add: kv_len_def)
  have "walk_pages 4 ?n 200 ''ns'' ''a'' 1 None = Some [[(''a1'', None)], [(''a2'', Some 900)]]" by code_simp
  moreover have f: "Suc (kv_len s) = 4" by (simp add: l)
  have "\<exists>pages. walk_pages 4 ?n 200 ''ns'' ''a'' 1 None = Some pages \<and> distinct (map fst (concat pages))"
    using paging_lists_everything [OF m ok zero_less_one, of 200 "''a''", unfolded f] by blast
  ultimately show ?thesis unfolding Let_def by blast
qed

section \<open>The request budget\<close>

fun admit_run :: "node_env \<Rightarrow> u64 \<Rightarrow> u64 list \<Rightarrow> node \<Rightarrow> node \<times> nat" where
  "admit_run E limit [] n = (n, 0)"
| "admit_run E limit (now # ts) n =
     (let (n1, admitted) = admit_request E n limit now; (n2, k) = admit_run E limit ts n1
      in (n2, if admitted then Suc k else k))"

lemma position_nth: "distinct ids \<Longrightarrow> i < length ids \<Longrightarrow> position ids (ids ! i) = i"
proof -
  assume d: "distinct ids" "i < length ids"
  have "takeWhile (\<lambda>y. y \<noteq> ids ! i) ids = take i ids"
    using d by (intro takeWhile_eq_take_P_nth) (auto simp: nth_eq_iff_index_eq)
  with d show ?thesis by (simp add: position_def)
qed

lemma shares_sum:
  assumes "distinct ids" and "ids \<noteq> []"
  shows "sum_list (map (local_share limit ids) ids) = limit"
proof -
  let ?n = "length ids" and ?q = "limit div length ids" and ?r = "limit mod length ids"
  have "sum_list (map (local_share limit ids) ids) = (\<Sum>i < ?n. ?q + (if i < ?r then 1 else 0))"
    using position_nth [OF assms(1)]
    by (simp add: sum_list_sum_nth local_share_def atLeast0LessThan)
  also have "\<dots> = ?n * ?q + card {i. i < ?n \<and> i < ?r}"
    by (simp add: sum.distrib sum.If_cases Int_def lessThan_def)
  also have "{i. i < ?n \<and> i < ?r} = {..< ?r}"
    using assms(2) mod_less_divisor [of ?n limit] by (auto intro: less_trans)
  finally show ?thesis by simp
qed

lemma share_le: "local_share limit ids self \<le> limit"
proof (cases "length ids = 0")
  case False
  define q r where "q = limit div length ids" and "r = limit mod length ids"
  have lim: "limit = q * length ids + r" by (simp add: q_def r_def)
  have le: "q \<le> q * length ids" using False by (cases "length ids") simp_all
  have "q + (if p < r then 1 else 0) \<le> limit" for p
  proof (cases "p < r")
    case True
    with lim le have "q + 1 \<le> limit" by linarith
    with True show ?thesis by simp
  next
    case no: False
    from lim le have "q \<le> limit" by linarith
    with no show ?thesis by simp
  qed
  then show ?thesis by (simp only: local_share_def q_def r_def)
qed (simp add: local_share_def)

lemma id_window [simp]: "id_hex E (n\<lparr>nd_window := w\<rparr>) = id_hex E n"
  by (simp add: id_hex_def node_id_def)

lemma public_window [simp]: "public_nodes E (n\<lparr>nd_window := w\<rparr>) = public_nodes E n"
  unfolding public_nodes_def id_window by simp

lemma admit_run_window:
  assumes "\<forall>t \<in> set ts. t div 60000 = minute" and "fst (nd_window n) = minute"
    and "share = local_share (unat limit) (public_nodes E n) (id_hex E n)"
    and "unat (snd (nd_window n)) \<le> share"
  shows "snd (admit_run E limit ts n) = min (length ts) (share - unat (snd (nd_window n)))"
  using assms
proof (induction ts arbitrary: n)
  case (Cons t ts)
  have t: "t div 60000 = minute" using Cons.prems(1) by simp
  have le: "share \<le> unat limit" using share_le Cons.prems(3) by simp
  show ?case
  proof (cases "share \<le> unat (snd (nd_window n))")
    case True
    then have a: "admit_request E n limit t = (n, False)"
      using Cons.prems by (simp add: admit_request_def Let_def t)
    with Cons.IH [of n] Cons.prems True show ?thesis by (simp add: split_def)
  next
    case False
    let ?n = "n\<lparr>nd_window := (minute, snd (nd_window n) + 1)\<rparr>"
    have a: "admit_request E n limit t = (?n, True)"
      using Cons.prems False by (simp add: admit_request_def Let_def t)
    have u: "unat (snd (nd_window n) + 1) = Suc (unat (snd (nd_window n)))"
    proof -
      have "unat limit < 2 ^ 64" using unsigned_less [of limit] by simp
      with False le have "Suc (unat (snd (nd_window n))) < 2 ^ 64" by simp
      then show ?thesis by (simp add: unat_word_ariths)
    qed
    from Cons.IH [of ?n] Cons.prems False show ?thesis by (simp add: a u split_def) 
  qed
qed simp


lemma admit_run_fresh:
  assumes "\<forall>t \<in> set ts. t div 60000 = minute" and "fst (nd_window n) \<noteq> minute"
  shows "snd (admit_run E limit ts n) = min (length ts) (local_share (unat limit) (public_nodes E n) (id_hex E n))"
proof (cases ts)
  case (Cons t rest)
  let ?n = "n\<lparr>nd_window := (minute, 0)\<rparr>"
  have "admit_request E n limit t = admit_request E ?n limit t"
    using assms Cons by (simp add: admit_request_def Let_def)
  then have "snd (admit_run E limit ts n) = snd (admit_run E limit ts ?n)" by (simp add: Cons)
  with admit_run_window [OF assms(1), of ?n "local_share (unat limit) (public_nodes E n) (id_hex E n)" limit E] show ?thesis
    by simp
qed simp

text \<open>
  C13: the cluster as a whole keeps to the signed request budget.  Let the nodes
  of a cluster agree on which of them are public, namely all of them.  Then
  however many requests arrive at each of them within one minute, the number
  admitted by all together is at most the limit; and when every node sees at
  least the limit of requests, it is exactly the limit.
\<close>

theorem request_budget_exact:
  assumes "nodes \<noteq> []" and "distinct (map (id_hex E) nodes)"
    and "\<forall>n \<in> set nodes. public_nodes E n = map (id_hex E) nodes \<and> fst (nd_window n) \<noteq> minute"
    and "\<forall>n \<in> set nodes. \<forall>t \<in> set (arrivals n). t div 60000 = minute"
  shows "(\<Sum>n\<leftarrow>nodes. snd (admit_run E limit (arrivals n) n)) \<le> unat limit
    \<and> ((\<forall>n \<in> set nodes. unat limit \<le> length (arrivals n)) \<longrightarrow>
         (\<Sum>n\<leftarrow>nodes. snd (admit_run E limit (arrivals n) n)) = unat limit)"
proof -
  let ?ids = "map (id_hex E) nodes" and ?L = "unat limit"
  have one: "snd (admit_run E limit (arrivals n) n) = min (length (arrivals n)) (local_share ?L ?ids (id_hex E n))"
    if "n \<in> set nodes" for n
    using admit_run_fresh [of "arrivals n" minute n E limit] assms(3,4) that by simp
  have total: "(\<Sum>n\<leftarrow>nodes. local_share ?L ?ids (id_hex E n)) = ?L"
    using shares_sum [of ?ids ?L] assms(1,2) by (simp add: comp_def)
  have "(\<Sum>n\<leftarrow>nodes. snd (admit_run E limit (arrivals n) n)) \<le> (\<Sum>n\<leftarrow>nodes. local_share ?L ?ids (id_hex E n))"
    by (intro sum_list_mono) (simp add: one)
  moreover have "(\<Sum>n\<leftarrow>nodes. snd (admit_run E limit (arrivals n) n)) = (\<Sum>n\<leftarrow>nodes. local_share ?L ?ids (id_hex E n))"
    if many: "\<forall>n \<in> set nodes. ?L \<le> length (arrivals n)"
  proof -
    have "snd (admit_run E limit (arrivals n) n) = local_share ?L ?ids (id_hex E n)" if n: "n \<in> set nodes" for n
      using one [OF n] share_le [of ?L ?ids "id_hex E n"] bspec [OF many n] by simp
    then show ?thesis by (simp cong: map_cong)
  qed
  ultimately show ?thesis using total by simp
qed

definition demo_peer :: "u8 \<Rightarrow> u8 \<Rightarrow> node" where
  "demo_peer seed other = demo_node\<lparr>nd_seed := [seed], nd_peers := [(hex_encode [other],
     \<lparr>pv_api_addr = None, pv_public = True, pv_label = []\<rparr>)]\<rparr>"

theorem request_budget_exact_witness:
  "let nodes = [demo_peer 1 2, demo_peer 2 1]; ts = [120000, 120001, 120002, 120003]
   in map (\<lambda>n. snd (admit_run demo_node_env 3 ts n)) nodes = [2, 1]
      \<and> (\<Sum>n\<leftarrow>nodes. snd (admit_run demo_node_env 3 ts n)) = 3"
proof -
  let ?nodes = "[demo_peer 1 2, demo_peer 2 1]" and ?ts = "[120000, 120001, 120002, 120003] :: u64 list"
  have h: "distinct (map (id_hex demo_node_env) ?nodes)"
    "\<forall>n \<in> set ?nodes. public_nodes demo_node_env n = map (id_hex demo_node_env) ?nodes \<and> fst (nd_window n) \<noteq> 2"
    "\<forall>n \<in> set ?nodes. \<forall>t \<in> set ?ts. t div 60000 = 2" "\<forall>n \<in> set ?nodes. unat (3 :: u64) \<le> length ?ts"
    by code_simp+
  note main = request_budget_exact [where nodes = ?nodes and arrivals = "\<lambda>_. ?ts" and limit = 3, OF _ h(1,2,3)]
  from main h(4) have "(\<Sum>n\<leftarrow>?nodes. snd (admit_run demo_node_env 3 ?ts n)) = unat (3 :: u64)" by blast
  moreover have "map (\<lambda>n. snd (admit_run demo_node_env 3 ?ts n)) ?nodes = [2, 1]" by code_simp
  ultimately show ?thesis by (simp only: Let_def) simp
qed

end
