(* ===== verification/Resource.thy ===== *)
theory Resource
  imports Node_State
begin

text \<open>
  Operator-signed platform resources, \<^verbatim>\<open>crates/rf/src/resource.rs\<close>: immutable
  envelopes in one key-value namespace that form a hash chain per resource.  The
  JSON text of a specification is opaque; what the code asks about it is its
  \<open>json_shape\<close>, a parameter together with the codecs.
\<close>

section \<open>Records\<close>

datatype json_shape = JNull | JEmptyObject | JObject | JOther

record resource_record =
  rr_schema :: u8
  rr_kind :: string
  rr_name :: string
  rr_version :: u64
  rr_prev :: "bytes option"
  rr_deleted :: bool
  rr_spec_json :: string

record resource_view =
  rv_resource :: resource_record
  rv_digest :: string

record res_env =
  re_node :: node_env
  re_dec :: "bytes \<Rightarrow> resource_record option"
  re_from_bytes :: "bytes \<Rightarrow> envelope option"
  re_to_bytes :: "envelope \<Rightarrow> bytes"
  re_shape :: "string \<Rightarrow> json_shape option"

datatype resource_error =
    ResSchema | ResKind | ResName | ResChain | ResJson | ResDeletedSpec | ResNotObject | ResTooLarge
  | ResEnvelope envelope_error | ResOther | ResDigest

definition RESOURCE_SCHEMA :: u8 where "RESOURCE_SCHEMA = 1"
definition MAX_KIND_BYTES :: nat where "MAX_KIND_BYTES = 48"
definition MAX_SPEC_BYTES :: int where "MAX_SPEC_BYTES = 8 * 1024 * 1024"

definition valid_kind :: "string \<Rightarrow> bool" where
  "valid_kind kind \<longleftrightarrow>
     kind \<noteq> [] \<and> length kind \<le> MAX_KIND_BYTES \<and>
     list_all (\<lambda>b. is_ascii_lowercase b \<or> is_ascii_digit b \<or> b = CHR ''_'') kind"

definition resource_validate :: "res_env \<Rightarrow> resource_record \<Rightarrow> resource_error option" where
  "resource_validate R r =
     (if rr_schema r \<noteq> RESOURCE_SCHEMA then Some ResSchema
      else if \<not> valid_kind (rr_kind r) then Some ResKind
      else if \<not> valid_name (rr_name r) then Some ResName
      else if rr_version r = 0 \<or> (rr_version r = 1) \<noteq> (rr_prev r = None) then Some ResChain
      else case re_shape R (rr_spec_json r) of
        None \<Rightarrow> Some ResJson
      | Some shape \<Rightarrow>
          if rr_deleted r then (if shape \<noteq> JNull \<and> shape \<noteq> JEmptyObject then Some ResDeletedSpec else None)
          else if shape \<noteq> JEmptyObject \<and> shape \<noteq> JObject then Some ResNotObject
          else if int (length (rr_spec_json r)) > MAX_SPEC_BYTES then Some ResTooLarge
          else None)"

definition resource_id :: "resource_record \<Rightarrow> string" where
  "resource_id r = rr_kind r @ ''/'' @ rr_name r"

section \<open>Reading the chain\<close>

definition decode_digest :: "string \<Rightarrow> bytes option" where
  "decode_digest v = (case hex_decode v of Some bs \<Rightarrow> if length bs = 32 then Some bs else None | None \<Rightarrow> None)"

definition record_prefix :: "string option \<Rightarrow> string option \<Rightarrow> string" where
  "record_prefix kind name =
     (case (kind, name) of
        (Some k, Some m) \<Rightarrow> k @ ''/'' @ m @ ''/''
      | (Some k, None) \<Rightarrow> k @ ''/''
      | (None, _) \<Rightarrow> [])"

text \<open>The checks of the scan on one row of the namespace.\<close>

definition candidate :: "res_env \<Rightarrow> signer_id \<Rightarrow> u64 \<Rightarrow> string \<times> kv_entry \<Rightarrow> (resource_record \<times> string) option" where
  "candidate R op now = (\<lambda>(key, e).
     case visible e now of
       None \<Rightarrow> None
     | Some bytes \<Rightarrow>
         (case re_from_bytes R bytes of
            None \<Rightarrow> None
          | Some env \<Rightarrow>
              (case envelope_open (ne_crypto (re_node R)) (re_dec R) (Some op) env of
                 Inl _ \<Rightarrow> None
               | Inr r \<Rightarrow>
                   if resource_validate R r \<noteq> None \<or> \<not> starts_with key (rr_kind r @ ''/'' @ rr_name r @ ''/'') then None
                   else Some (r, hex_encode (envelope_digest (ne_crypto (re_node R)) env)))))"

definition candidates :: "res_env \<Rightarrow> node \<Rightarrow> u64 \<Rightarrow> string option \<Rightarrow> string option
    \<Rightarrow> (string \<times> string, (resource_record \<times> string) list) btree_map" where
  "candidates R n now kind name =
     fold (\<lambda>row m.
        if \<not> starts_with (fst row) (record_prefix kind name) then m
        else case candidate R (cfg_operator (nd_cfg n)) now row of
          None \<Rightarrow> m
        | Some (r, digest) \<Rightarrow>
            (let ident = (rr_kind r, rr_name r);
                 grp = (case map_of m ident of Some g \<Rightarrow> g | None \<Rightarrow> [])
             in bt_insert ident (grp @ [(r, digest)]) m))
       (node_kv_dump n RESOURCE_NAMESPACE) []"

definition chain_ok :: "(string, u64) hash_map \<Rightarrow> resource_record \<Rightarrow> bool" where
  "chain_ok accepted r =
     (if rr_version r = 1 then rr_prev r = None
      else (case rr_prev r of None \<Rightarrow> None | Some p \<Rightarrow> map_of accepted (hex_encode p)) = Some (rr_version r - 1))"

definition connect_one ::
  "resource_record \<times> string \<Rightarrow> (string, u64) hash_map \<times> resource_view list \<Rightarrow> (string, u64) hash_map \<times> resource_view list" where
  "connect_one = (\<lambda>(r, digest) (accepted, connected).
     (if chain_ok accepted r
      then (hm_insert digest (rr_version r) accepted, connected @ [\<lparr>rv_resource = r, rv_digest = digest\<rparr>])
      else (accepted, connected)))"

definition connect_group :: "(resource_record \<times> string) list \<Rightarrow> resource_view list" where
  "connect_group grp = snd (fold connect_one (sort_key (\<lambda>(r, digest). (rr_version r, digest)) grp) ([], []))"

definition records :: "res_env \<Rightarrow> node \<Rightarrow> u64 \<Rightarrow> string option \<Rightarrow> string option \<Rightarrow> resource_view list" where
  "records R n now kind name = concat (map (\<lambda>(_, grp). connect_group grp) (candidates R n now kind name))"

definition view_rank :: "resource_view \<Rightarrow> u64 \<times> string" where
  "view_rank v = (rr_version (rv_resource v), rv_digest v)"

text \<open>\<open>max_by\<close>: the last of the greatest.\<close>

fun max_view :: "resource_view option \<Rightarrow> resource_view list \<Rightarrow> resource_view option" where
  "max_view cur [] = cur"
| "max_view cur (v # vs) = max_view (case cur of None \<Rightarrow> Some v | Some x \<Rightarrow> if view_rank v < view_rank x then Some x else Some v) vs"

definition resource_head :: "res_env \<Rightarrow> node \<Rightarrow> u64 \<Rightarrow> string \<Rightarrow> string \<Rightarrow> resource_view option" where
  "resource_head R n now kind name =
     max_view None (filter (\<lambda>v. rr_kind (rv_resource v) = kind \<and> rr_name (rv_resource v) = name)
       (records R n now (Some kind) (Some name)))"

definition resource_heads :: "res_env \<Rightarrow> node \<Rightarrow> u64 \<Rightarrow> string option \<Rightarrow> resource_view list" where
  "resource_heads R n now kind =
     map snd (fold (\<lambda>v latest.
        let ident = (rr_kind (rv_resource v), rr_name (rv_resource v))
        in if (case map_of latest ident of None \<Rightarrow> True | Some cur \<Rightarrow> view_rank cur < view_rank v)
           then bt_insert ident v latest else latest)
       (records R n now kind None) [])"

section \<open>Writing the chain\<close>

definition prepare_after ::
  "res_env \<Rightarrow> string \<Rightarrow> string \<Rightarrow> string \<Rightarrow> bool \<Rightarrow> resource_view option \<Rightarrow> resource_error + resource_record" where
  "prepare_after R kind name spec deleted head =
     (case head of
        Some h \<Rightarrow>
          if rr_kind (rv_resource h) \<noteq> kind \<or> rr_name (rv_resource h) \<noteq> name then Inl ResOther
          else (case decode_digest (rv_digest h) of
            None \<Rightarrow> Inl ResDigest
          | Some p \<Rightarrow>
              (let r = \<lparr>rr_schema = RESOURCE_SCHEMA, rr_kind = kind, rr_name = name,
                        rr_version = rr_version (rv_resource h) + 1, rr_prev = Some p, rr_deleted = deleted,
                        rr_spec_json = (if deleted then ''null'' else spec)\<rparr>
               in case resource_validate R r of Some e \<Rightarrow> Inl e | None \<Rightarrow> Inr r))
      | None \<Rightarrow>
          (let r = \<lparr>rr_schema = RESOURCE_SCHEMA, rr_kind = kind, rr_name = name, rr_version = 1, rr_prev = None,
                    rr_deleted = deleted, rr_spec_json = (if deleted then ''null'' else spec)\<rparr>
           in case resource_validate R r of Some e \<Rightarrow> Inl e | None \<Rightarrow> Inr r))"

definition prepare ::
  "res_env \<Rightarrow> node \<Rightarrow> u64 \<Rightarrow> string \<Rightarrow> string \<Rightarrow> string \<Rightarrow> bool \<Rightarrow> resource_error + resource_record" where
  "prepare R n now kind name spec deleted = prepare_after R kind name spec deleted (resource_head R n now kind name)"

definition resource_key :: "resource_record \<Rightarrow> string \<Rightarrow> string" where
  "resource_key r digest = rr_kind r @ ''/'' @ rr_name r @ ''/'' @ pad20 (unat (rr_version r)) @ ''/'' @ digest"

definition wakes_runtime :: "string \<Rightarrow> bool" where
  "wakes_runtime kind \<longleftrightarrow>
     kind \<in> {''node_policy'', ''cluster_policy'', ''r2_bucket'', ''binary'', ''hostname_claim'', ''storage_policy''}"

definition resource_ingest :: "res_env \<Rightarrow> node \<Rightarrow> u64 \<Rightarrow> envelope \<Rightarrow> node \<times> (resource_error + resource_record)" where
  "resource_ingest R n now env =
     (case envelope_open (ne_crypto (re_node R)) (re_dec R) (Some (cfg_operator (nd_cfg n))) env of
        Inl e \<Rightarrow> (n, Inl (ResEnvelope e))
      | Inr r \<Rightarrow>
          (case resource_validate R r of
             Some e \<Rightarrow> (n, Inl e)
           | None \<Rightarrow>
               (let key = resource_key r (hex_encode (envelope_digest (ne_crypto (re_node R)) env));
                    n1 = (if node_kv_get n now RESOURCE_NAMESPACE key = None
                          then node_kv_put (re_node R) n now RESOURCE_NAMESPACE key (Some (re_to_bytes R env)) None else n);
                    n2 = (if wakes_runtime (rr_kind r) then emit RuntimeEvent n1 else n1)
                in (n2, Inr r))))"
end
