(* ===== verification/Resource_Chain.thy ===== *)
theory Resource_Chain
  imports Resource Node_Reopen
begin

text \<open>
  What the scan of the resource namespace returns: exactly the operator-signed,
  valid records that a chain of digests connects to a first version, whatever
  order they arrived in; and storing another record never takes one away.
\<close>

section \<open>Chains\<close>

type_synonym row = "resource_record \<times> string"

definition ident_of :: "resource_record \<Rightarrow> string \<times> string" where
  "ident_of r = (rr_kind r, rr_name r)"

inductive linked_to :: "row set \<Rightarrow> resource_record \<Rightarrow> string \<Rightarrow> bool" for C where
  genesis: "(r, d) \<in> C \<Longrightarrow> rr_version r = 1 \<Longrightarrow> rr_prev r = None \<Longrightarrow> linked_to C r d"
| extend: "(r, d) \<in> C \<Longrightarrow> linked_to C r' d' \<Longrightarrow> ident_of r' = ident_of r \<Longrightarrow> rr_prev r = Some p \<Longrightarrow> hex_encode p = d'
    \<Longrightarrow> rr_version r' = rr_version r - 1 \<Longrightarrow> rr_version r \<noteq> 1 \<Longrightarrow> linked_to C r d"

inductive_cases linked_toE: "linked_to C r d"

lemma linked_in: "linked_to C r d \<Longrightarrow> (r, d) \<in> C"
  by (auto elim: linked_toE)

lemma linked_mono: "linked_to C r d \<Longrightarrow> C \<subseteq> D \<Longrightarrow> linked_to D r d"
proof (induction rule: linked_to.induct)
  case (extend r d r' d' p)
  then show ?case by (blast intro: linked_to.extend)
qed (blast intro: linked_to.genesis)

lemma linked_ident: "linked_to C r d \<Longrightarrow> linked_to {x \<in> C. ident_of (fst x) = ident_of r} r d"
proof (induction rule: linked_to.induct)
  case (genesis r d)
  then show ?case by (intro linked_to.genesis) auto
next
  case (extend r d r' d' p)
  have "linked_to {x \<in> C. ident_of (fst x) = ident_of r} r' d'" using extend.IH extend.hyps(3) by simp
  then show ?case by (rule linked_to.extend [rotated]) (use extend.hyps in auto)
qed

lemma less_minus_one_word: "v \<noteq> 0 \<Longrightarrow> v - 1 < v" for v :: u64
proof -
  assume "v \<noteq> 0"
  then have "0 < uint v" by (simp add: word_neq_0_conv word_less_def)
  moreover have "uint v < 2 ^ 64" using uint_lt2p [of v] by simp
  ultimately show ?thesis by (simp add: word_less_def uint_word_ariths)
qed

text \<open>A record of the highest version is no link below itself.\<close>

lemma linked_insert:
  assumes "linked_to (insert (r0, d0) C) r d" and "\<forall>(r, d) \<in> C. rr_version r \<le> rr_version r0 \<and> rr_version r \<noteq> 0"
    and "rr_version r0 \<noteq> 0"
  shows "(r, d) = (r0, d0) \<or> linked_to C r d"
  using assms(1)
proof (induction rule: linked_to.induct)
  case (genesis r d)
  then show ?case by (auto intro: linked_to.genesis)
next
  case (extend r d r' d' p)
  show ?case
  proof (cases "(r, d) = (r0, d0)")
    case False
    with extend.hyps(1) have C: "(r, d) \<in> C" by blast
    with assms(2) have v: "rr_version r \<le> rr_version r0" "rr_version r \<noteq> 0" by auto
    have "rr_version r - 1 < rr_version r" using v(2) by (rule less_minus_one_word)
    with v extend.hyps(6) have "r' \<noteq> r0" by auto
    with extend.IH have "linked_to C r' d'" by simp
    with extend.hyps C show ?thesis by (blast intro: linked_to.extend)
  qed simp
qed

section \<open>The accept loop\<close>

definition digests_agree :: "row set \<Rightarrow> bool" where
  "digests_agree C \<longleftrightarrow> (\<forall>r r' d. (r, d) \<in> C \<longrightarrow> (r', d) \<in> C \<longrightarrow> rr_version r = rr_version r')"

lemma digests_agree_subset: "digests_agree D \<Longrightarrow> C \<subseteq> D \<Longrightarrow> digests_agree C"
  unfolding digests_agree_def by blast

abbreviation as_view :: "row \<Rightarrow> resource_view" where
  "as_view x \<equiv> \<lparr>rv_resource = fst x, rv_digest = snd x\<rparr>"

lemma chain_ok_iff:
  assumes acc: "\<And>d v. map_of acc d = Some v \<longleftrightarrow> (\<exists>r. linked_to C r d \<and> rr_version r = v)"
    and "\<forall>(r, d) \<in> C. rr_version r \<le> rr_version r0 \<and> rr_version r \<noteq> 0 \<and> ident_of r = ident_of r0" and "rr_version r0 \<noteq> 0"
  shows "chain_ok acc r0 \<longleftrightarrow> linked_to (insert (r0, d0) C) r0 d0"
proof (cases "rr_version r0 = 1")
  case True
  then show ?thesis by (auto simp: chain_ok_def intro: linked_to.genesis elim: linked_toE)
next
  case False
  have "chain_ok acc r0 \<longleftrightarrow> (\<exists>p r'. rr_prev r0 = Some p \<and> linked_to C r' (hex_encode p) \<and> rr_version r' = rr_version r0 - 1)"
    using False by (auto simp: chain_ok_def acc split: option.splits)
  also have "\<dots> \<longleftrightarrow> linked_to (insert (r0, d0) C) r0 d0"
  proof
    assume "\<exists>p r'. rr_prev r0 = Some p \<and> linked_to C r' (hex_encode p) \<and> rr_version r' = rr_version r0 - 1"
    then obtain p r' where r': "rr_prev r0 = Some p" "linked_to C r' (hex_encode p)" "rr_version r' = rr_version r0 - 1" by blast
    have "ident_of r' = ident_of r0" using linked_in [OF r'(2)] assms(2) by auto
    with r' False linked_mono [OF r'(2)] show "linked_to (insert (r0, d0) C) r0 d0" by (blast intro: linked_to.extend)
  next
    assume "linked_to (insert (r0, d0) C) r0 d0"
    then obtain r' p where r': "linked_to (insert (r0, d0) C) r' (hex_encode p)" "rr_prev r0 = Some p" "rr_version r' = rr_version r0 - 1"
      using False by (auto elim: linked_toE)
    have "rr_version r0 - 1 \<noteq> rr_version r0" by simp
    with r'(3) have "r' \<noteq> r0" by auto
    with linked_insert [OF r'(1)] assms(2,3) have "linked_to C r' (hex_encode p)" by auto
    with r' show "\<exists>p r'. rr_prev r0 = Some p \<and> linked_to C r' (hex_encode p) \<and> rr_version r' = rr_version r0 - 1" by blast
  qed
  finally show ?thesis .
qed

lemma connect_fold:
  assumes "sorted (map (\<lambda>(r, d). (rr_version r, d)) xs)" and "digests_agree (set xs)"
    and "\<forall>(r, d) \<in> set xs. rr_version r \<noteq> 0 \<and> ident_of r = i"
    and "fold connect_one xs ([], []) = (acc, con)"
  shows "set con = {as_view (r, d) | r d. linked_to (set xs) r d}
    \<and> (\<forall>d v. map_of acc d = Some v \<longleftrightarrow> (\<exists>r. linked_to (set xs) r d \<and> rr_version r = v))"
  using assms
proof (induction xs arbitrary: acc con rule: rev_induct)
  case Nil
  then show ?case by (auto elim: linked_toE)
next
  case (snoc x xs)
  obtain r0 d0 where x: "x = (r0, d0)" by (cases x)
  obtain acc0 con0 where f: "fold connect_one xs ([], []) = (acc0, con0)" by force
  have low: "\<forall>(r, d) \<in> set xs. rr_version r \<le> rr_version r0 \<and> rr_version r \<noteq> 0 \<and> ident_of r = ident_of r0" "rr_version r0 \<noteq> 0"
  proof -
    have "rr_version r \<le> rr_version r0" if "(r, d) \<in> set xs" for r d
    proof -
      have "\<forall>k \<in> set (map (\<lambda>(r, d). (rr_version r, d)) xs). k \<le> (rr_version r0, d0)"
        using snoc.prems(1) by (simp add: x sorted_append)
      moreover have "(rr_version r, d) \<in> set (map (\<lambda>(r, d). (rr_version r, d)) xs)" using that by force
      ultimately have "(rr_version r, d) \<le> (rr_version r0, d0)" by blast
      then show ?thesis by (simp only: less_eq_prod_simp) (blast intro: less_imp_le)
    qed
    with snoc.prems(3) show "\<forall>(r, d) \<in> set xs. rr_version r \<le> rr_version r0 \<and> rr_version r \<noteq> 0 \<and> ident_of r = ident_of r0"
      "rr_version r0 \<noteq> 0" by (auto simp: x)
  qed
  have pre: "sorted (map (\<lambda>(r, d). (rr_version r, d)) xs)" "digests_agree (set xs)"
    "\<forall>(r, d) \<in> set xs. rr_version r \<noteq> 0 \<and> ident_of r = i"
    using snoc.prems(1,3) digests_agree_subset [OF snoc.prems(2), of "set xs"] by (simp_all add: sorted_append subset_insertI)
  note IH = snoc.IH [OF pre f]
  have con0: "set con0 = {as_view (r, d) | r d. linked_to (set xs) r d}" using IH by (rule conjunct1)
  have acc0: "\<And>d v. map_of acc0 d = Some v \<longleftrightarrow> (\<exists>r. linked_to (set xs) r d \<and> rr_version r = v)" using IH by blast
  have ok: "chain_ok acc0 r0 \<longleftrightarrow> linked_to (insert (r0, d0) (set xs)) r0 d0"
    by (rule chain_ok_iff [OF acc0 low])
  have lk: "linked_to (insert (r0, d0) (set xs)) r d \<longleftrightarrow> linked_to (set xs) r d \<or> (r, d) = (r0, d0) \<and> chain_ok acc0 r0" for r d
  proof
    assume l: "linked_to (insert (r0, d0) (set xs)) r d"
    have "\<forall>(r, d) \<in> set xs. rr_version r \<le> rr_version r0 \<and> rr_version r \<noteq> 0" using low(1) by blast
    from linked_insert [OF l this low(2)] show "linked_to (set xs) r d \<or> (r, d) = (r0, d0) \<and> chain_ok acc0 r0"
      using l ok by (elim disjE) simp_all
  next
    assume "linked_to (set xs) r d \<or> (r, d) = (r0, d0) \<and> chain_ok acc0 r0"
    then show "linked_to (insert (r0, d0) (set xs)) r d"
      using ok linked_mono [OF _ subset_insertI] by (elim disjE) simp_all
  qed
  have st: "(acc, con) = connect_one x (acc0, con0)" using snoc.prems(4) f by simp
  have agree: "rr_version r = rr_version r0" if "linked_to (set xs) r d0" for r
    using snoc.prems(2) linked_in [OF that] unfolding digests_agree_def x set_append by (elim allE [of _ r] allE [of _ r0] allE [of _ d0]) simp
  show ?case
  proof (cases "chain_ok acc0 r0")
    case True
    with st have "acc = hm_insert d0 (rr_version r0) acc0" "con = con0 @ [as_view (r0, d0)]" by (simp_all add: connect_one_def x)
    with con0 acc0 agree True show ?thesis by (auto simp: x lk update_conv')
  next
    case False
    with st have "acc = acc0" "con = con0" by (simp_all add: connect_one_def x)
    with con0 acc0 False show ?thesis by (simp add: x lk)
  qed
qed

lemma connect_group_set:
  assumes "digests_agree (set grp)" and "\<forall>(r, d) \<in> set grp. rr_version r \<noteq> 0 \<and> ident_of r = i"
  shows "set (connect_group grp) = {as_view (r, d) | r d. linked_to (set grp) r d}"
proof -
  let ?xs = "sort_key (\<lambda>(r, d). (rr_version r, d)) grp"
  obtain acc con where f: "fold connect_one ?xs ([], []) = (acc, con)" by force
  have "set con = {as_view (r, d) | r d. linked_to (set ?xs) r d}"
    by (rule conjunct1 [OF connect_fold [OF sorted_sort_key _ _ f]]) (use assms in simp_all)
  then show ?thesis by (simp add: connect_group_def f)
qed

section \<open>The scan\<close>

text \<open>The rows under a prefix that pass every check of the scan.\<close>

definition scanned :: "res_env \<Rightarrow> node \<Rightarrow> u64 \<Rightarrow> string \<Rightarrow> row set" where
  "scanned R n now pfx = {x. \<exists>row \<in> set (node_kv_dump n RESOURCE_NAMESPACE).
     starts_with (fst row) pfx \<and> candidate R (cfg_operator (nd_cfg n)) now row = Some x}"

definition group_at :: "(string \<times> string, row list) btree_map \<Rightarrow> string \<times> string \<Rightarrow> row list" where
  "group_at m i = (case map_of m i of Some g \<Rightarrow> g | None \<Rightarrow> [])"

definition add_candidate ::
  "(string \<times> kv_entry \<Rightarrow> row option) \<Rightarrow> string \<times> kv_entry
    \<Rightarrow> (string \<times> string, row list) btree_map \<Rightarrow> (string \<times> string, row list) btree_map" where
  "add_candidate f entry m =
     (case f entry of
        None \<Rightarrow> m
      | Some x \<Rightarrow> bt_insert (ident_of (fst x)) (group_at m (ident_of (fst x)) @ [x]) m)"

definition grouped :: "(string \<times> string, row list) btree_map \<Rightarrow> row set \<Rightarrow> bool" where
  "grouped m C \<longleftrightarrow> bt_ok m \<and> (\<forall>i. set (group_at m i) = {x \<in> C. ident_of (fst x) = i})"

lemma group_at_insert: "bt_ok m \<Longrightarrow> group_at (bt_insert k v m) i = (if i = k then v else group_at m i)"
  by (simp add: group_at_def map_of_bt_insert)

lemma grouped_add:
  assumes "grouped m C"
  shows "grouped (add_candidate f entry m) (C \<union> set_option (f entry))"
proof (cases "f entry")
  case None
  with assms show ?thesis by (simp add: add_candidate_def)
next
  case (Some x)
  have b: "bt_ok m" and g: "\<And>i. set (group_at m i) = {x \<in> C. ident_of (fst x) = i}"
    using assms unfolding grouped_def by blast+
  have "set (group_at (add_candidate f entry m) i) = {y \<in> insert x C. ident_of (fst y) = i}" for i
    unfolding add_candidate_def Some option.case group_at_insert [OF b] by (cases "i = ident_of (fst x)") (auto simp: g)
  moreover have "bt_ok (add_candidate f entry m)" by (simp add: add_candidate_def Some bt_ok_insert [OF b])
  ultimately show ?thesis unfolding grouped_def Some by simp
qed

lemma grouped_fold:
  "grouped m C \<Longrightarrow> grouped (fold (add_candidate f) entries m) (C \<union> {x. \<exists>entry \<in> set entries. f entry = Some x})"
proof (induction entries arbitrary: m C)
  case (Cons e es)
  have "C \<union> {x. \<exists>entry \<in> set (e # es). f entry = Some x} = (C \<union> set_option (f e)) \<union> {x. \<exists>entry \<in> set es. f entry = Some x}"
    by auto
  then show ?case using Cons.IH [OF grouped_add [OF Cons.prems, of f e]] by simp
qed simp

lemma candidates_grouped: "grouped (candidates R n now kind name) (scanned R n now (record_prefix kind name))"
proof -
  let ?f = "\<lambda>entry. if \<not> starts_with (fst entry) (record_prefix kind name) then None
    else candidate R (cfg_operator (nd_cfg n)) now entry"
  have "grouped [] {}" by (simp add: grouped_def bt_ok_def group_at_def)
  from grouped_fold [OF this, of ?f "node_kv_dump n RESOURCE_NAMESPACE"]
  have "grouped (fold (add_candidate ?f) (node_kv_dump n RESOURCE_NAMESPACE) []) (scanned R n now (record_prefix kind name))"
    by (rule back_subst [where P = "grouped _"]) (auto simp: scanned_def)
  moreover have "add_candidate ?f = (\<lambda>entry m. if \<not> starts_with (fst entry) (record_prefix kind name) then m
        else case candidate R (cfg_operator (nd_cfg n)) now entry of
          None \<Rightarrow> m
        | Some (r, digest) \<Rightarrow>
            (let ident = (rr_kind r, rr_name r);
                 grp = (case map_of m ident of Some g \<Rightarrow> g | None \<Rightarrow> [])
             in bt_insert ident (grp @ [(r, digest)]) m))"
    by (intro ext) (auto simp: add_candidate_def ident_of_def group_at_def Let_def split: option.splits)
  ultimately show ?thesis unfolding candidates_def by (simp only:)
qed

lemma candidate_valid: "candidate R op now entry = Some (r, d) \<Longrightarrow> resource_validate R r = None"
  by (auto simp: candidate_def split: prod.splits option.splits sum.splits if_splits)

lemma valid_version: "resource_validate R r = None \<Longrightarrow> rr_version r \<noteq> 0"
  by (auto simp: resource_validate_def split: if_splits)

lemma records_set:
  assumes "digests_agree (scanned R n now (record_prefix kind name))"
  shows "set (records R n now kind name) = {as_view (r, d) | r d. linked_to (scanned R n now (record_prefix kind name)) r d}"
proof -
  let ?C = "scanned R n now (record_prefix kind name)" and ?m = "candidates R n now kind name"
  have g: "bt_ok ?m" "\<And>i. set (group_at ?m i) = {x \<in> ?C. ident_of (fst x) = i}"
    using candidates_grouped [of R n now kind name] unfolding grouped_def by blast+
  have row: "set grp = {x \<in> ?C. ident_of (fst x) = i}" if "(i, grp) \<in> set ?m" for i grp
    using g(2) [of i] that bt_ok_distinct [OF g(1)] by (simp add: group_at_def)
  have one: "set (connect_group grp) = {as_view (r, d) | r d. linked_to ?C r d \<and> ident_of r = i}" if "(i, grp) \<in> set ?m" for i grp
  proof -
    have "set (connect_group grp) = {as_view (r, d) | r d. linked_to (set grp) r d}"
    proof (rule connect_group_set [where i = i])
      show "digests_agree (set grp)" by (rule digests_agree_subset [OF assms]) (simp add: row [OF that])
      have "rr_version r \<noteq> 0" if "(r, d) \<in> ?C" for r d
        using that candidate_valid valid_version unfolding scanned_def by blast
      then show "\<forall>(r, d) \<in> set grp. rr_version r \<noteq> 0 \<and> ident_of r = i" unfolding row [OF that] by auto
    qed
    moreover have "linked_to (set grp) r d \<longleftrightarrow> linked_to ?C r d \<and> ident_of r = i" for r d
    proof
      assume l: "linked_to (set grp) r d"
      have "set grp \<subseteq> ?C" unfolding row [OF that] by blast
      from linked_mono [OF l this] linked_in [OF l] show "linked_to ?C r d \<and> ident_of r = i" unfolding row [OF that] by simp
    next
      assume "linked_to ?C r d \<and> ident_of r = i"
      with linked_ident [of ?C r d] show "linked_to (set grp) r d" unfolding row [OF that] by simp
    qed
    ultimately show ?thesis by simp
  qed
  have "\<exists>grp. (ident_of r, grp) \<in> set ?m" if "linked_to ?C r d" for r d
  proof -
    have "(r, d) \<in> set (group_at ?m (ident_of r))" using linked_in [OF that] g(2) by simp
    then obtain grp where "map_of ?m (ident_of r) = Some grp" by (cases "map_of ?m (ident_of r)") (simp_all add: group_at_def)
    then show ?thesis by (auto dest: map_of_SomeD)
  qed
  then have ex: "\<exists>grp. (ident_of r, grp) \<in> set ?m" if "linked_to ?C r d" for r d using that .
  have "v \<in> set (records R n now kind name) \<longleftrightarrow> (\<exists>i grp. (i, grp) \<in> set ?m \<and> v \<in> set (connect_group grp))" for v
    by (force simp: records_def)
  also have "(\<exists>i grp. (i, grp) \<in> set ?m \<and> v \<in> set (connect_group grp)) \<longleftrightarrow> (\<exists>r d. v = as_view (r, d) \<and> linked_to ?C r d)" for v
    using one ex by blast
  finally show ?thesis by blast
qed


section \<open>Signed records\<close>

text \<open>What the operator signed: every visible, valid record of the namespace with its digest.\<close>

definition signed_rows :: "res_env \<Rightarrow> node \<Rightarrow> u64 \<Rightarrow> row set" where
  "signed_rows R n now = {(r, hex_encode (envelope_digest (ne_crypto (re_node R)) env)) | r env.
     \<exists>key e bytes. (key, e) \<in> set (node_kv_dump n RESOURCE_NAMESPACE) \<and> visible e now = Some bytes \<and>
       re_from_bytes R bytes = Some env \<and> signer env = cfg_operator (nd_cfg n) \<and>
       signer_verify (ne_crypto (re_node R)) (signer env) (payload env) (sig env) \<and>
       re_dec R (payload env) = Some r \<and> resource_validate R r = None \<and>
       starts_with key (rr_kind r @ ''/'' @ rr_name r @ ''/'')}"

text \<open>SHA-256 does not collide on the envelopes at hand.\<close>

definition no_collision :: "res_env \<Rightarrow> node \<Rightarrow> u64 \<Rightarrow> bool" where
  "no_collision R n now \<longleftrightarrow>
     inj_on (envelope_digest (ne_crypto (re_node R)))
       {env. \<exists>key e bytes. (key, e) \<in> set (node_kv_dump n RESOURCE_NAMESPACE) \<and> visible e now = Some bytes \<and> re_from_bytes R bytes = Some env}"

lemma candidate_Some:
  "candidate R op now (key, e) = Some (r, d) \<longleftrightarrow>
     (\<exists>bytes env. visible e now = Some bytes \<and> re_from_bytes R bytes = Some env \<and> signer env = op \<and>
        signer_verify (ne_crypto (re_node R)) (signer env) (payload env) (sig env) \<and> re_dec R (payload env) = Some r \<and>
        resource_validate R r = None \<and> starts_with key (rr_kind r @ ''/'' @ rr_name r @ ''/'') \<and>
        d = hex_encode (envelope_digest (ne_crypto (re_node R)) env))"
  by (auto simp: candidate_def envelope_open_def split: option.splits sum.splits if_splits)

lemma signed_row_iff:
  "(r, d) \<in> signed_rows R n now \<longleftrightarrow>
     (\<exists>x \<in> set (node_kv_dump n RESOURCE_NAMESPACE). candidate R (cfg_operator (nd_cfg n)) now x = Some (r, d))"
proof
  assume "(r, d) \<in> signed_rows R n now"
  then obtain env key e bytes where "(key, e) \<in> set (node_kv_dump n RESOURCE_NAMESPACE)"
    "candidate R (cfg_operator (nd_cfg n)) now (key, e) = Some (r, d)"
    unfolding signed_rows_def candidate_Some by blast
  then show "\<exists>x \<in> set (node_kv_dump n RESOURCE_NAMESPACE). candidate R (cfg_operator (nd_cfg n)) now x = Some (r, d)" by blast
next
  assume "\<exists>x \<in> set (node_kv_dump n RESOURCE_NAMESPACE). candidate R (cfg_operator (nd_cfg n)) now x = Some (r, d)"
  then obtain key e where "(key, e) \<in> set (node_kv_dump n RESOURCE_NAMESPACE)"
    and "candidate R (cfg_operator (nd_cfg n)) now (key, e) = Some (r, d)" by auto
  then show "(r, d) \<in> signed_rows R n now" unfolding signed_rows_def candidate_Some by blast
qed

lemma scanned_all: "scanned R n now [] = signed_rows R n now"
  by (auto simp: scanned_def signed_row_iff starts_with_def)

lemma scanned_subset: "scanned R n now pfx \<subseteq> signed_rows R n now"
  unfolding scanned_all [symmetric] scanned_def by (auto simp: starts_with_def)

lemma agree_signed:
  assumes "no_collision R n now"
  shows "digests_agree (signed_rows R n now)"
  unfolding digests_agree_def
proof (intro allI impI)
  fix r r' d
  assume "(r, d) \<in> signed_rows R n now" and "(r', d) \<in> signed_rows R n now"
  then obtain env env' where e: "d = hex_encode (envelope_digest (ne_crypto (re_node R)) env)" "re_dec R (payload env) = Some r"
    "env \<in> {env. \<exists>key e bytes. (key, e) \<in> set (node_kv_dump n RESOURCE_NAMESPACE) \<and> visible e now = Some bytes \<and> re_from_bytes R bytes = Some env}"
    and e': "d = hex_encode (envelope_digest (ne_crypto (re_node R)) env')" "re_dec R (payload env') = Some r'"
    "env' \<in> {env. \<exists>key e bytes. (key, e) \<in> set (node_kv_dump n RESOURCE_NAMESPACE) \<and> visible e now = Some bytes \<and> re_from_bytes R bytes = Some env}"
    unfolding signed_rows_def by blast
  from e(1) e'(1) have "envelope_digest (ne_crypto (re_node R)) env = envelope_digest (ne_crypto (re_node R)) env'"
    by (metis hex_encode_inj)
  with assms e(3) e'(3) have "env = env'" unfolding no_collision_def by (meson inj_onD)
  with e(2) e'(2) show "rr_version r = rr_version r'" by simp
qed

lemma candidate_prefix:
  "candidate R op now x = Some (r, d) \<Longrightarrow> starts_with (fst x) (record_prefix (Some (rr_kind r)) (Some (rr_name r)))"
  by (cases x) (auto simp: candidate_Some record_prefix_def starts_with_def)

lemma scanned_ident:
  "{x \<in> scanned R n now (record_prefix (Some k) (Some m)). ident_of (fst x) = (k, m)} = {x \<in> signed_rows R n now. ident_of (fst x) = (k, m)}"
  (is "?A = ?B")
proof
  show "?A \<subseteq> ?B" using scanned_subset by blast
  show "?B \<subseteq> ?A"
  proof
    fix y assume "y \<in> ?B"
    then obtain r d where y: "y = (r, d)" and "(r, d) \<in> signed_rows R n now" and i: "ident_of (fst (r, d)) = (k, m)"
      by (cases y) auto
    then obtain x where x: "x \<in> set (node_kv_dump n RESOURCE_NAMESPACE)" "candidate R (cfg_operator (nd_cfg n)) now x = Some (r, d)"
      unfolding signed_row_iff by blast
    from candidate_prefix [OF x(2)] i have "starts_with (fst x) (record_prefix (Some k) (Some m))" by (simp add: ident_of_def)
    with x i show "y \<in> ?A" unfolding scanned_def y by blast
  qed
qed

lemma max_view_spec:
  "case max_view cur vs of
     None \<Rightarrow> cur = None \<and> vs = []
   | Some v \<Rightarrow> v \<in> set_option cur \<union> set vs \<and> (\<forall>w \<in> set_option cur \<union> set vs. view_rank w \<le> view_rank v)"
proof (induction vs arbitrary: cur)
  case Nil
  then show ?case by (cases cur) auto
next
  case (Cons v vs)
  let ?cur = "case cur of None \<Rightarrow> Some v | Some x \<Rightarrow> if view_rank v < view_rank x then Some x else Some v"
  from Cons.IH [of ?cur] show ?case
    by (cases cur) (auto split: option.splits if_splits simp: not_less dest: order_trans)
qed

lemma head_spec:
  assumes "no_collision R n now"
  shows "case resource_head R n now k m of
     None \<Rightarrow> \<not> (\<exists>r d. linked_to (signed_rows R n now) r d \<and> ident_of r = (k, m))
   | Some v \<Rightarrow> linked_to (signed_rows R n now) (rv_resource v) (rv_digest v) \<and> ident_of (rv_resource v) = (k, m)
       \<and> (\<forall>r d. linked_to (signed_rows R n now) r d \<longrightarrow> ident_of r = (k, m) \<longrightarrow> (rr_version r, d) \<le> view_rank v)"
proof -
  let ?S = "scanned R n now (record_prefix (Some k) (Some m))" and ?T = "signed_rows R n now"
  let ?vs = "filter (\<lambda>v. rr_kind (rv_resource v) = k \<and> rr_name (rv_resource v) = m) (records R n now (Some k) (Some m))"
  have eq: "linked_to ?S r d \<longleftrightarrow> linked_to ?T r d" if i: "ident_of r = (k, m)" for r d
  proof
    assume "linked_to ?S r d"
    then show "linked_to ?T r d" by (rule linked_mono [OF _ scanned_subset])
  next
    assume "linked_to ?T r d"
    from linked_ident [OF this, unfolded i, folded scanned_ident] show "linked_to ?S r d" by (rule linked_mono) blast
  qed
  have "digests_agree ?S" by (rule digests_agree_subset [OF agree_signed [OF assms] scanned_subset])
  from records_set [OF this] have "set ?vs = {as_view (r, d) | r d. linked_to ?S r d \<and> ident_of r = (k, m)}"
    by (auto simp: ident_of_def)
  then have vs: "set ?vs = {as_view (r, d) | r d. linked_to ?T r d \<and> ident_of r = (k, m)}" using eq by blast
  have mem: "as_view (r, d) \<in> set ?vs" if "linked_to ?T r d" "ident_of r = (k, m)" for r d unfolding vs using that by blast
  show ?thesis
  proof (cases "resource_head R n now k m")
    case None
    with max_view_spec [of None ?vs] have "?vs = []" by (simp add: resource_head_def)
    with mem None show ?thesis by force
  next
    case (Some v)
    with max_view_spec [of None ?vs] have v: "v \<in> set ?vs" "\<forall>w \<in> set ?vs. view_rank w \<le> view_rank v"
      by (simp_all add: resource_head_def)
    from v(1) have "linked_to ?T (rv_resource v) (rv_digest v) \<and> ident_of (rv_resource v) = (k, m)" unfolding vs by auto
    moreover have "(rr_version r, d) \<le> view_rank v" if "linked_to ?T r d" "ident_of r = (k, m)" for r d
      using bspec [OF v(2) mem [OF that]] by (simp add: view_rank_def)
    ultimately show ?thesis using Some by simp
  qed
qed


section \<open>Ingestion\<close>

lemma dump_space: "node_kv_dump n ns = kv_entries (kv_space (nd_kv n) ns)"
  by (simp add: node_kv_dump_def kv_space_def kv_dump_def kv_new_def split: option.splits)

lemma get_space: "node_kv_get n now ns key = (case map_of (node_kv_dump n ns) key of None \<Rightarrow> None | Some e \<Rightarrow> visible e now)"
  by (simp add: node_kv_get_def dump_space kv_space_def kv_get_def kv_new_def split: option.splits)

lemma gone_stays_gone: "visible e now = None \<Longrightarrow> now \<le> t \<Longrightarrow> visible e t = None"
  by (auto simp: visible_def split: option.splits if_splits dest: order_trans)

lemma put_visible_rows:
  assumes "spaces_ok (nd_kv n)"
  shows "\<exists>e. node_kv_dump (node_kv_put E n now RESOURCE_NAMESPACE key (Some b) None) RESOURCE_NAMESPACE
       = bt_insert key e (node_kv_dump n RESOURCE_NAMESPACE) \<and> (\<forall>t. visible e t = Some b)"
    and "nd_cfg (node_kv_put E n now RESOURCE_NAMESPACE key (Some b) None) = nd_cfg n"
proof -
  have r: "starts_with RESOURCE_NAMESPACE ''__rf''" by (simp add: RESOURCE_NAMESPACE_def starts_with_def)
  show "\<exists>e. node_kv_dump (node_kv_put E n now RESOURCE_NAMESPACE key (Some b) None) RESOURCE_NAMESPACE
       = bt_insert key e (node_kv_dump n RESOURCE_NAMESPACE) \<and> (\<forall>t. visible e t = Some b)"
    by (auto simp: node_kv_put_def r kv_put_entry_def dump_space kv_space_def emit_def kv_put_def Let_def update_conv'
      visible_def split: prod.splits)
  show "nd_cfg (node_kv_put E n now RESOURCE_NAMESPACE key (Some b) None) = nd_cfg n"
    by (simp add: node_kv_put_def r kv_put_entry_def emit_def Let_def split: prod.splits)
qed

text \<open>The rows of the namespace after an accepted envelope, at any later time.\<close>

lemma ingest_rows:
  assumes ok: "spaces_ok (nd_kv n)" and i: "resource_ingest R n now env = (n', Inr r)" and t: "now \<le> t"
  shows "nd_cfg n' = nd_cfg n"
    and "signed_rows R n t \<subseteq> signed_rows R n' t"
    and "no_collision R n' t \<Longrightarrow> no_collision R n t"
    and "node_kv_get n now RESOURCE_NAMESPACE (resource_key r (hex_encode (envelope_digest (ne_crypto (re_node R)) env))) = None
      \<Longrightarrow> re_from_bytes R (re_to_bytes R env) = Some env
      \<Longrightarrow> (r, hex_encode (envelope_digest (ne_crypto (re_node R)) env)) \<in> signed_rows R n' t"
proof -
  let ?d = "hex_encode (envelope_digest (ne_crypto (re_node R)) env)" and ?op = "cfg_operator (nd_cfg n)"
  let ?key = "resource_key r ?d" and ?D = "node_kv_dump n RESOURCE_NAMESPACE" and ?D' = "node_kv_dump n' RESOURCE_NAMESPACE"
  from i have op: "envelope_open (ne_crypto (re_node R)) (re_dec R) (Some ?op) env = Inr r" "resource_validate R r = None"
    by (auto simp: resource_ingest_def Let_def split: sum.splits option.splits)
  have emit: "node_kv_dump (emit ev m) ns = node_kv_dump m ns" "nd_cfg (emit ev m) = nd_cfg m" for ev m ns
    by (simp_all add: emit_def node_kv_dump_def)
  note put = put_visible_rows [OF ok, of "re_node R" now ?key "re_to_bytes R env"]
  have n': "?D' = node_kv_dump (if node_kv_get n now RESOURCE_NAMESPACE ?key = None
       then node_kv_put (re_node R) n now RESOURCE_NAMESPACE ?key (Some (re_to_bytes R env)) None else n) RESOURCE_NAMESPACE"
    "nd_cfg n' = nd_cfg n"
    using i op put(2) by (auto simp: resource_ingest_def Let_def emit)
  from n'(2) show "nd_cfg n' = nd_cfg n" .
  have bt: "bt_ok ?D" using spaces_ok_space [OF ok] by (simp add: dump_space kv_ok_def)
  have keep: "x \<in> set ?D'" if x: "x \<in> set ?D" "visible (snd x) t \<noteq> None" for x
  proof (cases "node_kv_get n now RESOURCE_NAMESPACE ?key")
    case None
    from put(1) obtain e where D': "?D' = bt_insert ?key e ?D" using n'(1) None by auto
    have "fst x \<noteq> ?key"
    proof
      assume "fst x = ?key"
      with x(1) bt have "map_of ?D ?key = Some (snd x)" by (metis bt_ok_distinct map_of_is_SomeI prod.collapse)
      with None have "visible (snd x) now = None" by (simp add: get_space)
      from gone_stays_gone [OF this t] x(2) show False by simp
    qed
    with x(1) show ?thesis unfolding D' set_bt_insert [OF bt] by (cases x) auto
  next
    case (Some b)
    with n'(1) x(1) show ?thesis by simp
  qed
  have "candidate R ?op t x = Some y \<Longrightarrow> visible (snd x) t \<noteq> None" for x y
    by (cases x) (auto simp: candidate_def split: option.splits)
  with keep show "signed_rows R n t \<subseteq> signed_rows R n' t" unfolding subset_iff split_paired_All signed_row_iff n'(2) by blast
  show "no_collision R n t" if "no_collision R n' t"
    using that keep unfolding no_collision_def by (elim inj_on_subset) force
  assume None: "node_kv_get n now RESOURCE_NAMESPACE ?key = None" and rt: "re_from_bytes R (re_to_bytes R env) = Some env"
  from put(1) obtain e where D': "?D' = bt_insert ?key e ?D" and v: "visible e t = Some (re_to_bytes R env)"
    using n'(1) None by auto
  have "(?key, e) \<in> set ?D'" unfolding D' set_bt_insert [OF bt] by simp
  moreover have "candidate R ?op t (?key, e) = Some (r, ?d)"
    using op v rt by (simp add: candidate_def resource_key_def starts_with_def)
  ultimately show "(r, ?d) \<in> signed_rows R n' t" unfolding signed_row_iff n'(2) by blast
qed


lemma records_all:
  assumes "no_collision R n now"
  shows "v \<in> set (records R n now None None) \<longleftrightarrow> linked_to (signed_rows R n now) (rv_resource v) (rv_digest v)"
proof -
  have "record_prefix None None = []" by (simp add: record_prefix_def)
  with records_set [of R n now None None] agree_signed [OF assms] scanned_all [of R n now]
  have "set (records R n now None None) = {as_view (r, d) | r d. linked_to (signed_rows R n now) r d}" by simp
  then show ?thesis by (cases v) auto
qed

text \<open>The record that \<open>prepare\<close> builds continues the chain of its resource.\<close>

lemma prepare_links:
  assumes nc: "no_collision R n now" and p: "prepare R n now k m spec deleted = Inr r"
    and S: "signed_rows R n now \<subseteq> T" "(r, d) \<in> T"
  shows "linked_to T r d" and "ident_of r = (k, m)" and "resource_validate R r = None"
    and "case resource_head R n now k m of None \<Rightarrow> True | Some v \<Rightarrow> rr_version (rv_resource v) < rr_version r"
proof -
  show "ident_of r = (k, m)" and val: "resource_validate R r = None"
    using p by (auto simp: prepare_def prepare_after_def ident_of_def Let_def split: option.splits if_splits)
  show "linked_to T r d"
  proof (cases "resource_head R n now k m")
    case None
    with p have "rr_version r = 1" "rr_prev r = None"
      by (auto simp: prepare_def prepare_after_def Let_def split: option.splits)
    with S(2) show ?thesis by (rule linked_to.genesis)
  next
    case (Some v)
    with head_spec [OF nc, of k m] have v: "linked_to (signed_rows R n now) (rv_resource v) (rv_digest v)"
      "ident_of (rv_resource v) = (k, m)" by simp_all
    from linked_in [OF v(1)] obtain b where b: "rv_digest v = hex_encode b" unfolding signed_rows_def by auto
    with Some p have r: "rr_prev r = Some b" "rr_version r = rr_version (rv_resource v) + 1" "ident_of r = (k, m)"
      by (auto simp: prepare_def prepare_after_def Let_def ident_of_def decode_digest_def split: option.splits if_splits)
    from val r(1) have "rr_version r \<noteq> 1" by (auto simp: resource_validate_def split: if_splits)
    with r v linked_mono [OF v(1) S(1)] S(2) b show ?thesis by (intro linked_to.extend [of r d T "rv_resource v" "rv_digest v" b]) simp_all
  qed
  show "case resource_head R n now k m of None \<Rightarrow> True | Some v \<Rightarrow> rr_version (rv_resource v) < rr_version r"
  proof (cases "resource_head R n now k m")
    case (Some v)
    with p have r: "rr_version r = rr_version (rv_resource v) + 1"
      by (auto simp: prepare_def prepare_after_def Let_def split: option.splits if_splits)
    with valid_version [OF val] have "rr_version r - 1 < rr_version r" by (intro less_minus_one_word) auto
    with r Some show ?thesis by simp
  qed simp
qed


text \<open>
  C6: What a node shows of the platform resources is the operator's signed chain and nothing
  else.  As long as SHA-256 does not collide on the stored envelopes, a record is listed exactly if
  the operator signed it, it is valid, and an unbroken chain of such records (version one first,
  each naming the digest of its predecessor) leads to it; the head of a resource is the record
  of the chain with the greatest version and digest.
\<close>

theorem resource_records_exact:
  assumes "no_collision R n now"
  shows "(v \<in> set (records R n now None None) \<longleftrightarrow> linked_to (signed_rows R n now) (rv_resource v) (rv_digest v))
    \<and> (case resource_head R n now k m of
         None \<Rightarrow> \<not> (\<exists>r d. linked_to (signed_rows R n now) r d \<and> ident_of r = (k, m))
       | Some h \<Rightarrow> linked_to (signed_rows R n now) (rv_resource h) (rv_digest h) \<and> ident_of (rv_resource h) = (k, m)
           \<and> (\<forall>r d. linked_to (signed_rows R n now) r d \<longrightarrow> ident_of r = (k, m) \<longrightarrow> (rr_version r, d) \<le> view_rank h))"
  using records_all [OF assms] head_spec [OF assms] by blast

text \<open>
  C15: Publishing a resource.  When the operator signs the record that \<open>prepare\<close> built on a node's
  head, ingesting the envelope there succeeds, keeps every record that was visible, makes the
  new one visible and raises the head of the resource to at least its version, above the
  version it had before.
\<close>

theorem resource_publish:
  assumes ok: "spaces_ok (nd_kv n)"
    and p: "prepare R n now k m spec deleted = Inr r"
    and env: "envelope_open (ne_crypto (re_node R)) (re_dec R) (Some (cfg_operator (nd_cfg n))) env = Inr r"
    and codec: "re_from_bytes R (re_to_bytes R env) = Some env"
    and fresh: "node_kv_get n now RESOURCE_NAMESPACE (resource_key r (hex_encode (envelope_digest (ne_crypto (re_node R)) env))) = None"
    and n': "n' = fst (resource_ingest R n now env)"
    and nc: "no_collision R n' now"
  shows "snd (resource_ingest R n now env) = Inr r
    \<and> set (records R n now None None) \<subseteq> set (records R n' now None None)
    \<and> \<lparr>rv_resource = r, rv_digest = hex_encode (envelope_digest (ne_crypto (re_node R)) env)\<rparr> \<in> set (records R n' now None None)
    \<and> (\<exists>h. resource_head R n' now k m = Some h \<and> rr_version r \<le> rr_version (rv_resource h)
         \<and> (case resource_head R n now k m of None \<Rightarrow> True | Some v \<Rightarrow> rr_version (rv_resource v) < rr_version (rv_resource h)))"
proof -
  let ?d = "hex_encode (envelope_digest (ne_crypto (re_node R)) env)"
  have val: "resource_validate R r = None"
    using p by (auto simp: prepare_def prepare_after_def Let_def split: option.splits if_splits)
  then have i: "resource_ingest R n now env = (n', Inr r)"
    unfolding n' using env by (simp add: resource_ingest_def Let_def)
  note rows = ingest_rows [OF ok i order_refl]
  have nc0: "no_collision R n now" by (rule rows(3) [OF nc])
  have new: "(r, ?d) \<in> signed_rows R n' now" by (rule rows(4) [OF fresh codec])
  note link = prepare_links [OF nc0 p rows(2) new]
  have "set (records R n now None None) \<subseteq> set (records R n' now None None)"
    using records_all [OF nc0] records_all [OF nc] linked_mono [OF _ rows(2)] by blast
  moreover have "\<lparr>rv_resource = r, rv_digest = ?d\<rparr> \<in> set (records R n' now None None)"
    using records_all [OF nc] link(1) by simp
  moreover obtain h where h: "resource_head R n' now k m = Some h" and "(rr_version r, ?d) \<le> view_rank h"
    using head_spec [OF nc, of k m] link(1,2) by (cases "resource_head R n' now k m") auto
  then have "rr_version r \<le> rr_version (rv_resource h)" by (auto simp: view_rank_def less_eq_prod_simp)
  ultimately show ?thesis using i h link(4) by (auto split: option.splits intro: less_le_trans)
qed

section \<open>A chain of two records\<close>

definition demo_res_env :: "u8 \<Rightarrow> envelope" where
  "demo_res_env v = \<lparr>payload = [v], signer = Ed [9], sig = replicate 64 0\<rparr>"

definition demo_res_crypto :: crypto where
  "demo_res_crypto = demo_crypto\<lparr>sha256 := take 1\<rparr>"

definition demo_res :: "u8 \<Rightarrow> resource_record" where
  "demo_res v = \<lparr>rr_schema = 1, rr_kind = ''e'', rr_name = ''m'', rr_version = ucast v,
     rr_prev = (if v = 1 then None else Some (envelope_digest demo_res_crypto (demo_res_env (v - 1)))),
     rr_deleted = False, rr_spec_json = ''{}''\<rparr>"

fun demo_res_byte :: "bytes \<Rightarrow> u8 option" where
  "demo_res_byte [v] = Some v"
| "demo_res_byte _ = None"

definition demo_res_all :: res_env where
  "demo_res_all = \<lparr>re_node = demo_node_env\<lparr>ne_crypto := demo_res_crypto\<rparr>, re_dec = map_option demo_res \<circ> demo_res_byte,
     re_from_bytes = map_option demo_res_env \<circ> demo_res_byte, re_to_bytes = payload, re_shape = (\<lambda>_. Some JEmptyObject)\<rparr>"

lemma demo_no_collision: "no_collision demo_res_all n now"
  by (auto simp: no_collision_def inj_on_def demo_res_all_def demo_res_env_def envelope_digest_def digest_input_def
      demo_node_env_def demo_res_crypto_def)

definition demo_res_node :: node where
  "demo_res_node = fst (resource_ingest demo_res_all (fst (resource_ingest demo_res_all demo_node 10 (demo_res_env 2))) 20 (demo_res_env 1))"

lemma demo_res_listed: "map rv_resource (records demo_res_all demo_res_node 30 None None) = [demo_res 1, demo_res 2]"
  by code_simp

theorem resource_records_exact_witness:
  "no_collision demo_res_all demo_res_node 30
   \<and> map rv_resource (records demo_res_all demo_res_node 30 None None) = [demo_res 1, demo_res 2]
   \<and> (\<exists>d. linked_to (signed_rows demo_res_all demo_res_node 30) (demo_res 2) d)"
proof -
  from demo_res_listed have "demo_res 2 \<in> set (map rv_resource (records demo_res_all demo_res_node 30 None None))" by simp
  then obtain v where "v \<in> set (records demo_res_all demo_res_node 30 None None)" "rv_resource v = demo_res 2" by auto
  with resource_records_exact [OF demo_no_collision, of v demo_res_node 30]
  have "linked_to (signed_rows demo_res_all demo_res_node 30) (demo_res 2) (rv_digest v)" by simp
  with demo_no_collision demo_res_listed show ?thesis by blast
qed

theorem resource_publish_witness:
  "let n' = fst (resource_ingest demo_res_all demo_node 10 (demo_res_env 1))
   in prepare demo_res_all demo_node 10 ''e'' ''m'' ''{}'' False = Inr (demo_res 1)
      \<and> (\<exists>h. resource_head demo_res_all n' 10 ''e'' ''m'' = Some h \<and> 1 \<le> rr_version (rv_resource h))"
proof -
  have kv: "nd_kv demo_node = []" by code_simp
  then have ok: "spaces_ok (nd_kv demo_node)" by (simp add: spaces_ok_def hm_ok_def)
  have p: "prepare demo_res_all demo_node 10 ''e'' ''m'' ''{}'' False = Inr (demo_res 1)" by code_simp
  have e: "envelope_open (ne_crypto (re_node demo_res_all)) (re_dec demo_res_all) (Some (cfg_operator (nd_cfg demo_node))) (demo_res_env 1) = Inr (demo_res 1)"
    by code_simp
  have c: "re_from_bytes demo_res_all (re_to_bytes demo_res_all (demo_res_env 1)) = Some (demo_res_env 1)"
    by (simp add: demo_res_all_def demo_res_env_def)
  have f: "node_kv_get demo_node 10 RESOURCE_NAMESPACE key = None" for key by (simp add: node_kv_get_def kv)
  from resource_publish [OF ok p e c f refl demo_no_collision] p show ?thesis by (auto simp: Let_def demo_res_def)
qed

end
