(* ===== verification/Access.thy ===== *)
theory Access
  imports Resource_Chain
begin

text \<open>
  Personal access tokens of the public API, \<^verbatim>\<open>crates/rf/src/access.rs\<close>.  A token is a
  platform resource that holds the SHA-256 digest of a random value, its scopes
  and its dates.  The JSON form of a specification and the base64 encoding are
  parameters; random bytes are arguments.
\<close>

section \<open>Specifications\<close>

definition TOKEN_KIND :: string where "TOKEN_KIND = ''api_access_token''"
definition TOKEN_SCHEMA :: u8 where "TOKEN_SCHEMA = 1"
definition TOKEN_PREFIX :: string where "TOKEN_PREFIX = ''rfp_''"
definition DISPLAY_PREFIX_LEN :: nat where "DISPLAY_PREFIX_LEN = 12"

definition ALL_SCOPES :: "string list" where
  "ALL_SCOPES = [''*'', ''worker:read'', ''worker:write'', ''kv:read'', ''kv:write'', ''d1:read'', ''d1:write'', ''r2:read'', ''r2:write'',
     ''queue:read'', ''queue:write'', ''analytics:read'', ''analytics:write'', ''pipeline:read'', ''pipeline:write'', ''workflow:read'',
     ''workflow:write'', ''flow:read'', ''flow:write'', ''email:read'', ''email:write'', ''binary:read'', ''binary:write'', ''storage:read'',
     ''storage:write'', ''network:read'', ''network:write'', ''node:read'', ''node:write'', ''quota:read'', ''quota:write'', ''audit:read'']"

record access_token_spec =
  at_schema :: u8
  at_label :: string
  at_prefix :: string
  at_sha256 :: string
  at_scopes :: "string list"
  at_created :: u64
  at_expires :: "u64 option"
  at_revoked :: "u64 option"

datatype access_error =
    AccSchema | AccLabel | AccPrefix | AccDigest | AccScopes | AccUnknownScope | AccWildcard | AccCreated | AccExpires | AccRevokedAt
  | AccKind | AccJson | AccCollision | AccMissing | AccRevoked | AccRecord resource_error

definition token_validate :: "access_token_spec \<Rightarrow> access_error option" where
  "token_validate s =
     (if at_schema s \<noteq> TOKEN_SCHEMA then Some AccSchema
      else if trim (at_label s) = [] \<or> length (at_label s) > 120 \<or> CHR 0x0D \<in> set (at_label s) \<or> CHR 0x0A \<in> set (at_label s)
        then Some AccLabel
      else if length (at_prefix s) \<noteq> DISPLAY_PREFIX_LEN \<or> \<not> starts_with (at_prefix s) TOKEN_PREFIX
          \<or> \<not> list_all (\<lambda>b. is_ascii_alphanumeric b \<or> b = CHR ''_'' \<or> b = CHR ''-'') (at_prefix s) then Some AccPrefix
      else if length (at_sha256 s) \<noteq> 64 \<or> \<not> list_all is_ascii_hexdigit (at_sha256 s) then Some AccDigest
      else if at_scopes s = [] \<or> length (at_scopes s) > length ALL_SCOPES then Some AccScopes
      else if \<not> distinct (at_scopes s) \<or> \<not> set (at_scopes s) \<subseteq> set ALL_SCOPES then Some AccUnknownScope
      else if ''*'' \<in> set (at_scopes s) \<and> card (set (at_scopes s)) \<noteq> 1 then Some AccWildcard
      else if at_created s = 0 then Some AccCreated
      else if (case at_expires s of Some e \<Rightarrow> e \<le> at_created s | None \<Rightarrow> False) then Some AccExpires
      else if (case at_revoked s of Some r \<Rightarrow> r < at_created s | None \<Rightarrow> False) then Some AccRevokedAt
      else None)"

definition token_active :: "access_token_spec \<Rightarrow> u64 \<Rightarrow> bool" where
  "token_active s at_ms \<longleftrightarrow> at_revoked s = None \<and> (case at_expires s of None \<Rightarrow> True | Some e \<Rightarrow> at_ms < e)"

record access_token_view =
  tv_id :: string
  tv_version :: u64
  tv_spec :: access_token_spec
  tv_last_used :: "u64 option"
  tv_active :: bool

record access_principal =
  ap_id :: string
  ap_label :: string
  ap_scopes :: "string set"

definition allows :: "access_principal \<Rightarrow> string \<Rightarrow> bool" where
  "allows p required \<longleftrightarrow> ''*'' \<in> ap_scopes p \<or> required \<in> ap_scopes p"

record access_env =
  ae_res :: res_env
  ae_parse :: "string \<Rightarrow> access_token_spec option"
  ae_print :: "access_token_spec \<Rightarrow> string"
  ae_b64 :: "bytes \<Rightarrow> string"

abbreviation ae_sha :: "access_env \<Rightarrow> bytes \<Rightarrow> bytes" where
  "ae_sha A \<equiv> sha256 (ne_crypto (re_node (ae_res A)))"

definition token_spec :: "access_env \<Rightarrow> resource_record \<Rightarrow> access_error + access_token_spec" where
  "token_spec A r =
     (if rr_kind r \<noteq> TOKEN_KIND then Inl AccKind
      else case ae_parse A (rr_spec_json r) of
        None \<Rightarrow> Inl AccJson
      | Some s \<Rightarrow> (case token_validate s of Some e \<Rightarrow> Inl e | None \<Rightarrow> Inr s))"

section \<open>Issuing and revoking\<close>

definition mint_record ::
  "access_env \<Rightarrow> string \<Rightarrow> string list \<Rightarrow> u64 option \<Rightarrow> bytes \<Rightarrow> u64 \<Rightarrow> access_error + (resource_record \<times> string)" where
  "mint_record A label scopes expires rand now =
     (let raw = TOKEN_PREFIX @ ae_b64 A rand;
          digest = hex_encode (ae_sha A (as_bytes raw));
          name = ''pat-'' @ take 20 digest;
          spec = \<lparr>at_schema = TOKEN_SCHEMA, at_label = trim label, at_prefix = take DISPLAY_PREFIX_LEN raw, at_sha256 = digest,
                  at_scopes = sort scopes, at_created = now, at_expires = expires, at_revoked = None\<rparr>
      in case token_validate spec of
           Some e \<Rightarrow> Inl e
         | None \<Rightarrow> (case prepare_after (ae_res A) TOKEN_KIND name (ae_print A spec) False None of
             Inl e \<Rightarrow> Inl (AccRecord e)
           | Inr r \<Rightarrow> Inr (r, raw)))"

definition mint ::
  "access_env \<Rightarrow> node \<Rightarrow> string \<Rightarrow> string list \<Rightarrow> u64 option \<Rightarrow> bytes \<Rightarrow> u64 \<Rightarrow> access_error + (resource_record \<times> string)" where
  "mint A n label scopes expires rand now =
     (case mint_record A label scopes expires rand now of
        Inl e \<Rightarrow> Inl e
      | Inr (r, raw) \<Rightarrow> if resource_head (ae_res A) n now TOKEN_KIND (rr_name r) \<noteq> None then Inl AccCollision else Inr (r, raw))"

definition revoke_after :: "access_env \<Rightarrow> resource_view \<Rightarrow> u64 \<Rightarrow> access_error + resource_record" where
  "revoke_after A head now =
     (if rr_deleted (rv_resource head) then Inl AccMissing
      else case token_spec A (rv_resource head) of
        Inl e \<Rightarrow> Inl e
      | Inr spec \<Rightarrow>
          if at_revoked spec \<noteq> None then Inl AccRevoked
          else (case prepare_after (ae_res A) TOKEN_KIND (rr_name (rv_resource head)) (ae_print A (spec\<lparr>at_revoked := Some now\<rparr>)) False (Some head) of
            Inl e \<Rightarrow> Inl (AccRecord e)
          | Inr r \<Rightarrow> Inr r))"

definition revoke :: "access_env \<Rightarrow> node \<Rightarrow> string \<Rightarrow> u64 \<Rightarrow> access_error + resource_record" where
  "revoke A n ident now =
     (case resource_head (ae_res A) n now TOKEN_KIND ident of None \<Rightarrow> Inl AccMissing | Some h \<Rightarrow> revoke_after A h now)"

section \<open>Using a token\<close>

definition constant_time_eq :: "bytes \<Rightarrow> bytes \<Rightarrow> bool" where
  "constant_time_eq left right =
     (fold (\<lambda>i difference. difference OR
          ucast ((if i < length left then left ! i else 0) XOR (if i < length right then right ! i else 0)))
        [0..<max (length left) (length right)]
        (word_of_nat (length left) XOR word_of_nat (length right) :: u64) = 0)"

definition access_views :: "access_env \<Rightarrow> node \<Rightarrow> u64 \<Rightarrow> access_token_view list" where
  "access_views A n now =
     List.map_filter (\<lambda>v. case token_spec A (rv_resource v) of
          Inl _ \<Rightarrow> None
        | Inr spec \<Rightarrow> Some \<lparr>tv_id = rr_name (rv_resource v), tv_version = rr_version (rv_resource v), tv_spec = spec,
            tv_last_used = credential_last_used (nd_store n) (rr_name (rv_resource v)), tv_active = token_active spec now\<rparr>)
       (filter (\<lambda>v. \<not> rr_deleted (rv_resource v)) (resource_heads (ae_res A) n now (Some TOKEN_KIND)))"

text \<open>The token of one head, if it is the one with the given prefix and digest.\<close>

definition token_matches :: "access_env \<Rightarrow> string \<Rightarrow> bytes \<Rightarrow> u64 \<Rightarrow> resource_view \<Rightarrow> access_token_spec option" where
  "token_matches A pfx digest now v =
     (if rr_deleted (rv_resource v) then None
      else case token_spec A (rv_resource v) of
        Inl _ \<Rightarrow> None
      | Inr spec \<Rightarrow>
          if at_prefix spec \<noteq> pfx \<or> \<not> token_active spec now then None
          else (case hex_decode (at_sha256 spec) of
            None \<Rightarrow> None
          | Some expected \<Rightarrow> if constant_time_eq digest expected then Some spec else None))"

fun resolve_in :: "access_env \<Rightarrow> string \<Rightarrow> bytes \<Rightarrow> u64 \<Rightarrow> resource_view list \<Rightarrow> access_principal option" where
  "resolve_in A pfx digest now [] = None"
| "resolve_in A pfx digest now (v # vs) =
     (case token_matches A pfx digest now v of
        Some spec \<Rightarrow> Some \<lparr>ap_id = rr_name (rv_resource v), ap_label = at_label spec, ap_scopes = set (at_scopes spec)\<rparr>
      | None \<Rightarrow> resolve_in A pfx digest now vs)"

definition resolve :: "access_env \<Rightarrow> node \<Rightarrow> string \<Rightarrow> u64 \<Rightarrow> node \<times> access_principal option" where
  "resolve A n raw now =
     (if \<not> starts_with raw TOKEN_PREFIX \<or> length raw \<noteq> length TOKEN_PREFIX + 43 then (n, None)
      else if 128 \<le> code (raw ! DISPLAY_PREFIX_LEN) \<and> code (raw ! DISPLAY_PREFIX_LEN) < 192 then (n, None)
      else case resolve_in A (take DISPLAY_PREFIX_LEN raw) (ae_sha A (as_bytes raw)) now (resource_heads (ae_res A) n now (Some TOKEN_KIND)) of
        None \<Rightarrow> (n, None)
      | Some p \<Rightarrow> (n\<lparr>nd_store := touch_credential (nd_store n) (ap_id p) now\<rparr>, Some p))"

definition bearer :: "string option \<Rightarrow> string option" where
  "bearer header =
     (case header of
        None \<Rightarrow> None
      | Some value \<Rightarrow> (case split_once CHR '' '' (trim value) of
          None \<Rightarrow> None
        | Some (scheme, raw) \<Rightarrow> if eq_ignore_ascii_case scheme ''bearer'' then Some (trim raw) else None))"

definition scope_for_resource :: "string \<Rightarrow> bool \<Rightarrow> string option" where
  "scope_for_resource kind write =
     map_option (\<lambda>area. area @ '':'' @ (if write then ''write'' else ''read''))
       (map_of [(''r2_bucket'', ''r2''), (''queue'', ''queue''), (''analytics_dataset'', ''analytics''), (''pipeline'', ''pipeline''),
          (''workflow'', ''workflow''), (''flow'', ''flow''), (''email_domain'', ''email''), (''binary'', ''binary''),
          (''storage_policy'', ''storage''), (''exit_rule'', ''network''), (''client_device'', ''network''), (''node_policy'', ''node''),
          (''cluster_policy'', ''quota''), (''worker_preview'', ''worker'')] kind)"

section \<open>The comparison\<close>

lemma or_fold_zero:
  "fold (\<lambda>i d. d OR g i) xs d0 = 0 \<longleftrightarrow> d0 = 0 \<and> (\<forall>i \<in> set xs. g i = 0)" for g :: "nat \<Rightarrow> u64"
  by (induction xs arbitrary: d0) (auto simp: or_eq_0_iff)

lemma constant_time_eq_iff:
  assumes "length a < 2 ^ 64" and "length b < 2 ^ 64"
  shows "constant_time_eq a b \<longleftrightarrow> a = b"
proof -
  have x: "v XOR w = 0 \<longleftrightarrow> v = w" for v w :: "'a::len word" by (metis xor.left_neutral xor.assoc xor_self_eq)
  have u: "(ucast v :: u64) = 0 \<longleftrightarrow> v = 0" for v :: u8
  proof
    assume z: "(ucast v :: u64) = 0"
    show "v = 0"
    proof (rule bit_word_eqI)
      fix i assume "i < LENGTH(8)"
      then have "bit (ucast v :: u64) i = bit v i" by (simp add: bit_ucast_iff)
      with z show "bit v i = bit (0 :: u8) i" by simp
    qed
  qed simp
  have n: "(word_of_nat (length a) :: u64) = word_of_nat (length b) \<longleftrightarrow> length a = length b"
  proof -
    have "take_bit 64 (length a) = length a" "take_bit 64 (length b) = length b"
      using assms by (simp_all only: take_bit_nat_eq_self)
    then show ?thesis by (simp add: word_of_nat_eq_iff)
  qed
  have "constant_time_eq a b \<longleftrightarrow> length a = length b \<and>
      (\<forall>i < max (length a) (length b). (if i < length a then a ! i else 0) = (if i < length b then b ! i else 0))"
    unfolding constant_time_eq_def or_fold_zero x n u by auto
  also have "\<dots> \<longleftrightarrow> a = b" by (auto intro: nth_equalityI)
  finally show ?thesis .
qed

section \<open>Heads of resources\<close>

lemma signed_row_unique:
  assumes "no_collision R n now" and "(r, d) \<in> signed_rows R n now" and "(r', d) \<in> signed_rows R n now"
  shows "r = r'"
proof -
  let ?E = "{env. \<exists>key e bytes. (key, e) \<in> set (node_kv_dump n RESOURCE_NAMESPACE) \<and> visible e now = Some bytes \<and> re_from_bytes R bytes = Some env}"
  have row: "\<exists>env \<in> ?E. d = hex_encode (envelope_digest (ne_crypto (re_node R)) env) \<and> re_dec R (payload env) = Some s"
    if "(s, d) \<in> signed_rows R n now" for s using that unfolding signed_rows_def by blast
  from row [OF assms(2)] obtain env where e: "env \<in> ?E" "d = hex_encode (envelope_digest (ne_crypto (re_node R)) env)"
    "re_dec R (payload env) = Some r" by blast
  from row [OF assms(3)] obtain env' where e': "env' \<in> ?E" "d = hex_encode (envelope_digest (ne_crypto (re_node R)) env')"
    "re_dec R (payload env') = Some r'" by blast
  from e(2) e'(2) have "envelope_digest (ne_crypto (re_node R)) env = envelope_digest (ne_crypto (re_node R)) env'"
    by (metis hex_encode_inj)
  from inj_onD [OF assms(1) [unfolded no_collision_def] this e(1) e'(1)] e(3) e'(3) show ?thesis by simp
qed

text \<open>The fold of \<open>heads\<close> keeps the greatest view of every resource.\<close>

abbreviation view_id :: "resource_view \<Rightarrow> string \<times> string" where
  "view_id v \<equiv> ident_of (rv_resource v)"

definition top_at :: "resource_view option \<Rightarrow> resource_view set \<Rightarrow> string \<times> string \<Rightarrow> bool" where
  "top_at x V i \<longleftrightarrow> (case x of
     None \<Rightarrow> \<forall>w \<in> V. view_id w \<noteq> i
   | Some v \<Rightarrow> v \<in> V \<and> view_id v = i \<and> (\<forall>w \<in> V. view_id w = i \<longrightarrow> view_rank w \<le> view_rank v))"

definition greatest :: "(string \<times> string, resource_view) btree_map \<Rightarrow> resource_view set \<Rightarrow> bool" where
  "greatest m V \<longleftrightarrow> bt_ok m \<and> (\<forall>i. top_at (map_of m i) V i)"

definition keep_view :: "resource_view \<Rightarrow> (string \<times> string, resource_view) btree_map \<Rightarrow> (string \<times> string, resource_view) btree_map" where
  "keep_view v m = (if (case map_of m (view_id v) of None \<Rightarrow> True | Some cur \<Rightarrow> view_rank cur < view_rank v) then bt_insert (view_id v) v m else m)"

lemma resource_heads_fold: "resource_heads R n now kind = map snd (fold keep_view (records R n now kind None) [])"
proof -
  have "(\<lambda>v latest. let ident = (rr_kind (rv_resource v), rr_name (rv_resource v))
      in if (case map_of latest ident of None \<Rightarrow> True | Some cur \<Rightarrow> view_rank cur < view_rank v) then bt_insert ident v latest else latest) = keep_view"
    by (simp add: fun_eq_iff keep_view_def Let_def ident_of_def)
  then show ?thesis unfolding resource_heads_def by (simp only:)
qed

lemma greatest_add:
  assumes "greatest m V"
  shows "greatest (keep_view v m) (insert v V)" (is "greatest ?m _")
  unfolding keep_view_def
proof -
  let ?m = "if (case map_of m (view_id v) of None \<Rightarrow> True | Some cur \<Rightarrow> view_rank cur < view_rank v) then bt_insert (view_id v) v m else m"
  have ok: "bt_ok m" and top: "top_at (map_of m i) V i" for i using assms unfolding greatest_def by blast+
  have "top_at (map_of ?m i) (insert v V) i" for i
  proof (cases "i = view_id v")
    case True
    show ?thesis
    proof (cases "map_of m i")
      case None
      with True top [of i] show ?thesis using ok by (auto simp: top_at_def map_of_bt_insert)
    next
      case (Some x)
      with True top [of i] show ?thesis using ok
        by (cases "view_rank x < view_rank v") (auto simp: top_at_def map_of_bt_insert intro: order_trans less_imp_le)
    qed
  next
    case False
    then have "map_of ?m i = map_of m i" using ok by (simp add: map_of_bt_insert)
    with False top [of i] show ?thesis by (auto simp: top_at_def split: option.splits)
  qed
  with ok show "greatest ?m (insert v V)" unfolding greatest_def by (simp add: bt_ok_insert)
qed

lemma greatest_fold: "greatest m V \<Longrightarrow> greatest (fold keep_view vs m) (V \<union> set vs)"
proof (induction vs arbitrary: m V)
  case (Cons v vs)
  from Cons.IH [OF greatest_add [OF Cons.prems, of v]] show ?case by simp
qed simp

lemma slash_prefix:
  assumes "starts_with s (a @ ''/'')" and "starts_with s (b @ ''/'' @ c)" and "CHR ''/'' \<notin> set a" and "CHR ''/'' \<notin> set b"
  shows "a = b"
proof -
  have cut: "takeWhile (\<lambda>c. c \<noteq> CHR ''/'') (x @ CHR ''/'' # y) = x" if "CHR ''/'' \<notin> set x" for x y
    using that by (induction x) auto
  from assms(1) obtain x where "s = a @ CHR ''/'' # x" by (auto simp: starts_with_def prefix_def)
  moreover from assms(2) obtain y where "s = b @ CHR ''/'' # y" by (auto simp: starts_with_def prefix_def)
  ultimately show ?thesis using cut [OF assms(3), of x] cut [OF assms(4), of y] by simp
qed

lemma kind_no_slash: "valid_kind k \<Longrightarrow> CHR ''/'' \<notin> set k"
  by (auto simp: valid_kind_def list_all_iff is_ascii_lowercase_def is_ascii_digit_def)

text \<open>The rows below one kind are the signed rows of that kind.\<close>

lemma scanned_kind:
  assumes "valid_kind k"
  shows "scanned R n now (record_prefix (Some k) None) = {x \<in> signed_rows R n now. rr_kind (fst x) = k}" (is "?A = ?B")
proof -
  have "(r, d) \<in> ?A \<longleftrightarrow> (r, d) \<in> ?B" for r d
  proof -
    have "starts_with (fst x) (k @ ''/'') \<longleftrightarrow> rr_kind r = k" if c: "candidate R (cfg_operator (nd_cfg n)) now x = Some (r, d)" for x
    proof -
      have p: "starts_with (fst x) (rr_kind r @ ''/'' @ rr_name r @ ''/'')" and v: "valid_kind (rr_kind r)"
        using candidate_prefix [OF c] candidate_valid [OF c]
        by (auto simp: record_prefix_def resource_validate_def split: if_splits)
      show ?thesis
      proof
        assume "starts_with (fst x) (k @ ''/'')"
        from slash_prefix [OF this p kind_no_slash [OF assms] kind_no_slash [OF v]] show "rr_kind r = k" by simp
      qed (use p in \<open>auto simp: starts_with_def prefix_def\<close>)
    qed
    then show ?thesis by (auto simp: scanned_def signed_row_iff record_prefix_def)
  qed
  then show ?thesis by auto
qed

text \<open>A greatest view of a resource is its head, so \<open>heads\<close> lists exactly the heads.\<close>

lemma greatest_is_head:
  assumes nc: "no_collision R n now" and lv: "linked_to (signed_rows R n now) (rv_resource v) (rv_digest v)"
    and max: "\<And>w. linked_to (signed_rows R n now) (rv_resource w) (rv_digest w) \<Longrightarrow> view_id w = view_id v \<Longrightarrow> view_rank w \<le> view_rank v"
  shows "resource_head R n now (rr_kind (rv_resource v)) (rr_name (rv_resource v)) = Some v"
proof -
  let ?k = "rr_kind (rv_resource v)" and ?m = "rr_name (rv_resource v)"
  from head_spec [OF nc, of ?k ?m] lv obtain h where h: "resource_head R n now ?k ?m = Some h"
    "linked_to (signed_rows R n now) (rv_resource h) (rv_digest h)" "view_id h = view_id v" "view_rank v \<le> view_rank h"
    by (cases "resource_head R n now ?k ?m") (auto simp: view_rank_def ident_of_def)
  from max [OF h(2,3)] h(4) have "view_rank h = view_rank v" by (rule order_antisym)
  then have "rv_digest h = rv_digest v" by (simp add: view_rank_def)
  with signed_row_unique [OF nc, of "rv_resource h" "rv_digest v" "rv_resource v"] linked_in [OF h(2)] linked_in [OF lv]
  have "h = v" by (cases h; cases v) simp
  with h(1) show ?thesis by simp
qed

lemma heads_iff:
  assumes nc: "no_collision R n now" and k: "valid_kind k"
  shows "v \<in> set (resource_heads R n now (Some k)) \<longleftrightarrow>
    rr_kind (rv_resource v) = k \<and> resource_head R n now k (rr_name (rv_resource v)) = Some v"
proof -
  let ?S = "signed_rows R n now" and ?T = "{x \<in> signed_rows R n now. rr_kind (fst x) = k}" and ?V = "set (records R n now (Some k) None)"
  let ?m = "fold keep_view (records R n now (Some k) None) []"
  have "digests_agree ?T" by (rule digests_agree_subset [OF agree_signed [OF nc]]) blast
  then have "?V = {as_view (r, d) | r d. linked_to ?T r d}"
    using records_set [of R n now "Some k" None] unfolding scanned_kind [OF k] by blast
  then have V': "w \<in> ?V \<longleftrightarrow> linked_to ?T (rv_resource w) (rv_digest w)" for w by (cases w) auto
  have V: "w \<in> ?V \<longleftrightarrow> rr_kind (rv_resource w) = k \<and> linked_to ?S (rv_resource w) (rv_digest w)" for w
  proof
    assume "w \<in> ?V"
    then have l: "linked_to ?T (rv_resource w) (rv_digest w)" by (simp add: V')
    have "linked_to ?S (rv_resource w) (rv_digest w)" by (rule linked_mono [OF l]) blast
    with linked_in [OF l] show "rr_kind (rv_resource w) = k \<and> linked_to ?S (rv_resource w) (rv_digest w)" by simp
  next
    assume w: "rr_kind (rv_resource w) = k \<and> linked_to ?S (rv_resource w) (rv_digest w)"
    have "linked_to ?T (rv_resource w) (rv_digest w)"
      by (rule linked_mono [OF linked_ident [OF conjunct2 [OF w]]]) (use w in \<open>auto simp: ident_of_def\<close>)
    then show "w \<in> ?V" by (simp add: V')
  qed
  have "greatest ?m ({} \<union> ?V)" by (rule greatest_fold) (simp add: greatest_def top_at_def)
  then have ok: "bt_ok ?m" and top: "top_at (map_of ?m i) ?V i" for i unfolding greatest_def Un_empty_left by blast+
  have head: "resource_head R n now k (rr_name (rv_resource u)) = Some u" if u: "map_of ?m i = Some u" for u i
  proof -
    from top [of i] have t: "u \<in> ?V" "view_id u = i" "\<forall>w \<in> ?V. view_id w = i \<longrightarrow> view_rank w \<le> view_rank u"
      unfolding u top_at_def by simp_all
    from t(1) have l: "rr_kind (rv_resource u) = k" "linked_to ?S (rv_resource u) (rv_digest u)" by (simp_all add: V)
    have "view_rank w \<le> view_rank u" if "linked_to ?S (rv_resource w) (rv_digest w)" "view_id w = view_id u" for w
    proof -
      from that l(1) have "w \<in> ?V" unfolding V by (simp add: ident_of_def)
      with t(2,3) that(2) show ?thesis by blast
    qed
    from greatest_is_head [OF nc l(2) this] l(1) show ?thesis by simp
  qed
  have member: "v \<in> set (resource_heads R n now (Some k)) \<longleftrightarrow> (\<exists>i. map_of ?m i = Some v)"
  proof -
    have "v \<in> snd ` set ?m \<longleftrightarrow> (\<exists>i. (i, v) \<in> set ?m)" by force
    then show ?thesis unfolding resource_heads_fold using bt_ok_distinct [OF ok] by simp
  qed
  show ?thesis
  proof
    assume "v \<in> set (resource_heads R n now (Some k))"
    then obtain i where i: "map_of ?m i = Some v" unfolding member by blast
    with top [of i] have "v \<in> ?V" unfolding top_at_def by simp
    with head [OF i] show "rr_kind (rv_resource v) = k \<and> resource_head R n now k (rr_name (rv_resource v)) = Some v" by (simp add: V)
  next
    assume v: "rr_kind (rv_resource v) = k \<and> resource_head R n now k (rr_name (rv_resource v)) = Some v"
    with head_spec [OF nc, of k "rr_name (rv_resource v)"] have vV: "v \<in> ?V" unfolding V by simp
    obtain u where u: "map_of ?m (view_id v) = Some u"
    proof (cases "map_of ?m (view_id v)")
      case None
      with top [of "view_id v"] have "\<forall>w \<in> ?V. view_id w \<noteq> view_id v" unfolding top_at_def by (simp only: option.case)
      with vV show thesis by blast
    next
      case (Some u)
      then show thesis by (rule that)
    qed
    from top [of "view_id v"] have "view_id u = view_id v" unfolding u top_at_def by (simp only: option.case)
    then have "rr_name (rv_resource u) = rr_name (rv_resource v)" by (simp add: ident_of_def)
    from head [OF u, unfolded this] conjunct2 [OF v] have "u = v" by (metis option.inject)
    with u show "v \<in> set (resource_heads R n now (Some k))" unfolding member by blast
  qed
qed

section \<open>What a token grants\<close>

text \<open>The specification of a head admits a raw token now.\<close>

definition admits :: "access_env \<Rightarrow> string \<Rightarrow> u64 \<Rightarrow> resource_view \<Rightarrow> access_token_spec \<Rightarrow> bool" where
  "admits A raw now v spec \<longleftrightarrow>
     \<not> rr_deleted (rv_resource v) \<and> token_spec A (rv_resource v) = Inr spec \<and> at_prefix spec = take 12 raw \<and> at_revoked spec = None
     \<and> (\<forall>e. at_expires spec = Some e \<longrightarrow> now < e) \<and> hex_decode (at_sha256 spec) = Some (ae_sha A (as_bytes raw))"

lemma hex_decode_length: "hex_decode s = Some bs \<Longrightarrow> length s = 2 * length bs"
  by (induction s arbitrary: bs rule: hex_decode.induct) (auto split: option.splits)

lemma token_spec_valid: "token_spec A r = Inr spec \<Longrightarrow> rr_kind r = TOKEN_KIND \<and> token_validate spec = None"
  by (auto simp: token_spec_def split: if_splits option.splits)

lemma token_digest_length: "token_validate spec = None \<Longrightarrow> length (at_sha256 spec) = 64"
  by (auto simp: token_validate_def split: if_splits)

lemma token_matches_iff:
  assumes "length (ae_sha A (as_bytes raw)) = 32"
  shows "token_matches A (take DISPLAY_PREFIX_LEN raw) (ae_sha A (as_bytes raw)) now v = Some spec \<longleftrightarrow> admits A raw now v spec"
proof -
  have eq: "constant_time_eq (ae_sha A (as_bytes raw)) bs \<longleftrightarrow> ae_sha A (as_bytes raw) = bs"
    if "token_spec A (rv_resource v) = Inr s" "hex_decode (at_sha256 s) = Some bs" for s bs
  proof (rule constant_time_eq_iff)
    have "length bs = 32"
      using hex_decode_length [OF that(2)] token_digest_length token_spec_valid [OF that(1)] by simp
    then show "length bs < 2 ^ 64" by simp
  qed (simp add: assms)
  show ?thesis
    unfolding token_matches_def admits_def token_active_def DISPLAY_PREFIX_LEN_def
    using eq by (auto split: sum.splits option.splits if_splits)
qed

lemma resolve_in_Some:
  "resolve_in A pfx digest now vs = Some p \<Longrightarrow>
     \<exists>v \<in> set vs. \<exists>spec. token_matches A pfx digest now v = Some spec
       \<and> p = \<lparr>ap_id = rr_name (rv_resource v), ap_label = at_label spec, ap_scopes = set (at_scopes spec)\<rparr>"
  by (induction vs) (auto split: option.splits)

lemma resolve_in_None: "resolve_in A pfx digest now vs = None \<longleftrightarrow> (\<forall>v \<in> set vs. token_matches A pfx digest now v = None)"
  by (induction vs) (auto split: option.splits)

text \<open>
  C16: Tokens are honoured exactly as the operator last signed them.  A raw token of the right shape is
  accepted if and only if some token resource has a head, signed by the operator and at the
  end of its chain, that is not deleted, revoked or expired and holds the digest and
  prefix of the token; the principal has the name of such a resource and its scopes, so a
  token whose head is revoked is refused on every node that has the revocation.
\<close>

theorem token_honoured_iff:
  assumes nc: "no_collision (ae_res A) n now" and sha: "length (ae_sha A (as_bytes raw)) = 32"
    and shape: "starts_with raw TOKEN_PREFIX" "length raw = 47" "code (raw ! 12) < 128"
  shows "(snd (resolve A n raw now) \<noteq> None \<longleftrightarrow>
      (\<exists>m v spec. resource_head (ae_res A) n now TOKEN_KIND m = Some v \<and> admits A raw now v spec))
    \<and> (\<forall>p. snd (resolve A n raw now) = Some p \<longrightarrow> (\<exists>v spec. resource_head (ae_res A) n now TOKEN_KIND (ap_id p) = Some v
         \<and> linked_to (signed_rows (ae_res A) n now) (rv_resource v) (rv_digest v) \<and> admits A raw now v spec \<and> ap_scopes p = set (at_scopes spec)))"
proof -
  let ?R = "ae_res A" and ?hs = "resource_heads (ae_res A) n now (Some TOKEN_KIND)"
  let ?match = "token_matches A (take DISPLAY_PREFIX_LEN raw) (ae_sha A (as_bytes raw)) now"
  let ?found = "resolve_in A (take DISPLAY_PREFIX_LEN raw) (ae_sha A (as_bytes raw)) now ?hs"
  have "valid_kind TOKEN_KIND"
    by (simp add: valid_kind_def TOKEN_KIND_def MAX_KIND_BYTES_def is_ascii_lowercase_def is_ascii_digit_def)
  note heads = heads_iff [OF nc this] and match = token_matches_iff [OF sha, of now]
  have res: "snd (resolve A n raw now) = ?found"
    using shape by (simp add: resolve_def TOKEN_PREFIX_def DISPLAY_PREFIX_LEN_def split: option.splits)
  have name: "rr_kind (rv_resource v) = TOKEN_KIND \<and> rr_name (rv_resource v) = m"
    if "resource_head ?R n now TOKEN_KIND m = Some v" for m v
    using head_spec [OF nc, of TOKEN_KIND m] that by (simp add: ident_of_def)
  have "?found \<noteq> None \<longleftrightarrow> (\<exists>v \<in> set ?hs. \<exists>spec. ?match v = Some spec)" by (auto simp: resolve_in_None)
  also have "\<dots> \<longleftrightarrow> (\<exists>m v spec. resource_head ?R n now TOKEN_KIND m = Some v \<and> admits A raw now v spec)"
    unfolding match using name heads by metis
  finally have iff: "snd (resolve A n raw now) \<noteq> None \<longleftrightarrow>
      (\<exists>m v spec. resource_head ?R n now TOKEN_KIND m = Some v \<and> admits A raw now v spec)" unfolding res .
  have "\<exists>v spec. resource_head ?R n now TOKEN_KIND (ap_id p) = Some v \<and> linked_to (signed_rows ?R n now) (rv_resource v) (rv_digest v)
      \<and> admits A raw now v spec \<and> ap_scopes p = set (at_scopes spec)" if p: "snd (resolve A n raw now) = Some p" for p
  proof -
    from resolve_in_Some [OF p [unfolded res]] obtain v spec where v: "v \<in> set ?hs" "?match v = Some spec"
      and p: "p = \<lparr>ap_id = rr_name (rv_resource v), ap_label = at_label spec, ap_scopes = set (at_scopes spec)\<rparr>" by blast
    from v(1) have h: "resource_head ?R n now TOKEN_KIND (ap_id p) = Some v" unfolding heads p by simp
    with head_spec [OF nc, of TOKEN_KIND "ap_id p"] have "linked_to (signed_rows ?R n now) (rv_resource v) (rv_digest v)" by simp
    with h v(2) show ?thesis unfolding match by (auto simp: p)
  qed
  with iff show ?thesis by blast
qed

section \<open>A token\<close>

definition demo_raw :: string where
  "demo_raw = ''rfp_'' @ replicate 43 CHR ''a''"

definition demo_token_spec :: access_token_spec where
  "demo_token_spec = \<lparr>at_schema = 1, at_label = ''ci'', at_prefix = ''rfp_aaaaaaaa'', at_sha256 = replicate 64 CHR ''0'',
     at_scopes = [''kv:read''], at_created = 5, at_expires = None, at_revoked = None\<rparr>"

definition demo_token_res :: res_env where
  "demo_token_res = \<lparr>re_node = demo_node_env\<lparr>ne_crypto := demo_crypto\<lparr>sha256 := (\<lambda>_. replicate 32 0)\<rparr>\<rparr>,
     re_dec = (\<lambda>_. Some \<lparr>rr_schema = 1, rr_kind = TOKEN_KIND, rr_name = ''pat'', rr_version = 1, rr_prev = None, rr_deleted = False, rr_spec_json = ''{}''\<rparr>),
     re_from_bytes = (\<lambda>_. Some (demo_res_env 1)), re_to_bytes = payload, re_shape = (\<lambda>_. Some JEmptyObject)\<rparr>"

definition demo_access :: access_env where
  "demo_access = \<lparr>ae_res = demo_token_res, ae_parse = (\<lambda>_. Some demo_token_spec), ae_print = (\<lambda>_. ''{}''), ae_b64 = (\<lambda>_. replicate 43 CHR ''a'')\<rparr>"

definition demo_token_node :: node where
  "demo_token_node = fst (resource_ingest demo_token_res demo_node 10 (demo_res_env 1))"

lemma demo_token_resolves: "map_option ap_id (snd (resolve demo_access demo_token_node demo_raw 20)) = Some ''pat''"
  by code_simp

theorem token_honoured_iff_witness:
  "\<exists>p v spec. snd (resolve demo_access demo_token_node demo_raw 20) = Some p
     \<and> resource_head demo_token_res demo_token_node 20 TOKEN_KIND ''pat'' = Some v \<and> admits demo_access demo_raw 20 v spec"
proof -
  obtain p where p: "snd (resolve demo_access demo_token_node demo_raw 20) = Some p" "ap_id p = ''pat''"
    using demo_token_resolves by (auto simp: map_option_eq_Some)
  have R: "ae_res demo_access = demo_token_res" by (simp add: demo_access_def)
  have nc: "no_collision (ae_res demo_access) demo_token_node 20"
    by (auto simp: no_collision_def inj_on_def R demo_token_res_def)
  have sha: "length (ae_sha demo_access (as_bytes demo_raw)) = 32" by (simp add: R demo_token_res_def)
  have shape: "starts_with demo_raw TOKEN_PREFIX" "length demo_raw = 47" "code (demo_raw ! 12) < 128"
    by (simp_all add: demo_raw_def TOKEN_PREFIX_def starts_with_def nth_append)
  from conjunct2 [OF token_honoured_iff [OF nc sha shape]] p show ?thesis unfolding R by metis
qed

end
