(* ===== verification/Queue.thy ===== *)
theory Queue
  imports Resource
begin

text \<open>
  Message queues, \<^verbatim>\<open>crates/rf/src/queue.rs\<close>.  A queue is three SQL tables on a
  replicated database; each SQL statement of the source is a constructor of \<open>sql\<close>
  whose effect on the tables is \<open>run_sql\<close>.  A handler is a program: it reads the
  clock, draws random identifiers, executes one statement at a time and hands a
  batch to a consumer, so that handlers of several nodes can interleave and stop
  between any two statements.  A JSON value is its compact text; what the code
  asks about it are fields of \<open>queue_env\<close>.
\<close>

section \<open>Definitions of queues\<close>

definition QUEUE_KIND :: string where "QUEUE_KIND = ''queue''"
definition MAX_MESSAGE_BYTES :: nat where "MAX_MESSAGE_BYTES = 128 * 1024"
definition MAX_BATCH_MESSAGES :: nat where "MAX_BATCH_MESSAGES = 100"
definition MAX_DELAY_SECONDS :: int where "MAX_DELAY_SECONDS = 12 * 60 * 60"

text \<open>\<open>saturating_add\<close>, \<open>saturating_mul\<close> and \<open>saturating_sub\<close> on \<open>u64\<close> values kept as integers.\<close>

definition U64_MAX :: int where "U64_MAX = 18446744073709551615"

definition sadd :: "int \<Rightarrow> int \<Rightarrow> int" where "sadd a b = min U64_MAX (a + b)"
definition smul :: "int \<Rightarrow> int \<Rightarrow> int" where "smul a b = min U64_MAX (a * b)"
definition ssub :: "int \<Rightarrow> int \<Rightarrow> int" where "ssub a b = max 0 (a - b)"

record queue_spec =
  qs_description :: string
  qs_consumer :: "string option"
  qs_batch_size :: nat
  qs_max_wait_ms :: int
  qs_max_retries :: int
  qs_visibility_ms :: int
  qs_retention_s :: int
  qs_dead_letter :: "string option"
  qs_suspended :: bool

datatype queue_error =
    QDescription | QConsumer | QBatch | QWait | QRetries | QVisibility | QRetention | QDeadLetter | QSelfDeadLetter
  | QKind | QJson | QRecord resource_error
  | QMissing | QCount | QDelay | QMessage | QTooLarge | QSuspended | QLeaseMoved | QSql

definition default_queue_spec :: queue_spec where
  "default_queue_spec = \<lparr>qs_description = [], qs_consumer = None, qs_batch_size = 10, qs_max_wait_ms = 5000,
     qs_max_retries = 3, qs_visibility_ms = 120000, qs_retention_s = 7 * 24 * 60 * 60, qs_dead_letter = None,
     qs_suspended = False\<rparr>"

definition queue_validate :: "queue_spec \<Rightarrow> string option \<Rightarrow> queue_error option" where
  "queue_validate s queue_name =
     (if length (qs_description s) > 2000 then Some QDescription
      else if (case qs_consumer s of Some w \<Rightarrow> \<not> valid_name w | None \<Rightarrow> False) then Some QConsumer
      else if \<not> (1 \<le> qs_batch_size s \<and> qs_batch_size s \<le> MAX_BATCH_MESSAGES) then Some QBatch
      else if \<not> (100 \<le> qs_max_wait_ms s \<and> qs_max_wait_ms s \<le> 60000) then Some QWait
      else if qs_max_retries s > 100 then Some QRetries
      else if \<not> (1000 \<le> qs_visibility_ms s \<and> qs_visibility_ms s \<le> 12 * 60 * 60 * 1000) then Some QVisibility
      else if \<not> (60 \<le> qs_retention_s s \<and> qs_retention_s s \<le> 14 * 24 * 60 * 60) then Some QRetention
      else case qs_dead_letter s of
        None \<Rightarrow> None
      | Some d \<Rightarrow> if \<not> valid_name d then Some QDeadLetter else if queue_name = Some d then Some QSelfDeadLetter else None)"

record queue_env =
  qe_res :: res_env
  qe_node :: node
  qe_now :: u64
  qe_parse :: "string \<Rightarrow> queue_spec option"
  qe_print :: "queue_spec \<Rightarrow> string"
  qe_str :: "string \<Rightarrow> string option"
  qe_b64 :: "string \<Rightarrow> bytes option"

definition queue_spec_of :: "queue_env \<Rightarrow> resource_record \<Rightarrow> queue_error + queue_spec" where
  "queue_spec_of E r =
     (if rr_kind r \<noteq> QUEUE_KIND then Inl QKind
      else case qe_parse E (rr_spec_json r) of
        None \<Rightarrow> Inl QJson
      | Some s \<Rightarrow> (case queue_validate s (Some (rr_name r)) of Some e \<Rightarrow> Inl e | None \<Rightarrow> Inr s))"

definition queue_record :: "queue_env \<Rightarrow> string \<Rightarrow> (resource_view \<times> queue_spec) option" where
  "queue_record E q =
     (case resource_head (qe_res E) (qe_node E) (qe_now E) QUEUE_KIND q of
        None \<Rightarrow> None
      | Some v \<Rightarrow>
          if rr_deleted (rv_resource v) then None
          else (case queue_spec_of E (rv_resource v) of Inl _ \<Rightarrow> None | Inr s \<Rightarrow> Some (v, s)))"

definition queue_records :: "queue_env \<Rightarrow> (resource_view \<times> queue_spec) list" where
  "queue_records E =
     List.map_filter (\<lambda>v. case queue_spec_of E (rv_resource v) of Inl _ \<Rightarrow> None | Inr s \<Rightarrow> Some (v, s))
       (filter (\<lambda>v. \<not> rr_deleted (rv_resource v)) (resource_heads (qe_res E) (qe_node E) (qe_now E) (Some QUEUE_KIND)))"

definition prepare_queue_after ::
  "queue_env \<Rightarrow> string \<Rightarrow> queue_spec \<Rightarrow> bool \<Rightarrow> resource_view option \<Rightarrow> queue_error + resource_record" where
  "prepare_queue_after E q s deleted head =
     (case queue_validate s (Some q) of
        Some e \<Rightarrow> Inl e
      | None \<Rightarrow> (case prepare_after (qe_res E) QUEUE_KIND q (qe_print E s) deleted head of Inl e \<Rightarrow> Inl (QRecord e) | Inr r \<Rightarrow> Inr r))"

definition prepare_queue :: "queue_env \<Rightarrow> string \<Rightarrow> queue_spec \<Rightarrow> bool \<Rightarrow> queue_error + resource_record" where
  "prepare_queue E q s deleted =
     (case queue_validate s (Some q) of
        Some e \<Rightarrow> Inl e
      | None \<Rightarrow> (case Resource.prepare (qe_res E) (qe_node E) (qe_now E) QUEUE_KIND q (qe_print E s) deleted of
          Inl e \<Rightarrow> Inl (QRecord e) | Inr r \<Rightarrow> Inr r))"

definition queue_database :: "crypto \<Rightarrow> string \<Rightarrow> string" where
  "queue_database cr q = ''queue-'' @ take 32 (hex_encode (sha256 cr (as_bytes (''queue/'' @ q))))"

section \<open>Tables and statements\<close>

record message_row =
  m_body :: string
  m_type :: string
  m_base64 :: "string option"
  m_produced :: int
  m_available :: int
  m_attempts :: int
  m_lease :: "string option"
  m_until :: "int option"
  m_error :: "string option"

record dead_row =
  d_body :: string
  d_type :: string
  d_base64 :: "string option"
  d_produced :: int
  d_at :: int
  d_attempts :: int
  d_error :: "string option"

record queue_db =
  q_messages :: "(string, message_row) btree_map"
  q_dead :: "(string, dead_row) btree_map"
  q_produced :: int
  q_consumed :: int

definition queue_empty :: queue_db where
  "queue_empty = \<lparr>q_messages = [], q_dead = [], q_produced = 0, q_consumed = 0\<rparr>"

record queue_message =
  qm_id :: string
  qm_body :: string
  qm_type :: string
  qm_base64 :: "string option"
  qm_produced :: int
  qm_attempts :: int

record pending_message =
  p_id :: string
  p_body :: string
  p_type :: string
  p_base64 :: "string option"
  p_produced :: int
  p_available :: int

definition row_to_message :: "string \<times> message_row \<Rightarrow> queue_message" where
  "row_to_message = (\<lambda>(i, r). \<lparr>qm_id = i, qm_body = m_body r, qm_type = m_type r, qm_base64 = m_base64 r,
     qm_produced = m_produced r, qm_attempts = min 65535 (m_attempts r)\<rparr>)"

text \<open>Available now and not under a lease that is still running.\<close>

definition unleased :: "int \<Rightarrow> message_row \<Rightarrow> bool" where
  "unleased now r \<longleftrightarrow> m_lease r = None \<or> (case m_until r of Some u \<Rightarrow> u \<le> now | None \<Rightarrow> False)"

definition ready :: "int \<Rightarrow> message_row \<Rightarrow> bool" where
  "ready now r \<longleftrightarrow> m_available r \<le> now \<and> unleased now r"

definition in_order :: "(string \<times> message_row) list \<Rightarrow> (string \<times> message_row) list" where
  "in_order = sort_key (\<lambda>(i, r). (m_available r, i))"

definition ready_ids :: "int \<Rightarrow> nat \<Rightarrow> (string, message_row) btree_map \<Rightarrow> string list" where
  "ready_ids now limit ms = map fst (take limit (in_order (filter (\<lambda>(i, r). ready now r) ms)))"

definition new_row :: "pending_message \<Rightarrow> message_row" where
  "new_row p = \<lparr>m_body = p_body p, m_type = p_type p, m_base64 = p_base64 p, m_produced = p_produced p,
     m_available = p_available p, m_attempts = 0, m_lease = None, m_until = None, m_error = None\<rparr>"

definition update_rows :: "(string \<Rightarrow> message_row \<Rightarrow> bool) \<Rightarrow> (message_row \<Rightarrow> message_row)
    \<Rightarrow> (string, message_row) btree_map \<Rightarrow> (string, message_row) btree_map" where
  "update_rows P f ms = map (\<lambda>(i, r). (i, if P i r then f r else r)) ms"

text \<open>One constructor per statement of the source, with its parameters.\<close>

datatype sql =
    InsertMessages "pending_message list"
  | DeleteExpired int
  | DeleteOldDead int
  | Lease string int int nat
  | SelectLeased string
  | AckLeased string string
  | Release string string int string
  | Bury string string int string
  | DropBuried string string
  | InsertIgnore pending_message
  | BumpProduced int
  | BumpConsumed int
  | SelectDead string
  | ReplaceMessage pending_message
  | DeleteDead string

datatype sql_result = Messages "queue_message list" | Affected nat | Dead "dead_row option" | Done | SqlError

definition leased_by :: "string \<Rightarrow> string \<Rightarrow> string \<Rightarrow> message_row \<Rightarrow> bool" where
  "leased_by wanted lease i r \<longleftrightarrow> i = wanted \<and> m_lease r = Some lease"

definition delete_leased :: "string \<Rightarrow> string \<Rightarrow> queue_db \<Rightarrow> queue_db \<times> sql_result" where
  "delete_leased i lease db =
     (db\<lparr>q_messages := filter (\<lambda>(k, r). \<not> leased_by i lease k r) (q_messages db)\<rparr>,
      Affected (length (filter (\<lambda>(k, r). leased_by i lease k r) (q_messages db))))"

fun run_sql :: "sql \<Rightarrow> queue_db \<Rightarrow> queue_db \<times> sql_result" where
  "run_sql (InsertMessages ps) db =
     (if distinct (map p_id ps) \<and> list_all (\<lambda>p. map_of (q_messages db) (p_id p) = None) ps
      then (db\<lparr>q_messages := fold (\<lambda>p. bt_insert (p_id p) (new_row p)) ps (q_messages db)\<rparr>, Done)
      else (db, SqlError))"
| "run_sql (DeleteExpired before) db =
     (db\<lparr>q_messages := filter (\<lambda>(_, r). \<not> m_produced r < before) (q_messages db)\<rparr>, Done)"
| "run_sql (DeleteOldDead before) db =
     (db\<lparr>q_dead := filter (\<lambda>(_, d). \<not> d_at d < before) (q_dead db)\<rparr>, Done)"
| "run_sql (Lease lease until now limit) db =
     (let ids = ready_ids now limit (q_messages db)
      in (db\<lparr>q_messages := update_rows (\<lambda>i r. i \<in> set ids \<and> unleased now r)
            (\<lambda>r. r\<lparr>m_lease := Some lease, m_until := Some until, m_attempts := m_attempts r + 1\<rparr>) (q_messages db)\<rparr>,
          Done))"
| "run_sql (SelectLeased lease) db =
     (db, Messages (map row_to_message (in_order (filter (\<lambda>(_, r). m_lease r = Some lease) (q_messages db)))))"
| "run_sql (AckLeased i lease) db = delete_leased i lease db"
| "run_sql (Release i lease avail err) db =
     (db\<lparr>q_messages := update_rows (leased_by i lease)
        (\<lambda>r. r\<lparr>m_lease := None, m_until := None, m_available := avail, m_error := Some err\<rparr>) (q_messages db)\<rparr>, Done)"
| "run_sql (Bury i lease at err) db =
     (db\<lparr>q_dead := fold (\<lambda>(k, r). bt_insert k \<lparr>d_body = m_body r, d_type = m_type r, d_base64 = m_base64 r,
          d_produced = m_produced r, d_at = at, d_attempts = m_attempts r, d_error = Some err\<rparr>)
        (filter (\<lambda>(k, r). leased_by i lease k r) (q_messages db)) (q_dead db)\<rparr>, Done)"
| "run_sql (DropBuried i lease) db = delete_leased i lease db"
| "run_sql (InsertIgnore p) db =
     (case map_of (q_messages db) (p_id p) of
        Some _ \<Rightarrow> (db, Affected 0)
      | None \<Rightarrow> (db\<lparr>q_messages := bt_insert (p_id p) (new_row p) (q_messages db)\<rparr>, Affected 1))"
| "run_sql (BumpProduced n) db = (db\<lparr>q_produced := q_produced db + n\<rparr>, Done)"
| "run_sql (BumpConsumed n) db = (db\<lparr>q_consumed := q_consumed db + n\<rparr>, Done)"
| "run_sql (SelectDead i) db = (db, Dead (map_of (q_dead db) i))"
| "run_sql (ReplaceMessage p) db = (db\<lparr>q_messages := bt_insert (p_id p) (new_row p) (q_messages db)\<rparr>, Done)"
| "run_sql (DeleteDead i) db = (db\<lparr>q_dead := filter (\<lambda>(k, _). k \<noteq> i) (q_dead db)\<rparr>, Done)"

section \<open>Programs\<close>

text \<open>
  A handler up to its next effect: an SQL statement on a queue, reading the clock,
  drawing a random identifier, or handing a batch to the consumer, which answers
  with its actions or fails with a text.  \<open>?\<close> after a statement is \<open>exec\<close>.
\<close>

record message_action =
  a_id :: string
  a_action :: string
  a_delay :: int
  a_error :: "string option"

datatype 'a prog =
    Return "queue_error + 'a"
  | Exec string sql "sql_result \<Rightarrow> 'a prog"
  | Clock "int \<Rightarrow> 'a prog"
  | Fresh "string \<Rightarrow> 'a prog"
  | Deliver string "queue_message list" "string + message_action list \<Rightarrow> 'a prog"

primrec andthen :: "'a prog \<Rightarrow> ('a \<Rightarrow> 'b prog) \<Rightarrow> 'b prog" where
  "andthen (Return x) g = (case x of Inl e \<Rightarrow> Return (Inl e) | Inr y \<Rightarrow> g y)"
| "andthen (Exec q s k) g = Exec q s (\<lambda>r. andthen (k r) g)"
| "andthen (Clock k) g = Clock (\<lambda>t. andthen (k t) g)"
| "andthen (Fresh k) g = Fresh (\<lambda>x. andthen (k x) g)"
| "andthen (Deliver w ms k) g = Deliver w ms (\<lambda>r. andthen (k r) g)"

definition exec :: "string \<Rightarrow> sql \<Rightarrow> (sql_result \<Rightarrow> 'a prog) \<Rightarrow> 'a prog" where
  "exec q s k = Exec q s (\<lambda>r. case r of SqlError \<Rightarrow> Return (Inl QSql) | _ \<Rightarrow> k r)"

definition rows_of :: "sql_result \<Rightarrow> queue_message list" where
  "rows_of r = (case r of Messages ms \<Rightarrow> ms | _ \<Rightarrow> [])"

definition affected :: "sql_result \<Rightarrow> nat" where
  "affected r = (case r of Affected n \<Rightarrow> n | _ \<Rightarrow> 0)"

section \<open>Sending\<close>

record send_message =
  s_body :: string
  s_type :: string
  s_base64 :: "string option"
  s_delay :: int

definition message_size :: "queue_env \<Rightarrow> send_message \<Rightarrow> nat option" where
  "message_size E m =
     (if s_type m = ''json'' \<or> s_type m = ''v8'' then (if s_base64 m \<noteq> None then None else Some (length (s_body m)))
      else if s_type m = ''text'' then (if s_base64 m \<noteq> None then None else map_option length (qe_str E (s_body m)))
      else if s_type m = ''bytes'' then
        (if s_body m \<noteq> ''null'' then None
         else case s_base64 m of None \<Rightarrow> None | Some b \<Rightarrow> map_option length (qe_b64 E b))
      else None)"

definition validate_message :: "queue_env \<Rightarrow> send_message \<Rightarrow> queue_error option" where
  "validate_message E m =
     (case message_size E m of
        None \<Rightarrow> Some QMessage
      | Some len \<Rightarrow> if len > MAX_MESSAGE_BYTES then Some QTooLarge else None)"

text \<open>The loop that checks the messages and gives each an identifier.\<close>

fun pending_messages :: "queue_env \<Rightarrow> int \<Rightarrow> send_message list \<Rightarrow> pending_message list prog" where
  "pending_messages E now [] = Return (Inr [])"
| "pending_messages E now (m # ms) =
     (if s_delay m > MAX_DELAY_SECONDS then Return (Inl QDelay)
      else case validate_message E m of
        Some e \<Rightarrow> Return (Inl e)
      | None \<Rightarrow> Fresh (\<lambda>i. andthen (pending_messages E now ms) (\<lambda>ps. Return (Inr
          (\<lparr>p_id = i, p_body = s_body m, p_type = s_type m, p_base64 = s_base64 m, p_produced = now,
            p_available = sadd now (smul (s_delay m) 1000)\<rparr> # ps)))))"

definition enqueue :: "queue_env \<Rightarrow> string \<Rightarrow> send_message list \<Rightarrow> string list prog" where
  "enqueue E q ms =
     (if queue_record E q = None then Return (Inl QMissing)
      else if ms = [] \<or> length ms > MAX_BATCH_MESSAGES then Return (Inl QCount)
      else Clock (\<lambda>now. andthen (pending_messages E now ms) (\<lambda>ps.
        exec q (InsertMessages ps) (\<lambda>_.
        exec q (BumpProduced (int (length ps))) (\<lambda>_. Return (Inr (map p_id ps)))))))"

definition enqueue_existing ::
  "queue_env \<Rightarrow> string \<Rightarrow> string \<Rightarrow> string \<Rightarrow> string \<Rightarrow> string option \<Rightarrow> int \<Rightarrow> unit prog" where
  "enqueue_existing E q i body ctype base64 produced =
     (if queue_record E q = None then Return (Inl QMissing)
      else case validate_message E \<lparr>s_body = body, s_type = ctype, s_base64 = base64, s_delay = 0\<rparr> of
        Some e \<Rightarrow> Return (Inl e)
      | None \<Rightarrow> Clock (\<lambda>t.
          exec q (InsertIgnore \<lparr>p_id = i, p_body = body, p_type = ctype, p_base64 = base64, p_produced = produced, p_available = t\<rparr>) (\<lambda>r.
          if affected r > 0 then exec q (BumpProduced 1) (\<lambda>_. Return (Inr ())) else Return (Inr ()))))"

section \<open>Receiving and settling\<close>

definition expired_before :: "queue_spec \<Rightarrow> int \<Rightarrow> int" where
  "expired_before spec now = ssub now (smul (qs_retention_s spec) 1000)"

definition receive_one :: "queue_env \<Rightarrow> string \<Rightarrow> queue_message option prog" where
  "receive_one E q =
     (case queue_record E q of
        None \<Rightarrow> Return (Inl QMissing)
      | Some (_, spec) \<Rightarrow>
          if qs_suspended spec then Return (Inl QSuspended)
          else Clock (\<lambda>now.
            exec q (DeleteExpired (expired_before spec now)) (\<lambda>_.
            Fresh (\<lambda>lease.
            exec q (Lease lease (sadd now (qs_visibility_ms spec)) now 1) (\<lambda>_.
            exec q (SelectLeased lease) (\<lambda>r.
            case rows_of r of
              [] \<Rightarrow> Return (Inr None)
            | m # _ \<Rightarrow>
                exec q (AckLeased (qm_id m) lease) (\<lambda>r.
                if affected r \<noteq> 1 then Return (Inl QLeaseMoved)
                else exec q (BumpConsumed 1) (\<lambda>_. Return (Inr (Some m))))))))))"

definition claim_batch :: "string \<Rightarrow> queue_spec \<Rightarrow> (string \<times> queue_message list) prog" where
  "claim_batch q spec =
     Clock (\<lambda>now.
       exec q (DeleteExpired (expired_before spec now)) (\<lambda>_.
       exec q (DeleteOldDead (ssub now (30 * 24 * 60 * 60 * 1000))) (\<lambda>_.
       Fresh (\<lambda>lease.
       exec q (Lease lease (sadd now (qs_visibility_ms spec)) now (qs_batch_size spec)) (\<lambda>_.
       exec q (SelectLeased lease) (\<lambda>r. Return (Inr (lease, rows_of r))))))))"

text \<open>The first \<open>n\<close> characters; a byte \<open>10xxxxxx\<close> continues a character.\<close>

fun take_chars :: "nat \<Rightarrow> string \<Rightarrow> string" where
  "take_chars n [] = []"
| "take_chars n (c # cs) =
     (if 128 \<le> code c \<and> code c < 192 then c # take_chars n cs
      else case n of 0 \<Rightarrow> [] | Suc m \<Rightarrow> c # take_chars m cs)"

definition truncate_error :: "string \<Rightarrow> string" where
  "truncate_error = take_chars 4000"

definition move_to_dead_letter ::
  "queue_env \<Rightarrow> string \<Rightarrow> queue_spec \<Rightarrow> string \<Rightarrow> queue_message \<Rightarrow> string \<Rightarrow> unit prog" where
  "move_to_dead_letter E q spec lease m err =
     Clock (\<lambda>t.
       exec q (Bury (qm_id m) lease t (truncate_error err)) (\<lambda>_.
       andthen
         (case qs_dead_letter spec of
            None \<Rightarrow> Return (Inr ())
          | Some target \<Rightarrow> enqueue_existing E target (qm_id m) (qm_body m) (qm_type m) (qm_base64 m) (qm_produced m))
         (\<lambda>_. exec q (DropBuried (qm_id m) lease) (\<lambda>_. Return (Inr ())))))"

text \<open>The text \<open>Worker\<close> and four Chinese characters asking for a retry, in UTF-8.\<close>

definition RETRY_TEXT :: string where
  "RETRY_TEXT = ''Worker '' @ map char_of [232, 175, 183, 230, 177, 130, 233, 135, 141, 232, 175, 149::nat]"

fun settle_messages ::
  "queue_env \<Rightarrow> string \<Rightarrow> queue_spec \<Rightarrow> string \<Rightarrow> (string, message_action) hash_map \<Rightarrow> string option
    \<Rightarrow> queue_message list \<Rightarrow> nat \<Rightarrow> nat prog" where
  "settle_messages E q spec lease actions delivery_error [] consumed = Return (Inr consumed)"
| "settle_messages E q spec lease actions delivery_error (m # ms) consumed =
     (let action = map_of actions (qm_id m);
          should_retry = (delivery_error \<noteq> None \<or> (case action of Some a \<Rightarrow> a_action a = ''retry'' | None \<Rightarrow> False))
      in if \<not> should_retry then
           exec q (AckLeased (qm_id m) lease) (\<lambda>r. settle_messages E q spec lease actions delivery_error ms (consumed + affected r))
         else
           (let err = (case (case action of Some a \<Rightarrow> a_error a | None \<Rightarrow> None) of
                  Some e \<Rightarrow> e
                | None \<Rightarrow> (case delivery_error of Some e \<Rightarrow> e | None \<Rightarrow> RETRY_TEXT));
                delay = min (case action of Some a \<Rightarrow> a_delay a | None \<Rightarrow> 0) MAX_DELAY_SECONDS
            in if qm_attempts m \<le> qs_max_retries spec then
                 Clock (\<lambda>t. exec q (Release (qm_id m) lease (sadd t (smul delay 1000)) (truncate_error err))
                   (\<lambda>_. settle_messages E q spec lease actions delivery_error ms consumed))
               else andthen (move_to_dead_letter E q spec lease m err)
                 (\<lambda>_. settle_messages E q spec lease actions delivery_error ms consumed)))"

definition settle_batch ::
  "queue_env \<Rightarrow> string \<Rightarrow> queue_spec \<Rightarrow> string \<Rightarrow> queue_message list \<Rightarrow> string + message_action list \<Rightarrow> unit prog" where
  "settle_batch E q spec lease ms result =
     (let actions = (case result of Inl _ \<Rightarrow> [] | Inr as \<Rightarrow> fold (\<lambda>a. hm_insert (a_id a) a) as []);
          delivery_error = (case result of Inl e \<Rightarrow> Some e | Inr _ \<Rightarrow> None)
      in andthen (settle_messages E q spec lease actions delivery_error ms 0) (\<lambda>consumed.
           if consumed > 0 then exec q (BumpConsumed (int consumed)) (\<lambda>_. Return (Inr ())) else Return (Inr ())))"

text \<open>The task the dispatcher spawns for a queue that is due.\<close>

definition dispatch :: "queue_env \<Rightarrow> string \<Rightarrow> queue_spec \<Rightarrow> string \<Rightarrow> unit prog" where
  "dispatch E q spec worker =
     andthen (claim_batch q spec) (\<lambda>(lease, ms).
       if ms = [] then Return (Inr ())
       else Deliver worker ms (\<lambda>result. settle_batch E q spec lease ms result))"


definition redrive_dead_letter :: "string \<Rightarrow> string \<Rightarrow> bool prog" where
  "redrive_dead_letter q i =
     exec q (SelectDead i) (\<lambda>r.
       case r of
         Dead (Some d) \<Rightarrow> Clock (\<lambda>t.
           exec q (ReplaceMessage \<lparr>p_id = i, p_body = d_body d, p_type = d_type d, p_base64 = d_base64 d,
                     p_produced = d_produced d, p_available = t\<rparr>) (\<lambda>_.
           exec q (DeleteDead i) (\<lambda>_. Return (Inr True))))
       | _ \<Rightarrow> Return (Inr False))"

section \<open>Reading\<close>

record queue_stats =
  st_ready :: nat
  st_inflight :: nat
  st_dead :: nat
  st_produced :: int
  st_consumed :: int

definition queue_stats_at :: "int \<Rightarrow> queue_db \<Rightarrow> queue_stats" where
  "queue_stats_at now db =
     \<lparr>st_ready = length (filter (\<lambda>(_, r). ready now r) (q_messages db)),
      st_inflight = length (filter (\<lambda>(_, r). m_lease r \<noteq> None \<and> (case m_until r of Some u \<Rightarrow> now < u | None \<Rightarrow> False)) (q_messages db)),
      st_dead = length (q_dead db), st_produced = q_produced db, st_consumed = q_consumed db\<rparr>"

definition list_dead_letters :: "queue_db \<Rightarrow> nat \<Rightarrow> (string \<times> dead_row) list" where
  "list_dead_letters db limit = take (max 1 (min 1000 limit)) (sort_key (\<lambda>(_, d). - d_at d) (q_dead db))"

section \<open>The dispatcher\<close>

text \<open>
  One pass of the loop over the queues: the deadlines afterwards and the tasks
  started, with the number of free permits and the workers that run here.
\<close>

fun dispatch_pass ::
  "int \<Rightarrow> (string \<Rightarrow> bool) \<Rightarrow> nat \<Rightarrow> (resource_view \<times> queue_spec) list \<Rightarrow> (string, int) btree_map
    \<Rightarrow> (string, int) btree_map \<times> (string \<times> queue_spec \<times> string) list" where
  "dispatch_pass now runs permits [] next_run = (next_run, [])"
| "dispatch_pass now runs permits ((v, spec) # vs) next_run =
     (let q = rr_name (rv_resource v) in
      case qs_consumer spec of
        None \<Rightarrow> dispatch_pass now runs permits vs next_run
      | Some worker \<Rightarrow>
          if qs_suspended spec then dispatch_pass now runs permits vs next_run
          else if (case map_of next_run q of Some deadline \<Rightarrow> now < deadline | None \<Rightarrow> False)
            then dispatch_pass now runs permits vs next_run
          else (let next_run' = bt_insert q (sadd now (qs_max_wait_ms spec)) next_run
                in if \<not> runs worker then dispatch_pass now runs permits vs next_run'
                   else (case permits of
                       0 \<Rightarrow> (next_run', [])
                     | Suc p \<Rightarrow> (case dispatch_pass now runs p vs next_run' of
                         (nr, ts) \<Rightarrow> (nr, (q, spec, worker) # ts)))))"


text \<open>A pass starts no more tasks than there are permits, and only for running consumers of queues that are not suspended.\<close>

lemma dispatch_pass_tasks:
  "length (snd (dispatch_pass now runs permits vs next_run)) \<le> permits
   \<and> (\<forall>(q, spec, worker) \<in> set (snd (dispatch_pass now runs permits vs next_run)).
        qs_consumer spec = Some worker \<and> \<not> qs_suspended spec \<and> runs worker \<and> spec \<in> snd ` set vs)"
  by (induction now runs permits vs next_run rule: dispatch_pass.induct)
    (force simp: Let_def split: option.splits nat.splits prod.splits if_splits)+

end
