(* ===== verification/Queue_Delivery.thy ===== *)
theory Queue_Delivery
  imports Queue
begin

text \<open>
  Queues under concurrency.  Handlers of any number of nodes run interleaved, one
  statement at a time, with arbitrary clocks and consumers, and may stop at any
  point.  An invariant of these runs accounts for every accepted message.
\<close>

section \<open>Statements\<close>

lemma map_of_filter_bt:
  "bt_ok m \<Longrightarrow> map_of (filter P m) i = (case map_of m i of None \<Rightarrow> None | Some r \<Rightarrow> if P (i, r) then Some r else None)"
  by (rule map_of_filter_distinct) (rule bt_ok_distinct)

lemma map_of_update_rows:
  "map_of (update_rows P f ms) i = map_option (\<lambda>r. if P i r then f r else r) (map_of ms i)"
  by (induction ms) (auto simp: update_rows_def)

lemma keys_update_rows: "map fst (update_rows P f ms) = map fst ms"
  by (induction ms) (auto simp: update_rows_def)

definition db_ok :: "queue_db \<Rightarrow> bool" where
  "db_ok db \<longleftrightarrow> bt_ok (q_messages db) \<and> bt_ok (q_dead db)"

abbreviation message :: "queue_db \<Rightarrow> string \<Rightarrow> message_row option" where
  "message db i \<equiv> map_of (q_messages db) i"

abbreviation letter :: "queue_db \<Rightarrow> string \<Rightarrow> dead_row option" where
  "letter db i \<equiv> map_of (q_dead db) i"

text \<open>What a statement accepts, acknowledges and lets expire.\<close>

fun accepts :: "sql \<Rightarrow> queue_db \<Rightarrow> string set" where
  "accepts (InsertMessages ps) db = (if snd (run_sql (InsertMessages ps) db) = SqlError then {} else p_id ` set ps)"
| "accepts (InsertIgnore p) db = {p_id p}"
| "accepts _ db = {}"

fun acks :: "sql \<Rightarrow> queue_db \<Rightarrow> string set" where
  "acks (AckLeased i lease) db = (case message db i of Some r \<Rightarrow> if m_lease r = Some lease then {i} else {} | None \<Rightarrow> {})"
| "acks _ db = {}"

fun expires :: "sql \<Rightarrow> queue_db \<Rightarrow> string set" where
  "expires (DeleteExpired before) db = fst ` set (filter (\<lambda>(_, r). m_produced r < before) (q_messages db))"
| "expires (DeleteOldDead before) db = fst ` set (filter (\<lambda>(_, d). d_at d < before) (q_dead db))"
| "expires _ db = {}"

lemma fold_insert_ok:
  "bt_ok m \<Longrightarrow> bt_ok (fold (\<lambda>p. bt_insert (f p) (g p)) ps m)"
  by (induction ps arbitrary: m) (simp_all add: bt_ok_insert)

lemma fold_insert_cases:
  assumes "bt_ok m" and "map_of (fold (\<lambda>p. bt_insert (f p) (g p)) ps m) i = Some r"
  shows "map_of m i = Some r \<or> (\<exists>p \<in> set ps. i = f p \<and> r = g p)"
  using assms
proof (induction ps arbitrary: m)
  case (Cons p ps)
  from Cons.IH [of "bt_insert (f p) (g p) m"] Cons.prems show ?case
    by (auto simp: bt_ok_insert map_of_bt_insert split: if_splits)
qed simp

lemma fold_insert_dom:
  "bt_ok m \<Longrightarrow> map_of (fold (\<lambda>p. bt_insert (f p) (g p)) ps m) i \<noteq> None \<longleftrightarrow> map_of m i \<noteq> None \<or> i \<in> f ` set ps"
  by (induction ps arbitrary: m) (auto simp: bt_ok_insert map_of_bt_insert)

lemma bt_ok_update_rows: "bt_ok (update_rows P f ms) = bt_ok ms"
  by (simp add: bt_ok_def keys_update_rows)

lemma db_ok_run: "db_ok db \<Longrightarrow> db_ok (fst (run_sql s db))"
  by (cases s) (auto simp: db_ok_def bt_ok_filter bt_ok_update_rows fold_insert_ok bt_ok_insert delete_leased_def Let_def
    split_def split: option.splits)


lemma key_filterI: "map_of m i = Some y \<Longrightarrow> P (i, y) \<Longrightarrow> i \<in> fst ` {x \<in> set m. P x}"
  by (force dest: map_of_SomeD)

text \<open>A row has a lease only if it had it before or the statement gave it.\<close>

lemma lease_origin:
  assumes "db_ok db" and "message (fst (run_sql s db)) i = Some r" and "m_lease r = Some l"
  shows "(\<exists>r'. message db i = Some r' \<and> m_lease r' = Some l) \<or> (\<exists>u t n. s = Lease l u t n)"
  using assms
  by (cases s) (auto simp: db_ok_def map_of_filter_bt map_of_update_rows map_of_bt_insert delete_leased_def Let_def new_row_def
      split: option.splits if_splits dest!: fold_insert_cases)

lemma letter_kept:
  assumes "db_ok db" and "letter db i \<noteq> None"
  shows "letter (fst (run_sql s db)) i \<noteq> None \<or> i \<in> expires s db \<or> s = DeleteDead i"
  using assms
  by (cases s) (auto simp: db_ok_def map_of_filter_bt delete_leased_def Let_def split_def fold_insert_dom [unfolded not_None_eq]
      split: option.splits if_splits intro!: key_filterI)

lemma message_kept:
  assumes "db_ok db" and "message db i = Some r"
  shows "message (fst (run_sql s db)) i \<noteq> None \<or> i \<in> acks s db \<or> i \<in> expires s db
    \<or> (\<exists>l. s = DropBuried i l \<and> m_lease r = Some l)"
  using assms
  by (cases s) (auto simp: db_ok_def map_of_filter_bt map_of_update_rows map_of_bt_insert delete_leased_def leased_by_def Let_def
      split_def fold_insert_dom [unfolded not_None_eq] split: option.splits if_splits intro!: key_filterI)

lemma accepted_present:
  assumes "db_ok db" and "i \<in> accepts s db"
  shows "message (fst (run_sql s db)) i \<noteq> None"
  using assms
  by (cases s) (auto simp: db_ok_def map_of_bt_insert fold_insert_dom [unfolded not_None_eq] split: option.splits if_splits)

lemma buried_present:
  assumes "db_ok db" and "message (fst (run_sql (Bury i l t e) db)) i = Some r" and "m_lease r = Some l"
  shows "letter (fst (run_sql (Bury i l t e) db)) i \<noteq> None"
proof -
  from assms(1) have "bt_ok (q_dead db)" by (simp add: db_ok_def)
  moreover have "i \<in> fst ` set (filter (\<lambda>(k, r). leased_by i l k r) (q_messages db))"
    using assms(2,3) by (force simp: leased_by_def dest: map_of_SomeD)
  ultimately show ?thesis by (simp add: split_def fold_insert_dom [unfolded not_None_eq])
qed


section \<open>Interleaved handlers\<close>

text \<open>
  A process is the rest of its program with three auxiliary sets: identifiers it
  drew and has not used as a lease, leases it has used, and the messages it has
  copied to the dead letters.  The world has the tables, the running processes,
  every identifier drawn so far, and what was accepted, acknowledged and expired.
\<close>

record proc =
  pr_free :: "string set"
  pr_used :: "string set"
  pr_buried :: "(string \<times> string \<times> string) set"
  pr_prog :: "unit prog"

record world =
  w_queues :: "string \<Rightarrow> queue_db"
  w_procs :: "nat \<Rightarrow> proc option"
  w_ids :: "string set"
  w_sent :: "(string \<times> string) set"
  w_acked :: "(string \<times> string) set"
  w_expired :: "(string \<times> string) set"

definition world_init :: world where
  "world_init = \<lparr>w_queues = (\<lambda>_. queue_empty), w_procs = (\<lambda>_. None), w_ids = {}, w_sent = {}, w_acked = {}, w_expired = {}\<rparr>"

fun leases :: "sql \<Rightarrow> string set" where
  "leases (Lease l _ _ _) = {l}"
| "leases _ = {}"

fun buries :: "string \<Rightarrow> sql \<Rightarrow> (string \<times> string \<times> string) set" where
  "buries q (Bury i l _ _) = {(q, i, l)}"
| "buries q _ = {}"

text \<open>A process after a statement, with the rest of its program.\<close>

definition ran :: "proc \<Rightarrow> string \<Rightarrow> sql \<Rightarrow> unit prog \<Rightarrow> proc" where
  "ran a q s p = \<lparr>pr_free = pr_free a - leases s, pr_used = pr_used a \<union> leases s, pr_buried = pr_buried a \<union> buries q s, pr_prog = p\<rparr>"

definition set_proc :: "nat \<Rightarrow> proc option \<Rightarrow> world \<Rightarrow> world" where
  "set_proc n a w = w\<lparr>w_procs := (w_procs w)(n := a)\<rparr>"

definition do_sql :: "string \<Rightarrow> sql \<Rightarrow> world \<Rightarrow> world" where
  "do_sql q s w = w\<lparr>w_queues := (w_queues w)(q := fst (run_sql s (w_queues w q))),
     w_sent := w_sent w \<union> Pair q ` accepts s (w_queues w q),
     w_acked := w_acked w \<union> Pair q ` acks s (w_queues w q),
     w_expired := w_expired w \<union> Pair q ` expires s (w_queues w q)\<rparr>"

inductive qstep :: "(unit prog \<Rightarrow> bool) \<Rightarrow> world \<Rightarrow> world \<Rightarrow> bool" for start where
  spawn: "w_procs w n = None \<Longrightarrow> start p \<Longrightarrow>
    qstep start w (set_proc n (Some \<lparr>pr_free = {}, pr_used = {}, pr_buried = {}, pr_prog = p\<rparr>) w)"
| statement: "w_procs w n = Some a \<Longrightarrow> pr_prog a = Exec q s k \<Longrightarrow>
    qstep start w (set_proc n (Some (ran a q s (k (snd (run_sql s (w_queues w q)))))) (do_sql q s w))"
| read_clock: "w_procs w n = Some a \<Longrightarrow> pr_prog a = Clock k \<Longrightarrow> qstep start w (set_proc n (Some (a\<lparr>pr_prog := k t\<rparr>)) w)"
| draw: "w_procs w n = Some a \<Longrightarrow> pr_prog a = Fresh k \<Longrightarrow> x \<notin> w_ids w \<Longrightarrow>
    qstep start w (set_proc n (Some (a\<lparr>pr_free := insert x (pr_free a), pr_prog := k x\<rparr>)) (w\<lparr>w_ids := insert x (w_ids w)\<rparr>))"
| consume: "w_procs w n = Some a \<Longrightarrow> pr_prog a = Deliver wk ms k \<Longrightarrow> qstep start w (set_proc n (Some (a\<lparr>pr_prog := k ans\<rparr>)) w)"
| stop: "qstep start w (set_proc n None w)"

inductive qreach :: "(unit prog \<Rightarrow> bool) \<Rightarrow> world \<Rightarrow> bool" for start where
  init: "qreach start world_init"
| more: "qreach start w \<Longrightarrow> qstep start w w' \<Longrightarrow> qreach start w'"

definition forget :: "'a prog \<Rightarrow> unit prog" where
  "forget p = andthen p (\<lambda>_. Return (Inr ()))"

text \<open>Producers, consumers and direct receivers on any node.\<close>

definition handler :: "unit prog \<Rightarrow> bool" where
  "handler p \<longleftrightarrow> (\<exists>E q ms. p = forget (enqueue E q ms)) \<or> (\<exists>E q. p = forget (receive_one E q))
     \<or> (\<exists>E q spec worker. p = dispatch E q spec worker)"

section \<open>What the handlers respect\<close>

fun abides :: "string set \<Rightarrow> string set \<Rightarrow> (string \<times> string \<times> string) set \<Rightarrow> string \<Rightarrow> sql \<Rightarrow> bool" where
  "abides F U B q (Lease l _ _ _) \<longleftrightarrow> l \<in> F"
| "abides F U B q (Bury i l _ _) \<longleftrightarrow> l \<in> U"
| "abides F U B q (DropBuried i l) \<longleftrightarrow> (q, i, l) \<in> B"
| "abides F U B q (ReplaceMessage p) \<longleftrightarrow> False"
| "abides F U B q (DeleteDead i) \<longleftrightarrow> False"
| "abides F U B q _ \<longleftrightarrow> True"

text \<open>
  A program that leases only with identifiers it drew itself, copies to the dead
  letters under its own lease, and drops only what it copied; what it returns
  satisfies the last argument.
\<close>

primrec careful :: "'a prog \<Rightarrow> string set \<Rightarrow> string set \<Rightarrow> (string \<times> string \<times> string) set
    \<Rightarrow> (string set \<Rightarrow> string set \<Rightarrow> (string \<times> string \<times> string) set \<Rightarrow> 'a \<Rightarrow> bool) \<Rightarrow> bool" where
  "careful (Return x) F U B Q \<longleftrightarrow> (\<forall>y. x = Inr y \<longrightarrow> Q F U B y)"
| "careful (Exec q s k) F U B Q \<longleftrightarrow>
     abides F U B q s \<and> (\<forall>r. careful (k r) (F - leases s) (U \<union> leases s) (B \<union> buries q s) Q)"
| "careful (Clock k) F U B Q \<longleftrightarrow> (\<forall>t. careful (k t) F U B Q)"
| "careful (Fresh k) F U B Q \<longleftrightarrow> (\<forall>x. careful (k x) (insert x F) U B Q)"
| "careful (Deliver w ms k) F U B Q \<longleftrightarrow> (\<forall>r. careful (k r) F U B Q)"

lemma careful_andthen:
  assumes "careful p F U B Q" and "\<And>F U B y. Q F U B y \<Longrightarrow> careful (g y) F U B Q'"
  shows "careful (andthen p g) F U B Q'"
  using assms(1) by (induction p arbitrary: F U B) (auto simp: assms(2) split: sum.splits)

lemma careful_exec:
  assumes "abides F U B q s" and "\<And>r. careful (k r) (F - leases s) (U \<union> leases s) (B \<union> buries q s) Q"
  shows "careful (exec q s k) F U B Q"
  using assms by (auto simp: exec_def split: sql_result.splits)

lemma careful_any: "careful p F U B (\<lambda>_ _ _ _. True) \<Longrightarrow> careful (forget p) F U B (\<lambda>_ _ _ _. True)"
  unfolding forget_def by (erule careful_andthen) simp

lemma careful_pending: "careful (pending_messages E now ms) F U B (\<lambda>_ _ _ _. True)"
  by (induction E now ms arbitrary: F U B rule: pending_messages.induct)
    (auto split: option.splits intro!: careful_andthen)

lemma careful_enqueue: "careful (enqueue E q ms) F U B (\<lambda>_ _ _ _. True)"
  unfolding enqueue_def by (auto intro!: careful_andthen [OF careful_pending] careful_exec)

lemma careful_existing:
  "P U B \<Longrightarrow> careful (enqueue_existing E q i body ctype base64 produced) F U B (\<lambda>F U B _. P U B)"
  unfolding enqueue_existing_def by (auto split: option.splits intro!: careful_exec)

lemma careful_receive: "careful (receive_one E q) F U B (\<lambda>_ _ _ _. True)"
  unfolding receive_one_def by (auto split: option.splits list.splits intro!: careful_exec)

lemma careful_claim: "careful (claim_batch q spec) F U B (\<lambda>F U B (lease, ms). lease \<in> U)"
  unfolding claim_batch_def by (auto intro!: careful_exec)

lemma careful_bury:
  assumes "lease \<in> U"
  shows "careful (move_to_dead_letter E q spec lease m err) F U B (\<lambda>F U B _. lease \<in> U)"
  unfolding move_to_dead_letter_def using assms
  by (auto intro!: careful_exec careful_andthen [where Q = "\<lambda>F U B _. lease \<in> U \<and> (q, qm_id m, lease) \<in> B"]
      careful_existing [where P = "\<lambda>U B. lease \<in> U \<and> (q, qm_id m, lease) \<in> B"] split: option.splits)

lemma careful_settle:
  "lease \<in> U \<Longrightarrow> careful (settle_messages E q spec lease actions err ms consumed) F U B (\<lambda>F U B _. lease \<in> U)"
  by (induction E q spec lease actions err ms consumed arbitrary: F U B rule: settle_messages.induct)
    (auto simp: Let_def intro!: careful_exec careful_andthen [OF careful_bury])

lemma careful_dispatch: "careful (dispatch E q spec worker) F U B (\<lambda>_ _ _ _. True)"
  unfolding dispatch_def settle_batch_def
  by (auto simp: Let_def intro!: careful_andthen [OF careful_claim] careful_andthen [OF careful_settle] careful_exec)

lemma careful_handler: "handler p \<Longrightarrow> careful p {} {} {} (\<lambda>_ _ _ _. True)"
  unfolding handler_def using careful_dispatch careful_any [OF careful_enqueue] careful_any [OF careful_receive] by blast


section \<open>The invariant\<close>

abbreviation holds_lease :: "world \<Rightarrow> string \<Rightarrow> string \<Rightarrow> string \<Rightarrow> bool" where
  "holds_lease w q i l \<equiv> \<exists>r. message (w_queues w q) i = Some r \<and> m_lease r = Some l"

definition fr :: "world \<Rightarrow> nat \<Rightarrow> string set" where
  "fr w n = (case w_procs w n of None \<Rightarrow> {} | Some a \<Rightarrow> pr_free a)"

definition us :: "world \<Rightarrow> nat \<Rightarrow> string set" where
  "us w n = (case w_procs w n of None \<Rightarrow> {} | Some a \<Rightarrow> pr_used a)"

definition bu :: "world \<Rightarrow> nat \<Rightarrow> (string \<times> string \<times> string) set" where
  "bu w n = (case w_procs w n of None \<Rightarrow> {} | Some a \<Rightarrow> pr_buried a)"

text \<open>Identifiers: unused ones are private to a process and in no table; used leases are never unused again.\<close>

definition ids_inv :: "world \<Rightarrow> bool" where
  "ids_inv w \<longleftrightarrow>
     (\<forall>n l. l \<in> fr w n \<or> l \<in> us w n \<longrightarrow> l \<in> w_ids w)
   \<and> (\<forall>n q i l. (q, i, l) \<in> bu w n \<longrightarrow> l \<in> us w n)
   \<and> (\<forall>n m l. l \<in> fr w n \<longrightarrow> l \<notin> us w m)
   \<and> (\<forall>n m l. l \<in> fr w n \<longrightarrow> l \<in> fr w m \<longrightarrow> n = m)
   \<and> (\<forall>q i l. holds_lease w q i l \<longrightarrow> l \<in> w_ids w \<and> (\<forall>n. l \<notin> fr w n))"

definition procs_inv :: "world \<Rightarrow> bool" where
  "procs_inv w \<longleftrightarrow> (\<forall>n a. w_procs w n = Some a \<longrightarrow>
     careful (pr_prog a) (pr_free a) (pr_used a) (pr_buried a) (\<lambda>_ _ _ _. True))"

definition buried_inv :: "world \<Rightarrow> bool" where
  "buried_inv w \<longleftrightarrow> (\<forall>n q i l. (q, i, l) \<in> bu w n \<longrightarrow> holds_lease w q i l \<longrightarrow>
     letter (w_queues w q) i \<noteq> None \<or> (q, i) \<in> w_expired w)"

definition sent_inv :: "world \<Rightarrow> bool" where
  "sent_inv w \<longleftrightarrow> (\<forall>q i. (q, i) \<in> w_sent w \<longrightarrow> message (w_queues w q) i \<noteq> None \<or> letter (w_queues w q) i \<noteq> None
     \<or> (q, i) \<in> w_acked w \<or> (q, i) \<in> w_expired w)"

definition queue_inv :: "world \<Rightarrow> bool" where
  "queue_inv w \<longleftrightarrow> (\<forall>q. db_ok (w_queues w q)) \<and> ids_inv w \<and> procs_inv w \<and> buried_inv w \<and> sent_inv w"

lemmas queue_inv_defs = queue_inv_def ids_inv_def procs_inv_def buried_inv_def sent_inv_def

lemma ids_invD:
  assumes "ids_inv w"
  shows "\<And>n l. l \<in> fr w n \<or> l \<in> us w n \<Longrightarrow> l \<in> w_ids w"
    and "\<And>n q i l. (q, i, l) \<in> bu w n \<Longrightarrow> l \<in> us w n"
    and "\<And>n m l. l \<in> fr w n \<Longrightarrow> l \<notin> us w m"
    and "\<And>n m l. l \<in> fr w n \<Longrightarrow> l \<in> fr w m \<Longrightarrow> n = m"
    and "\<And>q i l. holds_lease w q i l \<Longrightarrow> l \<in> w_ids w"
    and "\<And>q i l n. holds_lease w q i l \<Longrightarrow> l \<notin> fr w n"
  using assms unfolding ids_inv_def by blast+

lemma queue_inv_init: "queue_inv world_init"
  by (simp add: queue_inv_defs world_init_def queue_empty_def db_ok_def fr_def us_def bu_def)

lemma set_proc_simps [simp]:
  "w_queues (set_proc n a w) = w_queues w" "w_ids (set_proc n a w) = w_ids w" "w_sent (set_proc n a w) = w_sent w"
  "w_acked (set_proc n a w) = w_acked w" "w_expired (set_proc n a w) = w_expired w"
  "w_procs (set_proc n a w) = (w_procs w)(n := a)"
  "fr (set_proc n a w) = (fr w)(n := case a of None \<Rightarrow> {} | Some b \<Rightarrow> pr_free b)"
  "us (set_proc n a w) = (us w)(n := case a of None \<Rightarrow> {} | Some b \<Rightarrow> pr_used b)"
  "bu (set_proc n a w) = (bu w)(n := case a of None \<Rightarrow> {} | Some b \<Rightarrow> pr_buried b)"
  by (auto simp: set_proc_def fr_def us_def bu_def fun_eq_iff)

text \<open>Replacing a process by one that has drawn and done nothing else.\<close>

lemma queue_inv_set:
  assumes "queue_inv w"
    and "\<And>b. a = Some b \<Longrightarrow> careful (pr_prog b) (pr_free b) (pr_used b) (pr_buried b) (\<lambda>_ _ _ _. True)"
    and "(case a of None \<Rightarrow> {} | Some b \<Rightarrow> pr_free b) \<subseteq> fr w n"
    and "(case a of None \<Rightarrow> {} | Some b \<Rightarrow> pr_used b) = us w n \<and> (case a of None \<Rightarrow> {} | Some b \<Rightarrow> pr_buried b) = bu w n
      \<or> (case a of None \<Rightarrow> {} | Some b \<Rightarrow> pr_used b) = {} \<and> (case a of None \<Rightarrow> {} | Some b \<Rightarrow> pr_buried b) = {}"
  shows "queue_inv (set_proc n a w)"
proof -
  have i: "ids_inv w" "procs_inv w" "buried_inv w" "sent_inv w" "\<And>q. db_ok (w_queues w q)"
    using assms(1) by (simp_all add: queue_inv_def)
  have f: "l \<in> fr (set_proc n a w) m \<Longrightarrow> l \<in> fr w m" and u: "l \<in> us (set_proc n a w) m \<Longrightarrow> l \<in> us w m" for l m
    using assms(3,4) by (auto split: if_splits)
  have b: "x \<in> bu (set_proc n a w) m \<Longrightarrow> x \<in> bu w m \<and> us (set_proc n a w) m = us w m" for x m
    using assms(4) by (auto split: if_splits)
  have "ids_inv (set_proc n a w)"
    unfolding ids_inv_def
  proof (intro conjI allI impI)
    show "l \<in> w_ids (set_proc n a w)" if "l \<in> fr (set_proc n a w) m \<or> l \<in> us (set_proc n a w) m" for m l
      using that f u ids_invD(1) [OF i(1)] set_proc_simps(2) by metis
    show "l \<in> us (set_proc n a w) m" if "(q, j, l) \<in> bu (set_proc n a w) m" for m q j l
      using b [OF that] ids_invD(2) [OF i(1)] by metis
    show "l \<notin> us (set_proc n a w) m'" if "l \<in> fr (set_proc n a w) m" for m m' l
      using ids_invD(3) [OF i(1) f [OF that]] u by blast
    show "m = m'" if "l \<in> fr (set_proc n a w) m" "l \<in> fr (set_proc n a w) m'" for m m' l
      using ids_invD(4) [OF i(1) f [OF that(1)] f [OF that(2)]] .
    show "l \<in> w_ids (set_proc n a w)" if "holds_lease (set_proc n a w) q j l" for q j l
      using ids_invD(5) [OF i(1), of q j l] that by simp
    show "l \<notin> fr (set_proc n a w) m" if "holds_lease (set_proc n a w) q j l" for q j l m
      using ids_invD(6) [OF i(1), of q j l m] that f set_proc_simps(1) by metis
  qed
  moreover have "procs_inv (set_proc n a w)" using i(2) assms(2) by (auto simp: procs_inv_def split: if_splits)
  moreover have "buried_inv (set_proc n a w)"
    using i(3) unfolding buried_inv_def set_proc_simps(1,5) using b by blast
  moreover have "sent_inv (set_proc n a w)" using i(4) by (simp add: sent_inv_def)
  ultimately show ?thesis using i(5) by (simp add: queue_inv_def)
qed

lemma queue_inv_draw:
  assumes "queue_inv w" and a: "w_procs w n = Some a" "pr_prog a = Fresh k" and x: "x \<notin> w_ids w"
  shows "queue_inv (set_proc n (Some (a\<lparr>pr_free := insert x (pr_free a), pr_prog := k x\<rparr>)) (w\<lparr>w_ids := insert x (w_ids w)\<rparr>))"
    (is "queue_inv ?w")
proof -
  have i: "ids_inv w" "procs_inv w" "buried_inv w" "sent_inv w" "\<And>q. db_ok (w_queues w q)"
    using assms(1) by (simp_all add: queue_inv_def)
  have p: "fr w n = pr_free a" "us w n = pr_used a" "bu w n = pr_buried a" using a(1) by (simp_all add: fr_def us_def bu_def)
  have f: "fr ?w m = (if m = n then insert x (fr w m) else fr w m)" "us ?w m = us w m" "bu ?w m = bu w m" for m
    using p by (auto simp: fr_def us_def bu_def set_proc_def)
  have w: "w_queues ?w = w_queues w" "w_ids ?w = insert x (w_ids w)" "w_expired ?w = w_expired w" by simp_all
  have new: "x \<notin> fr w m" "x \<notin> us w m" "\<not> holds_lease w q j x" for m q j
    using x ids_invD(1,5) [OF i(1)] by blast+
  have "ids_inv ?w"
    unfolding ids_inv_def w(1,2) f
  proof (intro conjI allI impI)
    show "l \<in> insert x (w_ids w)" if "l \<in> (if m = n then insert x (fr w m) else fr w m) \<or> l \<in> us w m" for m l
      using that ids_invD(1) [OF i(1), of l m] by (auto split: if_splits)
    show "l \<in> us w m" if "(q, j, l) \<in> bu w m" for m q j l by (rule ids_invD(2) [OF i(1) that])
    show "l \<notin> us w m'" if "l \<in> (if m = n then insert x (fr w m) else fr w m)" for m m' l
      using that new ids_invD(3) [OF i(1), of l] by (auto split: if_splits)
    show "m = m'" if "l \<in> (if m = n then insert x (fr w m) else fr w m)" "l \<in> (if m' = n then insert x (fr w m') else fr w m')" for m m' l
      using that new ids_invD(4) [OF i(1), of l m m'] by (auto split: if_splits)
    show "l \<in> insert x (w_ids w)" if "holds_lease w q j l" for q j l using ids_invD(5) [OF i(1) that] by simp
    show "l \<notin> (if m = n then insert x (fr w m) else fr w m)" if h: "holds_lease w q j l" for q j l m
    proof -
      from h new(3) [of q j] have "l \<noteq> x" by blast
      with ids_invD(6) [OF i(1) h] show ?thesis by simp
    qed
  qed
  moreover have "procs_inv ?w"
  proof -
    have "careful (pr_prog a) (pr_free a) (pr_used a) (pr_buried a) (\<lambda>_ _ _ _. True)" using i(2) a(1) by (simp add: procs_inv_def)
    then show ?thesis using i(2) a(2) by (auto simp: procs_inv_def split: if_splits)
  qed
  moreover have "buried_inv ?w" using i(3) unfolding buried_inv_def f w .
  moreover have "sent_inv ?w" using i(4) by (simp add: sent_inv_def)
  ultimately show ?thesis using i(5) by (simp add: queue_inv_def)
qed

lemma do_sql_simps [simp]:
  "w_queues (do_sql q s w) = (w_queues w)(q := fst (run_sql s (w_queues w q)))" "w_ids (do_sql q s w) = w_ids w"
  "w_sent (do_sql q s w) = w_sent w \<union> Pair q ` accepts s (w_queues w q)"
  "w_acked (do_sql q s w) = w_acked w \<union> Pair q ` acks s (w_queues w q)"
  "w_expired (do_sql q s w) = w_expired w \<union> Pair q ` expires s (w_queues w q)"
  "w_procs (do_sql q s w) = w_procs w"
  by (simp_all add: do_sql_def)

lemma do_sql_procs [simp]: "fr (do_sql q s w) = fr w" "us (do_sql q s w) = us w" "bu (do_sql q s w) = bu w"
  by (simp_all add: fr_def us_def bu_def fun_eq_iff)

text \<open>What a process and the tables have after a statement its program abides by.\<close>

definition after :: "world \<Rightarrow> nat \<Rightarrow> proc \<Rightarrow> string \<Rightarrow> sql \<Rightarrow> unit prog \<Rightarrow> world" where
  "after w n a q s p = set_proc n (Some (ran a q s p)) (do_sql q s w)"

lemma after_simps:
  assumes "w_procs w n = Some a"
  shows "fr (after w n a q s p) m = (if m = n then fr w n - leases s else fr w m)"
    and "us (after w n a q s p) m = (if m = n then us w n \<union> leases s else us w m)"
    and "bu (after w n a q s p) m = (if m = n then bu w n \<union> buries q s else bu w m)"
    and "w_ids (after w n a q s p) = w_ids w"
    and "w_queues (after w n a q s p) = (w_queues w)(q := fst (run_sql s (w_queues w q)))"
  using assms by (simp_all add: after_def ran_def fr_def us_def bu_def)

lemma statement_facts:
  assumes "queue_inv w" and a: "w_procs w n = Some a" "pr_prog a = Exec q s k"
  shows "abides (fr w n) (us w n) (bu w n) q s"
    and "careful (k r) (pr_free a - leases s) (pr_used a \<union> leases s) (pr_buried a \<union> buries q s) (\<lambda>_ _ _ _. True)"
    and "l \<in> leases s \<Longrightarrow> l \<in> fr w n"
    and "(q', j, l) \<in> buries q s \<Longrightarrow> q' = q \<and> l \<in> us w n"
    and "holds_lease (after w n a q s p) q' j l \<Longrightarrow> holds_lease w q' j l \<or> l \<in> leases s"
proof -
  have "careful (pr_prog a) (pr_free a) (pr_used a) (pr_buried a) (\<lambda>_ _ _ _. True)"
    using assms(1) a(1) unfolding queue_inv_def procs_inv_def by blast
  then have c: "abides (pr_free a) (pr_used a) (pr_buried a) q s"
    "\<And>r. careful (k r) (pr_free a - leases s) (pr_used a \<union> leases s) (pr_buried a \<union> buries q s) (\<lambda>_ _ _ _. True)"
    unfolding a(2) by simp_all
  from c(2) show "careful (k r) (pr_free a - leases s) (pr_used a \<union> leases s) (pr_buried a \<union> buries q s) (\<lambda>_ _ _ _. True)" .
  show ab: "abides (fr w n) (us w n) (bu w n) q s" using c(1) a(1) by (simp add: fr_def us_def bu_def)
  show "l \<in> leases s \<Longrightarrow> l \<in> fr w n" using ab by (cases s) auto
  show "(q', j, l) \<in> buries q s \<Longrightarrow> q' = q \<and> l \<in> us w n" using ab by (cases s) auto
  assume h: "holds_lease (after w n a q s p) q' j l"
  have ok: "db_ok (w_queues w q)" using assms(1) by (simp add: queue_inv_def)
  show "holds_lease w q' j l \<or> l \<in> leases s"
  proof (cases "q' = q")
    case True
    with h obtain r where "message (fst (run_sql s (w_queues w q))) j = Some r" "m_lease r = Some l"
      unfolding after_simps(5) [OF a(1)] by auto
    from lease_origin [OF ok this] True show ?thesis by auto
  qed (use h in \<open>simp add: after_simps(5) [OF a(1)]\<close>)
qed

lemma ids_inv_statement:
  assumes "queue_inv w" and a: "w_procs w n = Some a" "pr_prog a = Exec q s k"
  shows "ids_inv (after w n a q s p)" (is "ids_inv ?w")
proof -
  have i: "ids_inv w" using assms(1) by (simp add: queue_inv_def)
  note f = after_simps(1-4) [OF a(1), of q s p] and fact = statement_facts [OF assms]
  show ?thesis
    unfolding ids_inv_def
  proof (intro conjI allI impI)
    show "l \<in> w_ids ?w" if "l \<in> fr ?w m \<or> l \<in> us ?w m" for m l
      using that ids_invD(1) [OF i] fact(3) unfolding f by (metis Diff_iff Un_iff)
    show "l \<in> us ?w m" if "(q', j, l) \<in> bu ?w m" for m q' j l
      using that ids_invD(2) [OF i] fact(4) unfolding f by (metis Un_iff)
    show "l \<notin> us ?w m'" if "l \<in> fr ?w m" for m m' l
      using that ids_invD(3,4) [OF i] fact(3) unfolding f by (metis Diff_iff Un_iff)
    show "m = m'" if "l \<in> fr ?w m" "l \<in> fr ?w m'" for m m' l
      using that ids_invD(4) [OF i] unfolding f by (metis Diff_iff)
    show "l \<in> w_ids ?w" if "holds_lease ?w q' j l" for q' j l
      using fact(5) [OF that] ids_invD(1,5) [OF i] fact(3) unfolding f(4) by metis
    show "l \<notin> fr ?w m" if "holds_lease ?w q' j l" for q' j l m
      using fact(5) [OF that] ids_invD(4,6) [OF i] fact(3) unfolding f by (metis Diff_iff)
  qed
qed

lemma buried_inv_statement:
  assumes "queue_inv w" and a: "w_procs w n = Some a" "pr_prog a = Exec q s k"
  shows "buried_inv (after w n a q s p)" (is "buried_inv ?w")
  unfolding buried_inv_def
proof (intro allI impI)
  have i: "ids_inv w" "buried_inv w" "\<And>q. db_ok (w_queues w q)" using assms(1) by (simp_all add: queue_inv_def)
  note fact = statement_facts [OF assms]
  fix m q' j l assume b: "(q', j, l) \<in> bu ?w m" and h: "holds_lease ?w q' j l"
  consider (old) "(q', j, l) \<in> bu w m" | (new) "(q', j, l) \<in> buries q s"
    using b unfolding after_simps(3) [OF a(1)] by (auto split: if_splits)
  then show "letter (w_queues ?w q') j \<noteq> None \<or> (q', j) \<in> w_expired ?w"
  proof cases
    case old
    from ids_invD(2) [OF i(1) old] have "l \<notin> leases s" using ids_invD(3) [OF i(1)] fact(3) by metis
    with fact(5) [OF h] i(2) old have d: "letter (w_queues w q') j \<noteq> None \<or> (q', j) \<in> w_expired w"
      unfolding buried_inv_def by blast
    have "s \<noteq> DeleteDead j" using fact(1) by auto
    with d letter_kept [OF i(3) [of q], of j s] show ?thesis unfolding after_def by (cases "q' = q") auto
  next
    case new
    then obtain t e where s: "s = Bury j l t e" and q': "q' = q" by (cases s) auto
    from h obtain r where "message (fst (run_sql (Bury j l t e) (w_queues w q))) j = Some r" "m_lease r = Some l"
      unfolding after_simps(5) [OF a(1)] q' s by (auto simp del: run_sql.simps)
    from buried_present [OF i(3) this] show ?thesis unfolding after_simps(5) [OF a(1)] q' s by (simp del: run_sql.simps)
  qed
qed

lemma sent_inv_statement:
  assumes "queue_inv w" and a: "w_procs w n = Some a" "pr_prog a = Exec q s k"
  shows "sent_inv (after w n a q s p)" (is "sent_inv ?w")
  unfolding sent_inv_def
proof (intro allI impI)
  have i: "buried_inv w" "sent_inv w" and ok: "db_ok (w_queues w q)" using assms(1) by (simp_all add: queue_inv_def)
  note ab = statement_facts(1) [OF assms]
  let ?db = "w_queues w q" and ?db' = "fst (run_sql s (w_queues w q))"
  have w: "w_queues ?w = (w_queues w)(q := ?db')" "w_sent ?w = w_sent w \<union> Pair q ` accepts s ?db"
    "w_acked ?w = w_acked w \<union> Pair q ` acks s ?db" "w_expired ?w = w_expired w \<union> Pair q ` expires s ?db"
    by (simp_all add: after_def)
  fix q' j assume m: "(q', j) \<in> w_sent ?w"
  show "message (w_queues ?w q') j \<noteq> None \<or> letter (w_queues ?w q') j \<noteq> None \<or> (q', j) \<in> w_acked ?w \<or> (q', j) \<in> w_expired ?w"
  proof (cases "q' = q")
    case q: True
    consider (new) "j \<in> accepts s ?db" | (msg) r' where "message ?db j = Some r'"
      | (dead) "letter ?db j \<noteq> None" | (gone) "(q, j) \<in> w_acked w \<or> (q, j) \<in> w_expired w"
      using m i(2) unfolding w sent_inv_def q by blast
    then show ?thesis
    proof cases
      case new
      with accepted_present [OF ok] q show ?thesis unfolding w by simp
    next
      case (msg r')
      have "letter ?db j \<noteq> None \<or> (q, j) \<in> w_expired w" if "s = DropBuried j l" "m_lease r' = Some l" for l
        using ab i(1) that msg unfolding buried_inv_def by auto
      moreover have "s = DropBuried j l \<Longrightarrow> q_dead ?db' = q_dead ?db" for l by (simp add: delete_leased_def)
      ultimately show ?thesis using message_kept [OF ok msg, of s] unfolding w q by auto
    next
      case dead
      have "s \<noteq> DeleteDead j" using ab by auto
      with letter_kept [OF ok dead, of s] q show ?thesis unfolding w by auto
    next
      case gone
      with q show ?thesis unfolding w by auto
    qed
  next
    case False
    with m i(2) show ?thesis unfolding w sent_inv_def by auto
  qed
qed

lemma queue_inv_statement:
  assumes "queue_inv w" and a: "w_procs w n = Some a" "pr_prog a = Exec q s k"
  shows "queue_inv (after w n a q s (k r))"
proof -
  have "procs_inv (after w n a q s (k r))"
    using assms(1) statement_facts(2) [OF assms, of r] by (auto simp: queue_inv_def procs_inv_def after_def ran_def split: if_splits)
  moreover have "\<forall>q'. db_ok (w_queues (after w n a q s (k r)) q')"
    using assms(1) db_ok_run unfolding after_simps(5) [OF a(1)] queue_inv_def by simp
  ultimately show ?thesis
    using ids_inv_statement [OF assms] buried_inv_statement [OF assms] sent_inv_statement [OF assms] by (simp add: queue_inv_def)
qed

lemma queue_inv_step:
  assumes "qstep start w w'" and "\<And>p. start p \<Longrightarrow> careful p {} {} {} (\<lambda>_ _ _ _. True)" and "queue_inv w"
  shows "queue_inv w'"
  using assms(1)
proof cases
  case (spawn n p)
  then show ?thesis unfolding spawn(1)
    by (intro queue_inv_set [OF assms(3)]) (use assms(2) in auto)
next
  case (statement n a q s k)
  with queue_inv_statement [OF assms(3) statement(2,3)] show ?thesis by (simp add: after_def)
next
  case (read_clock n a k t)
  have "careful (k t) (pr_free a) (pr_used a) (pr_buried a) (\<lambda>_ _ _ _. True)"
    using assms(3) read_clock(2,3) unfolding queue_inv_def procs_inv_def by (metis careful.simps(3))
  then show ?thesis unfolding read_clock(1)
    by (intro queue_inv_set [OF assms(3)]) (use read_clock(2) in \<open>auto simp: fr_def us_def bu_def\<close>)
next
  case (draw n a k x)
  with queue_inv_draw [OF assms(3) draw(2,3,4)] show ?thesis by simp
next
  case (consume n a wk ms k ans)
  have "careful (k ans) (pr_free a) (pr_used a) (pr_buried a) (\<lambda>_ _ _ _. True)"
    using assms(3) consume(2,3) unfolding queue_inv_def procs_inv_def by (metis careful.simps(5))
  then show ?thesis unfolding consume(1)
    by (intro queue_inv_set [OF assms(3)]) (use consume(2) in \<open>auto simp: fr_def us_def bu_def\<close>)
next
  case (stop n)
  then show ?thesis using queue_inv_set [OF assms(3), of None n] by simp
qed

lemma queue_inv_reach: "qreach handler w \<Longrightarrow> queue_inv w"
  by (induction rule: qreach.induct) (auto intro: queue_inv_init queue_inv_step careful_handler)


end
