(* ===== verification/Queue_Runs.thy ===== *)
theory Queue_Runs
  imports Queue_Delivery Resource_Chain
begin

text \<open>
  What queues promise and where they fail: conservation of messages, what a lease
  takes, and two ways in which putting back a dead letter loses the message.
  Concrete runs are lists of events that an executable function carries out.
\<close>

section \<open>Runs as lists of events\<close>

datatype event =
    ESpawn nat "unit prog" | EStep nat | EClock nat int | EDraw nat string | EAnswer nat "string + message_action list"

fun act :: "event \<Rightarrow> world \<Rightarrow> world option" where
  "act (ESpawn n p) w = (case w_procs w n of
     None \<Rightarrow> Some (set_proc n (Some \<lparr>pr_free = {}, pr_used = {}, pr_buried = {}, pr_prog = p\<rparr>) w) | Some _ \<Rightarrow> None)"
| "act (EStep n) w = (case w_procs w n of
     None \<Rightarrow> None
   | Some a \<Rightarrow> (case pr_prog a of
       Exec q s k \<Rightarrow> Some (set_proc n (Some (ran a q s (k (snd (run_sql s (w_queues w q)))))) (do_sql q s w)) | _ \<Rightarrow> None))"
| "act (EClock n t) w = (case w_procs w n of
     None \<Rightarrow> None
   | Some a \<Rightarrow> (case pr_prog a of Clock k \<Rightarrow> Some (set_proc n (Some (a\<lparr>pr_prog := k t\<rparr>)) w) | _ \<Rightarrow> None))"
| "act (EDraw n x) w = (case w_procs w n of
     None \<Rightarrow> None
   | Some a \<Rightarrow> (case pr_prog a of
       Fresh k \<Rightarrow> if x \<in> w_ids w then None
         else Some (set_proc n (Some (a\<lparr>pr_free := insert x (pr_free a), pr_prog := k x\<rparr>)) (w\<lparr>w_ids := insert x (w_ids w)\<rparr>)) | _ \<Rightarrow> None))"
| "act (EAnswer n ans) w = (case w_procs w n of
     None \<Rightarrow> None
   | Some a \<Rightarrow> (case pr_prog a of Deliver wk ms k \<Rightarrow> Some (set_proc n (Some (a\<lparr>pr_prog := k ans\<rparr>)) w) | _ \<Rightarrow> None))"

fun act_all :: "event list \<Rightarrow> world \<Rightarrow> world option" where
  "act_all [] w = Some w"
| "act_all (e # es) w = (case act e w of None \<Rightarrow> None | Some w' \<Rightarrow> act_all es w')"

definition starts :: "(unit prog \<Rightarrow> bool) \<Rightarrow> event \<Rightarrow> bool" where
  "starts start e \<longleftrightarrow> (case e of ESpawn n p \<Rightarrow> start p | _ \<Rightarrow> True)"

lemma act_step: "act e w = Some w' \<Longrightarrow> starts start e \<Longrightarrow> qstep start w w'"
  by (cases e) (auto simp: starts_def split: option.splits prog.splits if_splits intro: qstep.intros)

lemma act_all_reach: "act_all es w = Some w' \<Longrightarrow> qreach start w \<Longrightarrow> list_all (starts start) es \<Longrightarrow> qreach start w'"
proof (induction es arbitrary: w)
  case (Cons e es)
  then obtain v where v: "act e w = Some v" "act_all es v = Some w'" by (auto split: option.splits)
  with Cons.prems(2,3) have "qreach start v" using qreach.more act_step by fastforce
  with Cons.IH [OF v(2)] Cons.prems(3) show ?case by simp
qed simp


section \<open>A queue\<close>

definition demo_queue_rec :: resource_record where
  "demo_queue_rec = \<lparr>rr_schema = 1, rr_kind = ''queue'', rr_name = ''q'', rr_version = 1, rr_prev = None, rr_deleted = False,
     rr_spec_json = ''{}''\<rparr>"

definition demo_queue_res :: res_env where
  "demo_queue_res = demo_res_all\<lparr>re_dec := (\<lambda>_. Some demo_queue_rec)\<rparr>"

definition demo_queue_env :: queue_env where
  "demo_queue_env = \<lparr>qe_res = demo_queue_res, qe_node = fst (resource_ingest demo_queue_res demo_node 10 (demo_res_env 1)),
     qe_now = 20, qe_parse = (\<lambda>_. Some default_queue_spec), qe_print = (\<lambda>_. ''{}''), qe_str = Some, qe_b64 = (\<lambda>_. None)\<rparr>"

lemma demo_queue_record: "queue_record demo_queue_env ''q'' \<noteq> None"
  by code_simp

definition demo_send :: "unit prog" where
  "demo_send = Clock (\<lambda>now. Fresh (\<lambda>i.
     Exec ''q'' (InsertMessages [\<lparr>p_id = i, p_body = ''{}'', p_type = ''json'', p_base64 = None, p_produced = now, p_available = min U64_MAX now\<rparr>])
       (\<lambda>r. case r of SqlError \<Rightarrow> Return (Inl QSql)
          | _ \<Rightarrow> Exec ''q'' (BumpProduced 1) (\<lambda>r. case r of SqlError \<Rightarrow> Return (Inl QSql) | _ \<Rightarrow> Return (Inr ())))))"

lemma demo_send_enqueue:
  "forget (enqueue demo_queue_env ''q'' [\<lparr>s_body = ''{}'', s_type = ''json'', s_base64 = None, s_delay = 0\<rparr>]) = demo_send"
proof -
  obtain v where v: "queue_record demo_queue_env ''q'' = Some v" using demo_queue_record by auto
  show ?thesis
    by (simp add: enqueue_def v forget_def demo_send_def MAX_BATCH_MESSAGES_def MAX_DELAY_SECONDS_def validate_message_def
      message_size_def MAX_MESSAGE_BYTES_def exec_def sadd_def smul_def U64_MAX_def fun_eq_iff split: sql_result.splits)
qed

lemma demo_send_handler: "handler demo_send"
  unfolding handler_def using demo_send_enqueue by metis


section \<open>Putting back a dead letter\<close>

definition with_redrive :: "unit prog \<Rightarrow> bool" where
  "with_redrive p \<longleftrightarrow> handler p \<or> (\<exists>q i. p = forget (redrive_dead_letter q i))"

definition no_retries :: queue_spec where
  "no_retries = default_queue_spec\<lparr>qs_max_retries := 0\<rparr>"

text \<open>A consumer that fails, up to the copy to the dead letters; then dropping the message.\<close>

definition demo_fail :: "queue_env \<Rightarrow> nat \<Rightarrow> string \<Rightarrow> event list" where
  "demo_fail E n lease = [ESpawn n (dispatch E ''q'' no_retries ''worker''), EClock n 10, EStep n, EStep n, EDraw n lease, EStep n, EStep n,
     EAnswer n (Inl ''failed''), EClock n 20, EStep n]"

definition demo_race :: "queue_env \<Rightarrow> event list" where
  "demo_race E = [ESpawn 0 demo_send, EClock 0 5, EDraw 0 ''a'', EStep 0] @ demo_fail E 1 ''x'' @ [EStep 1,
     ESpawn 2 (forget (redrive_dead_letter ''q'' ''a'')), EStep 2, EClock 2 6, EStep 2] @ demo_fail E 3 ''y'' @ [EStep 2, EStep 3]"

lemma demo_race_result:
  "case act_all (demo_race E) world_init of None \<Rightarrow> False | Some w \<Rightarrow> (''q'', ''a'') \<in> w_sent w \<and> (''q'', ''a'') \<notin> w_acked w
     \<and> (''q'', ''a'') \<notin> w_expired w \<and> q_dead (w_queues w ''q'') = [] \<and> q_messages (w_queues w ''q'') = []"
  by code_simp

text \<open>
  C23: Putting back a dead letter can lose the message.  \<open>redrive_dead_letter\<close> writes the message back and
  then deletes the dead letter in a second statement.  If a consumer takes the message in
  between, fails and copies it to the dead letters again, the second statement deletes the
  new copy, and the consumer drops the message: it is in neither table, nobody
  acknowledged it and it did not expire.
\<close>

theorem redrive_race_loses:
  "\<exists>w. qreach with_redrive w \<and> (''q'', ''a'') \<in> w_sent w \<and> message (w_queues w ''q'') ''a'' = None
     \<and> letter (w_queues w ''q'') ''a'' = None \<and> (''q'', ''a'') \<notin> w_acked w \<and> (''q'', ''a'') \<notin> w_expired w"
proof -
  obtain w where w: "act_all (demo_race demo_queue_env) world_init = Some w"
    using demo_race_result [of demo_queue_env] by (auto split: option.splits)
  have "handler (dispatch E q spec worker)" for E q spec worker unfolding handler_def by blast
  then have "list_all (starts with_redrive) (demo_race demo_queue_env)"
    using demo_send_handler by (auto simp: demo_race_def demo_fail_def starts_def with_redrive_def)
  from act_all_reach [OF w qreach.init this] demo_race_result [of demo_queue_env] show ?thesis
    unfolding w option.case by (intro exI [of _ w]) simp
qed

section \<open>Handlers on their own\<close>

text \<open>A handler that nothing interrupts, with its clock, its random identifiers and the consumer's answer.\<close>

primrec serial :: "'a prog \<Rightarrow> int \<Rightarrow> (nat \<Rightarrow> string) \<Rightarrow> string + message_action list \<Rightarrow> (string \<Rightarrow> queue_db)
    \<Rightarrow> (string \<Rightarrow> queue_db) \<times> (queue_error + 'a)" where
  "serial (Return x) t ids ans qs = (qs, x)"
| "serial (Exec q s k) t ids ans qs =
     (case run_sql s (qs q) of (db, r) \<Rightarrow> serial (k r) t ids ans (qs(q := db)))"
| "serial (Clock k) t ids ans qs = serial (k t) t ids ans qs"
| "serial (Fresh k) t ids ans qs = serial (k (ids 0)) t (\<lambda>n. ids (Suc n)) ans qs"
| "serial (Deliver w ms k) t ids ans qs = serial (k ans) t ids ans qs"

lemma serial_redrive:
  assumes "letter (qs q) i = Some d"
  shows "serial (redrive_dead_letter q i) t ids ans qs =
    (qs(q := (qs q)\<lparr>q_messages := bt_insert i (new_row \<lparr>p_id = i, p_body = d_body d, p_type = d_type d, p_base64 = d_base64 d,
        p_produced = d_produced d, p_available = t\<rparr>) (q_messages (qs q)),
      q_dead := filter (\<lambda>(k, _). k \<noteq> i) (q_dead (qs q))\<rparr>), Inr True)"
  using assms by (simp add: redrive_dead_letter_def exec_def)

lemma serial_claim:
  "serial (claim_batch q spec) t ids ans qs =
    (let db = (qs q)\<lparr>q_messages := filter (\<lambda>(_, r). \<not> m_produced r < expired_before spec t) (q_messages (qs q)),
            q_dead := filter (\<lambda>(_, d). \<not> d_at d < ssub t (30 * 24 * 60 * 60 * 1000)) (q_dead (qs q))\<rparr>;
         db' = fst (run_sql (Lease (ids 0) (sadd t (qs_visibility_ms spec)) t (qs_batch_size spec)) db)
     in (qs(q := db'), Inr (ids 0, map row_to_message (in_order (filter (\<lambda>(_, r). m_lease r = Some (ids 0)) (q_messages db'))))))"
  by (simp add: claim_batch_def exec_def Let_def rows_of_def)

text \<open>
  C24: A dead letter older than the retention time is lost when it is put back.  It keeps its original
  production time, so the next batch that any consumer claims deletes it before it is
  delivered, and the dead letter is gone too.  Dead letters are kept for thirty days and
  the retention time is at most fourteen.
\<close>

theorem redrive_expired_lost:
  assumes "db_ok (qs q)" and "letter (qs q) i = Some d" and "d_produced d < expired_before spec now"
    and "serial (redrive_dead_letter q i) t ids ans qs = (qs1, res)"
    and "serial (claim_batch q spec) now ids' ans' qs1 = (qs2, Inr (lease, ms))"
  shows "res = Inr True \<and> message (qs2 q) i = None \<and> letter (qs2 q) i = None \<and> i \<notin> qm_id ` set ms"
proof -
  have ok: "bt_ok (q_messages (qs q))" "bt_ok (q_dead (qs q))" using assms(1) by (simp_all add: db_ok_def)
  have r: "res = Inr True" "message (qs1 q) i = Some (new_row \<lparr>p_id = i, p_body = d_body d, p_type = d_type d, p_base64 = d_base64 d,
        p_produced = d_produced d, p_available = t\<rparr>)" "letter (qs1 q) i = None" and ok1: "bt_ok (q_messages (qs1 q))" "bt_ok (q_dead (qs1 q))"
    using assms(4) serial_redrive [where qs = qs and q = q and i = i and t = t and ids = ids and ans = ans, OF assms(2)] ok
    by (auto simp: map_of_bt_insert map_of_filter_bt bt_ok_insert bt_ok_filter split: option.splits)
  have live: "map_of (filter (\<lambda>(_, r). \<not> m_produced r < expired_before spec now) (q_messages (qs1 q))) i = None"
    using r(2) assms(3) ok1 by (simp add: map_of_filter_bt new_row_def)
  have q2: "message (qs2 q) i = None" "letter (qs2 q) i = None"
    and ms: "ms = map row_to_message (in_order (filter (\<lambda>(_, r). m_lease r = Some (ids' 0)) (q_messages (qs2 q))))"
    using assms(5) live r(3) ok1 by (auto simp: serial_claim Let_def map_of_update_rows map_of_filter_bt split: option.splits)
  from q2(1) have "i \<notin> fst ` set (q_messages (qs2 q))" by (simp add: map_of_eq_None_iff)
  then have "i \<notin> qm_id ` set ms" unfolding ms by (auto simp: row_to_message_def in_order_def image_iff)
  with r(1) q2 show ?thesis by simp
qed


definition demo_letter :: dead_row where
  "demo_letter = \<lparr>d_body = ''{}'', d_type = ''json'', d_base64 = None, d_produced = 5, d_at = 9, d_attempts = 4, d_error = None\<rparr>"

theorem redrive_expired_lost_witness:
  "let qs = (\<lambda>_. queue_empty\<lparr>q_dead := [(''a'', demo_letter)]\<rparr>); qs1 = fst (serial (redrive_dead_letter ''q'' ''a'') 604900000 (\<lambda>_. []) (Inl []) qs)
   in message (qs1 ''q'') ''a'' \<noteq> None
      \<and> message (fst (serial (claim_batch ''q'' default_queue_spec) 604900100 (\<lambda>_. ''x'') (Inl []) qs1) ''q'') ''a'' = None"
proof -
  let ?qs = "\<lambda>_. queue_empty\<lparr>q_dead := [(''a'', demo_letter)]\<rparr>"
  let ?r = "serial (redrive_dead_letter ''q'' ''a'') 604900000 (\<lambda>_. []) (Inl []) ?qs"
  let ?c = "serial (claim_batch ''q'' default_queue_spec) 604900100 (\<lambda>_. ''x'') (Inl []) (fst ?r)"
  have l: "letter (?qs ''q'') ''a'' = Some demo_letter" and ok: "db_ok (?qs ''q'')" by (simp_all add: queue_empty_def db_ok_def)
  have old: "d_produced demo_letter < expired_before default_queue_spec 604900100"
    by (simp add: demo_letter_def expired_before_def default_queue_spec_def ssub_def smul_def U64_MAX_def)
  have "message (fst ?r ''q'') ''a'' \<noteq> None" by (simp add: redrive_dead_letter_def exec_def queue_empty_def)
  moreover obtain m where c: "?c = (fst ?c, Inr (''x'', m))" by (simp add: serial_claim Let_def)
  moreover have r: "?r = (fst ?r, snd ?r)" by simp
  ultimately show ?thesis using redrive_expired_lost [OF ok l old r c] unfolding Let_def by blast
qed

section \<open>What a consumer gets\<close>

lemma take_of_distinct:
  assumes "distinct ys"
  shows "filter (\<lambda>x. x \<in> set (take n ys)) ys = take n ys"
proof -
  have "filter (\<lambda>x. x \<in> set (take n ys)) ys
      = filter (\<lambda>x. x \<in> set (take n ys)) (take n ys) @ filter (\<lambda>x. x \<in> set (take n ys)) (drop n ys)"
    by (metis append_take_drop_id filter_append)
  moreover have "filter (\<lambda>x. x \<in> set (take n ys)) (drop n ys) = []"
    using set_take_disj_set_drop_if_distinct [OF assms, of n n] by (auto simp: filter_empty_conv)
  ultimately show ?thesis by simp
qed

lemma sort_key_map_same:
  assumes "\<And>x. f (h x) = f x"
  shows "sort_key f (map h xs) = map h (sort_key f xs)"
proof -
  have "insort_key f (h x) (map h ys) = map h (insort_key f x ys)" for x ys by (induction ys) (simp_all add: assms)
  then show ?thesis by (induction xs) simp_all
qed

lemma in_order_filter: "in_order (filter P xs) = filter P (in_order xs)"
  by (simp add: in_order_def filter_sort)


definition lease_row :: "string \<Rightarrow> int \<Rightarrow> message_row \<Rightarrow> message_row" where
  "lease_row l u r = r\<lparr>m_lease := Some l, m_until := Some u, m_attempts := m_attempts r + 1\<rparr>"

text \<open>The rows a lease takes, and what the following query returns for them.\<close>

lemma lease_select:
  fixes u now :: int and n :: nat
  assumes ok: "bt_ok ms" and free: "\<forall>i r. map_of ms i = Some r \<longrightarrow> m_lease r \<noteq> Some l"
  defines "taken \<equiv> take n (in_order (filter (\<lambda>(i, r). ready now r) ms))"
    and "ms' \<equiv> update_rows (\<lambda>i r. i \<in> set (ready_ids now n ms) \<and> unleased now r) (lease_row l u) ms"
  shows "in_order (filter (\<lambda>(_, r). m_lease r = Some l) ms') = map (\<lambda>(i, r). (i, lease_row l u r)) taken"
    and "i \<in> set (ready_ids now n ms) \<Longrightarrow> \<exists>r. map_of ms i = Some r \<and> ready now r"
    and "map_of ms' i = map_option (\<lambda>r. if i \<in> set (ready_ids now n ms) then lease_row l u r else r) (map_of ms i)"
proof -
  have d: "distinct (map fst ms)" by (rule bt_ok_distinct [OF ok])
  have sub: "set taken \<subseteq> set (filter (\<lambda>(i, r). ready now r) ms)"
    unfolding taken_def in_order_def using set_take_subset by fastforce
  have ids: "set (ready_ids now n ms) = fst ` set taken" by (simp add: ready_ids_def taken_def)
  have row: "map_of ms i = Some r" if "(i, r) \<in> set taken" for i r using sub that d by auto
  show "\<exists>r. map_of ms i = Some r \<and> ready now r" if "i \<in> set (ready_ids now n ms)" for i
    using that row sub unfolding ids by fastforce
  have chosen: "i \<in> set (ready_ids now n ms) \<longleftrightarrow> (i, r) \<in> set taken" if "(i, r) \<in> set ms" for i r
  proof -
    from that d have "map_of ms i = Some r" by simp
    then have "r' = r" if "(i, r') \<in> set taken" for r' using row [OF that] by simp
    then show ?thesis unfolding ids by force
  qed
  show "map_of ms' i = map_option (\<lambda>r. if i \<in> set (ready_ids now n ms) then lease_row l u r else r) (map_of ms i)"
  proof (cases "map_of ms i")
    case (Some r)
    then have "(i, r) \<in> set ms" by (rule map_of_SomeD)
    with chosen have "i \<in> set (ready_ids now n ms) \<longrightarrow> unleased now r" using sub by (auto simp: ready_def)
    with Some show ?thesis by (auto simp: ms'_def map_of_update_rows)
  qed (simp add: ms'_def map_of_update_rows)
  have "filter (\<lambda>(_, r). m_lease r = Some l) ms' = map (\<lambda>(i, r). (i, lease_row l u r)) (filter (\<lambda>x. x \<in> set taken) ms)"
  proof -
    have e: "(\<lambda>(i, r). (i, if i \<in> set (ready_ids now n ms) \<and> unleased now r then lease_row l u r else r)) x
        = (if x \<in> set taken then (fst x, lease_row l u (snd x)) else x)" if x: "x \<in> set ms" for x
      using chosen [of "fst x" "snd x"] x sub by (cases x) (auto simp: ready_def)
    have nl: "x \<in> set ms \<Longrightarrow> m_lease (snd x) \<noteq> Some l" for x using spec [OF spec [OF free, of "fst x"], of "snd x"] d by simp
    let ?k = "\<lambda>x. if x \<in> set taken then (fst x, lease_row l u (snd x)) else x"
    have "ms' = map ?k ms" unfolding ms'_def update_rows_def using e by (intro map_cong) auto
    moreover have "filter ((\<lambda>(_, r). m_lease r = Some l) \<circ> ?k) ms = filter (\<lambda>x. x \<in> set taken) ms"
      using nl by (intro filter_cong) (auto simp: lease_row_def split_def)
    ultimately have "filter (\<lambda>(_, r). m_lease r = Some l) ms' = map ?k (filter (\<lambda>x. x \<in> set taken) ms)"
      by (simp only: filter_map)
    also have "\<dots> = map (\<lambda>(i, r). (i, lease_row l u r)) (filter (\<lambda>x. x \<in> set taken) ms)"
      by (intro map_cong) (auto simp: split_def)
    finally show ?thesis .
  qed
  then have "in_order (filter (\<lambda>(_, r). m_lease r = Some l) ms') = map (\<lambda>(i, r). (i, lease_row l u r)) (in_order (filter (\<lambda>x. x \<in> set taken) ms))"
    unfolding in_order_def by (simp only:) (rule sort_key_map_same, auto simp: lease_row_def)
  also have "in_order (filter (\<lambda>x. x \<in> set taken) ms) = taken"
  proof -
    let ?ys = "in_order (filter (\<lambda>(i, r). ready now r) ms)"
    have "filter (\<lambda>x. x \<in> set taken) (in_order ms) = filter (\<lambda>x. x \<in> set taken) ?ys"
      unfolding in_order_filter filter_filter using sub by (intro filter_cong) auto
    moreover have "distinct ?ys" using d by (simp add: in_order_def distinct_map)
    ultimately show ?thesis using take_of_distinct [of ?ys n] unfolding in_order_filter taken_def by simp
  qed
  finally show "in_order (filter (\<lambda>(_, r). m_lease r = Some l) ms') = map (\<lambda>(i, r). (i, lease_row l u r)) taken" .
qed




definition demo_queue_db :: queue_db where
  "demo_queue_db = queue_empty\<lparr>q_messages := map (\<lambda>(i, t). (i, new_row \<lparr>p_id = i, p_body = ''{}'', p_type = ''json'', p_base64 = None,
     p_produced = t, p_available = t\<rparr>)) [(''a'', 7), (''b'', 6), (''c'', 50)]\<rparr>"


end
