(* ===== verification/Spec2Isabelle.thy ===== *)
theory Spec2Isabelle
  imports Hlc Identity Envelope Kv Claims Cron_Expr Manifests Raft_Cluster Exit_Cache D1_Durable Node_Serving Resource_Chain Access Queue_Runs
begin

text \<open>
  RandallFlare is a self-hosted serverless platform (\<^verbatim>\<open>src/crates\<close>).  A cluster
  is a set of nodes without a fixed leader.  The operator signs manifests of
  Workers and records of platform resources with one key; the nodes gossip these
  envelopes, decide among themselves who runs a task, replicate key-value
  namespaces, and keep SQL databases on small Raft groups.  This development
  models the replicated core (crate \<^verbatim>\<open>rf-core\<close>) and the parts of the daemon (crate
  \<^verbatim>\<open>rf\<close>) that carry its state.

  \<^bold>\<open>Parts, theories and sources.\<close>

  \<^item> \<open>Rf_Prelude\<close>, \<open>Rf_Map\<close>, \<open>Rf_Str\<close>, \<open>Rf_Net\<close>: machine integers with Rust's
    saturating operations, \<open>BTreeMap\<close> as a key-sorted list and \<open>HashMap\<close> as an
    association list, \<open>str\<close> as its UTF-8 bytes with the library functions the
    sources call, and internet addresses.  The interfaces shared by the
    components are locales: \<open>lww_register\<close> (keep the entry of greatest rank),
    \<open>register_map\<close> and \<open>keyed_store\<close> (a map of such registers), \<open>map_impl\<close> (a
    finite map) and \<open>quorum_system\<close> (any two quorums meet).  Each is interpreted
    on the model's definitions: key-value entries, manifests, claim records, the
    claim minimum, routes, both map types, all namespaces of a node, and the
    majorities of a Raft group.
  \<^item> \<open>Hlc\<close> (\<^verbatim>\<open>hlc.rs\<close>), \<open>Identity\<close> (\<^verbatim>\<open>identity.rs\<close>), \<open>Envelope\<close> (\<^verbatim>\<open>envelope.rs\<close>):
    timestamps, signers and signed envelopes.  Timestamps increase as long as the
    32-bit counter does not wrap; an envelope opens to exactly what was sealed
    and only under the pinned signer.
  \<^item> \<open>Kv\<close> (\<^verbatim>\<open>kv.rs\<close>): namespaces of last-writer-wins entries.  Replicas that
    exchange dumps agree, and collecting garbage changes no read.
  \<^item> \<open>Claims\<close> (\<^verbatim>\<open>claim.rs\<close>): leases on tasks.  Every well-formed set of claims has
    at most one holder, the live claim with the least acquisition time and
    digest, and nodes that have seen the same envelopes agree on it in any order.
  \<^item> \<open>Cron_Expr\<close> (\<^verbatim>\<open>cron.rs\<close>): parsing into bit masks and the calendar.  The day
    arithmetic is the Gregorian calendar, and an expression fires exactly at the
    times its fields name.
  \<^item> \<open>Manifests\<close> (\<^verbatim>\<open>manifest.rs\<close>): Worker manifests, routing, the transparency
    log.  Unforked histories converge, a verified history is unique, paths of a
    bundle stay inside it; a fork is shown to diverge.
  \<^item> \<open>Raft_Node\<close>, \<open>Raft_Cluster\<close> (\<^verbatim>\<open>quorum.rs\<close>): one member as a function from
    messages and timer ticks to a new state and actions, and a group of members
    as an \<open>inductive\<close> step relation in which messages are lost, repeated and
    reordered and members restart.  Elections are safe and entries are identified
    by epoch and number; a run shows two members applying different entries.
    A restart of a member in \<open>Raft_Cluster\<close> keeps epoch, vote and log;
    \<open>D1_Durable\<close> shows when the driver provides that.
  \<^item> \<open>Store\<close>, \<open>D1_Driver\<close>, \<open>D1_Durable\<close> (\<^verbatim>\<open>store.rs\<close>, \<^verbatim>\<open>d1.rs\<close>): the tables of
    the embedded store, and the driver that runs a Raft member, executes its
    actions and applies committed statements.  What a message promises is on disk
    before it is sent, every round keeps store and member equal, and replaying
    the log after a restart changes nothing; installing a snapshot over a
    longer log is the exception.
  \<^item> \<open>Exit_Rules\<close>, \<open>Exit_Cache\<close> (\<^verbatim>\<open>exit.rs\<close>): split-routing rules.  The indexed
    matcher returns the policy of the first rule that matches, the cache returns
    what compilation returns, and compilation terminates exactly when rule-set
    references are well founded.
  \<^item> \<open>Node_State\<close>, \<open>Node_Reopen\<close>, \<open>Node_Serving\<close> (\<^verbatim>\<open>node.rs\<close>): the state of a node.
    A node reopened from its store serves what it served before, listing by pages
    is complete, and the nodes together keep the request budget.
  \<^item> \<open>Resource\<close>, \<open>Resource_Chain\<close> (\<^verbatim>\<open>resource.rs\<close>): platform resources as hash
    chains in one namespace.  A node lists exactly the operator's chain, and
    publishing extends it.
  \<^item> \<open>Access\<close> (\<^verbatim>\<open>access.rs\<close>): API tokens as platform resources.  A token is accepted
    exactly if the operator's latest record for it is active and holds its
    digest, and comparing digests in constant time is equality.
  \<^item> \<open>Queue\<close>, \<open>Queue_Delivery\<close>, \<open>Queue_Runs\<close> (\<^verbatim>\<open>queue.rs\<close>): message queues.  A handler is
    a program of single SQL statements, so that the handlers of several nodes
    interleave and stop anywhere.  No accepted message is lost by producers and
    consumers, and a batch holds exactly the first ready messages; putting back
    a dead letter is shown to lose messages in two ways.

  \<^bold>\<open>Conventions.\<close>  A struct is a \<open>record\<close>, an enum a \<open>datatype\<close>, a method a
  function that returns the changed state; an error is \<open>Inl\<close> or \<open>None\<close>.  \<open>u64\<close>,
  \<open>u32\<close> and \<open>u8\<close> are words where overflow matters, with \<open>+\<close> wrapping as in the
  release profile; the counters of Raft are natural numbers.  Reading the wall
  clock is an argument \<open>now\<close>.

  \<^bold>\<open>Parameters.\<close>  Hash functions and signatures (record \<open>crypto\<close>), the postcard
  and JSON codecs and SQLite are arguments of the definitions.  Theorems that rely
  on them name what they need: that a signature made by a key verifies, that a
  decoder inverts its encoder, that digests do not collide on the envelopes at
  hand.  Every such theorem has a witness with concrete functions.

  \<^bold>\<open>Fuel and bounds.\<close>  The rule compiler follows references between snapshots
  recursively and may not end; it takes a depth, and the theorems state both that
  a sufficient depth exists for well-founded references and that none exists for
  a self-reference.  All other recursion terminates.

  \<^bold>\<open>Not modelled.\<close>  Gossip, sockets, HTTP, TLS and DNS (\<^verbatim>\<open>gossip.rs\<close>, \<^verbatim>\<open>peers.rs\<close>,
  \<^verbatim>\<open>peerapi.rs\<close>, \<^verbatim>\<open>ingress.rs\<close>, \<^verbatim>\<open>tls.rs\<close>, \<^verbatim>\<open>acme.rs\<close>, \<^verbatim>\<open>dns.rs\<close>): message passing is
  an arbitrary delivery order instead.  Process supervision and builds (\<^verbatim>\<open>runtime.rs\<close>,
  \<^verbatim>\<open>build.rs\<close>, \<^verbatim>\<open>deploy.rs\<close>, \<^verbatim>\<open>selfupdate.rs\<close>), object storage (\<^verbatim>\<open>r2.rs\<close>, \<^verbatim>\<open>s3.rs\<close>,
  \<^verbatim>\<open>objectstore.rs\<close>, \<^verbatim>\<open>blob.rs\<close>), the command line and the web console (\<^verbatim>\<open>main.rs\<close>,
  \<^verbatim>\<open>console.rs\<close>), mail (\<^verbatim>\<open>email.rs\<close>), flows and workflows (\<^verbatim>\<open>flow.rs\<close>,
  \<^verbatim>\<open>workflow.rs\<close>, \<^verbatim>\<open>pipeline.rs\<close>) and device egress (\<^verbatim>\<open>exitproxy.rs\<close>,
  \<^verbatim>\<open>device_tun.rs\<close>) are input and output around SQL statements and external
  processes.
\<close>

end
